(* ===== verification/Prelude.thy ===== *)
theory Prelude
  imports Main "HOL-Library.Monad_Syntax" "HOL-Library.Word"
begin

text \<open>
  The shared vocabulary of the development: how the Go values the proxy handles
  (bytes, strings, machine integers, slices, panics) are read in HOL, and the
  generic facts about them that the component theories use.

  \<^item> A \<open>byte\<close> is a \<^typ>\<open>char\<close> (HOL characters are exactly the 256 byte values), a
    byte slice or Go string is a list of bytes.
  \<^item> A Go \<open>int\<close> on a 64-bit platform is an \<^typ>\<open>int\<close> whose arithmetic is wrapped with
    \<open>wrap64\<close> wherever the source can overflow.
  \<^item> \<open>None\<close> of the type \<open>'a go\<close> is a run-time panic (a slice bound out of range, a nil
    dereference, a negative \<open>make\<close> size); \<open>Some\<close> is a normal return.
  \<^item> A Go \<open>error\<close> result is a value of an error type of the component, either in a sum
    (\<open>Inl\<close> the error) when the other result is unused on errors, or beside the value.
\<close>

section \<open>Types and named collections\<close>

type_synonym byte = char
type_synonym bytes = "char list"

type_synonym 'a go = "'a option"

named_theorems go_simps \<open>unfolding rules of the Go primitives\<close>
named_theorems resp_simps \<open>rewriting rules for RESP encodings\<close>

abbreviation CR :: byte where "CR \<equiv> CHR 0x0D"
abbreviation LF :: byte where "LF \<equiv> CHR 0x0A"
abbreviation CRLF :: bytes where "CRLF \<equiv> [CR, LF]"

section \<open>Machine integers\<close>

text \<open>Two's complement wrap-around of a 64-bit and of a 32-bit signed integer.\<close>

definition wrap64 :: "int \<Rightarrow> int" where
  "wrap64 x = (x + 2 ^ 63) mod 2 ^ 64 - 2 ^ 63"

definition wrap32 :: "int \<Rightarrow> int" where
  "wrap32 x = (x + 2 ^ 31) mod 2 ^ 32 - 2 ^ 31"

lemma wrap64_id: "- (2 ^ 63) \<le> x \<Longrightarrow> x < 2 ^ 63 \<Longrightarrow> wrap64 x = x"
  by (simp add: wrap64_def)

lemma wrap64_range: "- (2 ^ 63) \<le> wrap64 x \<and> wrap64 x < 2 ^ 63"
  by (simp add: wrap64_def)

lemma wrap64_add_left: "wrap64 (wrap64 x + y) = wrap64 (x + y)"
proof -
  have "wrap64 x + y + 2 ^ 63 = (x + 2 ^ 63) mod 2 ^ 64 + y"
    by (simp add: wrap64_def)
  then show ?thesis
    by (simp add: wrap64_def mod_simps algebra_simps)
qed

lemma wrap64_mult_left: "wrap64 (wrap64 x * y) = wrap64 (x * y)"
proof -
  have "(wrap64 x * y) mod 2 ^ 64 = (x * y) mod 2 ^ 64"
  proof -
    have "wrap64 x mod 2 ^ 64 = x mod 2 ^ 64"
      by (simp add: wrap64_def mod_diff_left_eq)
    then show ?thesis
      by (metis mod_mult_left_eq)
  qed
  then show ?thesis
    by (metis wrap64_def mod_add_left_eq)
qed

lemma wrap32_id: "- (2 ^ 31) \<le> x \<Longrightarrow> x < 2 ^ 31 \<Longrightarrow> wrap32 x = x"
  by (simp add: wrap32_def)

section \<open>Bytes and decimal numbers\<close>

definition is_digit :: "byte \<Rightarrow> bool" where
  "is_digit b \<longleftrightarrow> (48::nat) \<le> of_char b \<and> of_char b \<le> (57::nat)"

definition digit_val :: "byte \<Rightarrow> int" where
  "digit_val b = of_char b - 48"

definition digit_char :: "nat \<Rightarrow> byte" where
  "digit_char n = char_of (48 + n)"

lemma of_char_digit_char: "n < 10 \<Longrightarrow> of_char (digit_char n) = (48 + n :: nat)"
  by (simp add: digit_char_def)

lemma of_char_digit_char_int: "n < 10 \<Longrightarrow> of_char (digit_char n) = (48 + int n)"
  by (metis of_char_digit_char of_nat_of_char of_nat_add of_nat_numeral)

lemma digit_val_char [simp]: "n < 10 \<Longrightarrow> digit_val (digit_char n) = int n"
  by (simp add: digit_val_def of_char_digit_char_int)

lemma is_digit_char [simp]: "n < 10 \<Longrightarrow> is_digit (digit_char n)"
  by (simp add: is_digit_def of_char_digit_char)

text \<open>\<open>strconv.Itoa\<close> on a non-negative number, most significant digit first.\<close>

fun itoa_nat :: "nat \<Rightarrow> bytes" where
  "itoa_nat n = (if n < 10 then [digit_char n] else itoa_nat (n div 10) @ [digit_char (n mod 10)])"

declare itoa_nat.simps [simp del]

definition itoa :: "int \<Rightarrow> bytes" where
  "itoa n = (if n < 0 then CHR ''-'' # itoa_nat (nat (- n)) else itoa_nat (nat n))"

lemma itoa_nat_digits: "\<forall>b \<in> set (itoa_nat n). is_digit b"
proof (induction n rule: itoa_nat.induct)
  case (1 n)
  then show ?case by (subst itoa_nat.simps) auto
qed

lemma itoa_nat_nonempty [simp]: "itoa_nat n \<noteq> []"
  by (subst itoa_nat.simps) simp

lemma is_digit_not_special:
  "is_digit b \<Longrightarrow> b \<noteq> CR \<and> b \<noteq> LF \<and> b \<noteq> CHR ''-'' \<and> b \<noteq> CHR ''$'' \<and> b \<noteq> CHR ''*''"
  by (auto simp: is_digit_def)

lemma itoa_nat_no_LF: "LF \<notin> set (itoa_nat n)" and itoa_nat_no_CR: "CR \<notin> set (itoa_nat n)"
  using itoa_nat_digits is_digit_not_special by blast+

text \<open>The value of a string of digits, read left to right.\<close>

definition dec_val :: "bytes \<Rightarrow> int" where
  "dec_val bs = foldl (\<lambda>n b. n * 10 + digit_val b) 0 bs"

lemma dec_val_snoc: "dec_val (bs @ [b]) = dec_val bs * 10 + digit_val b"
  by (simp add: dec_val_def)

lemma dec_val_itoa [simp]: "dec_val (itoa_nat n) = int n"
proof (induction n rule: itoa_nat.induct)
  case (1 n)
  show ?case
  proof (cases "n < 10")
    case True
    then show ?thesis by (subst itoa_nat.simps) (simp add: dec_val_def)
  next
    case False
    then have "dec_val (itoa_nat n) = int (n div 10) * 10 + int (n mod 10)"
      by (subst itoa_nat.simps) (simp add: dec_val_snoc 1)
    also have "\<dots> = int n"
      by (metis div_mult_mod_eq of_nat_add of_nat_mult of_nat_numeral)
    finally show ?thesis .
  qed
qed

section \<open>Searching and slicing\<close>

text \<open>\<open>bytes.IndexByte\<close>: the first position of a byte, or -1.\<close>

definition IndexByte :: "bytes \<Rightarrow> byte \<Rightarrow> int" where
  "IndexByte bs c = (if c \<in> set bs then int (length (takeWhile (\<lambda>x. x \<noteq> c) bs)) else -1)"

lemma IndexByte_none: "c \<notin> set bs \<Longrightarrow> IndexByte bs c = -1"
  by (simp add: IndexByte_def)

lemma IndexByte_append: "c \<notin> set xs \<Longrightarrow> IndexByte (xs @ c # ys) c = int (length xs)"
  by (simp add: IndexByte_def takeWhile_append takeWhile_eq_all_conv[THEN iffD2])

lemma IndexByte_split:
  assumes "c \<in> set bs"
  obtains xs ys where "bs = xs @ c # ys" "c \<notin> set xs" "IndexByte bs c = int (length xs)"
proof -
  from assms obtain xs ys where *: "bs = xs @ c # ys" "c \<notin> set xs"
    by (meson split_list_first)
  then show ?thesis using that IndexByte_append by blast
qed

text \<open>A Go slice expression \<open>s[i:j]\<close>, which panics unless \<open>0 \<le> i \<le> j \<le> len s\<close>.\<close>

definition slice :: "'a list \<Rightarrow> int \<Rightarrow> int \<Rightarrow> 'a list go" where
  "slice s i j = (if 0 \<le> i \<and> i \<le> j \<and> j \<le> int (length s)
     then Some (take (nat (j - i)) (drop (nat i) s)) else None)"

text \<open>A Go index expression \<open>s[i]\<close>.\<close>

definition idx :: "'a list \<Rightarrow> int \<Rightarrow> 'a go" where
  "idx s i = (if 0 \<le> i \<and> i < int (length s) then Some (s ! nat i) else None)"

lemma slice_nat [simp]:
  "i \<le> j \<Longrightarrow> j \<le> length s \<Longrightarrow> slice s (int i) (int j) = Some (take (j - i) (drop i s))"
  by (simp add: slice_def nat_diff_distrib)

lemma idx_nat [simp]: "i < length s \<Longrightarrow> idx s (int i) = Some (s ! i)"
  by (simp add: idx_def)

text \<open>
  \<open>copy(dst[i:], src)\<close>: overwrites as many elements from position \<open>i\<close> on as fit, and
  panics when \<open>i\<close> is out of range.
\<close>

definition copy_at :: "'a list \<Rightarrow> int \<Rightarrow> 'a list \<Rightarrow> 'a list go" where
  "copy_at dst i src = (if 0 \<le> i \<and> i \<le> int (length dst)
     then Some (take (nat i) dst @ take (length dst - nat i) src @ drop (nat i + length src) dst)
     else None)"

lemma copy_at_fits:
  "length src \<le> length ys \<Longrightarrow>
   copy_at (xs @ ys) (int (length xs)) src = Some (xs @ src @ drop (length src) ys)"
  by (simp add: copy_at_def)

lemma copy_at_start:
  "length src \<le> length ys \<Longrightarrow> copy_at ys 0 src = Some (src @ drop (length src) ys)"
  by (simp add: copy_at_def)

lemma length_copy_at: "copy_at dst i src = Some dst' \<Longrightarrow> length dst' = length dst"
  by (auto simp: copy_at_def split: if_splits)

text \<open>Go's remainder: it truncates towards zero and panics on a zero divisor.\<close>

definition go_rem :: "int \<Rightarrow> int \<Rightarrow> int go" where
  "go_rem a b = (if b = 0 then None else Some (sgn a * (\<bar>a\<bar> mod \<bar>b\<bar>)))"

lemma go_rem_nonneg: "0 \<le> a \<Longrightarrow> 0 < b \<Longrightarrow> go_rem a b = Some (a mod b)"
  by (cases "a = 0") (auto simp: go_rem_def)

lemma go_rem_once:
  assumes "0 \<le> a" "0 < b" "a < 2 * b"
  shows "go_rem a b = Some (if a < b then a else a - b)"
proof (cases "a < b")
  case False
  have "a mod b = (a - b) mod b" by simp
  also have "\<dots> = a - b" using False assms by (intro mod_pos_pos_trivial) auto
  finally show ?thesis using False assms by (simp add: go_rem_nonneg)
qed (use assms in \<open>simp add: go_rem_nonneg\<close>)

text \<open>
  A fresh slice of \<open>n\<close> bytes from the byte-slice pool: recycled memory, whose contents are
  arbitrary (\<open>dirty\<close>), padded with zeroes where the allocation is new.
\<close>

definition alloc :: "bytes \<Rightarrow> int \<Rightarrow> bytes" where
  "alloc dirty n = take (nat n) (dirty @ replicate (nat n) (CHR 0x00))"

lemma length_alloc [simp]: "length (alloc dirty n) = nat n"
  by (simp add: alloc_def)

end
