(* ===== verification/Go_Strings.thy ===== *)
theory Go_Strings
  imports Prelude
begin

text \<open>
  The functions of the Go packages \<open>strings\<close> and \<open>strconv\<close> that the proxy uses to read addresses,
  slot ranges and the answers of \<open>CLUSTER NODES\<close> and \<open>INFO\<close>, on byte strings.

  \<open>ParseUint\<close>, \<open>ParseInt\<close> and \<open>Atoi\<close> return a value beside the error, as in Go: callers that ignore
  the error get 0 after a syntax error and the nearest representable number after an overflow.
  The lemmas give the round trips with the printing functions.
\<close>

section \<open>Definitions\<close>

text \<open>\<open>strings.HasPrefix\<close>\<close>

abbreviation HasPrefix :: "bytes \<Rightarrow> bytes \<Rightarrow> bool" where
  "HasPrefix s p \<equiv> take (length p) s = p"

text \<open>\<open>strings.Split\<close> for a non-empty separator; \<open>acc\<close> is the piece read so far.\<close>

function split_acc :: "bytes \<Rightarrow> bytes \<Rightarrow> bytes \<Rightarrow> bytes list" where
  "split_acc sep acc [] = [acc]"
| "split_acc sep acc (c # s) =
     (if sep \<noteq> [] \<and> HasPrefix (c # s) sep then acc # split_acc sep [] (drop (length sep) (c # s))
      else split_acc sep (acc @ [c]) s)"
  by pat_completeness auto
termination by (relation "measure (\<lambda>(sep, acc, s). length s)") (auto simp: Suc_le_eq)

definition Split :: "bytes \<Rightarrow> bytes \<Rightarrow> bytes list" where
  "Split s sep = split_acc sep [] s"

text \<open>\<open>strings.Contains\<close>\<close>

fun Contains :: "bytes \<Rightarrow> bytes \<Rightarrow> bool" where
  "Contains [] sub \<longleftrightarrow> sub = []"
| "Contains (c # s) sub \<longleftrightarrow> HasPrefix (c # s) sub \<or> Contains s sub"

text \<open>\<open>strings.Join\<close>\<close>

fun Join :: "bytes list \<Rightarrow> bytes \<Rightarrow> bytes" where
  "Join [] sep = []"
| "Join [x] sep = x"
| "Join (x # xs) sep = x @ sep @ Join xs sep"

definition TrimPrefix :: "bytes \<Rightarrow> bytes \<Rightarrow> bytes" where
  "TrimPrefix s p = (if HasPrefix s p then drop (length p) s else s)"

text \<open>\<open>strings.TrimSpace\<close> on ASCII text.\<close>

definition is_space :: "byte \<Rightarrow> bool" where
  "is_space c \<longleftrightarrow> c \<in> {CHR 0x09, CHR 0x0A, CHR 0x0B, CHR 0x0C, CHR 0x0D, CHR '' ''}"

definition TrimSpace :: "bytes \<Rightarrow> bytes" where
  "TrimSpace s = rev (dropWhile is_space (rev (dropWhile is_space s)))"

text \<open>\<open>strings.ToLower\<close> on ASCII text.\<close>

definition ascii_lower :: "byte \<Rightarrow> byte" where
  "ascii_lower c = (if (65::nat) \<le> of_char c \<and> of_char c \<le> (90::nat) then char_of (of_char c + 32 :: nat) else c)"

definition ToLower :: "bytes \<Rightarrow> bytes" where
  "ToLower s = map ascii_lower s"

text \<open>
  \<open>strconv.ParseUint(s, base, 64)\<close> for base 10 and for base 0, which takes the base from the prefix
  and allows underscores between digits. \<open>None\<close> is a syntax error.
\<close>

definition digit_of :: "byte \<Rightarrow> nat option" where
  "digit_of c =
     (let k = (of_char c :: nat); l = (of_char (ascii_lower c) :: nat) in
      if 48 \<le> k \<and> k \<le> 57 then Some (k - 48)
      else if 97 \<le> l \<and> l \<le> 122 then Some (l - 97 + 10)
      else None)"

datatype num_err = SyntaxError | RangeError

fun uint_digits :: "nat \<Rightarrow> nat \<Rightarrow> bool \<Rightarrow> nat \<Rightarrow> bytes \<Rightarrow> num_err + nat" where
  "uint_digits maxv base base0 n [] = Inr n"
| "uint_digits maxv base base0 n (c # cs) =
     (if c = CHR ''_'' \<and> base0 then uint_digits maxv base base0 n cs
      else (case digit_of c of
          None \<Rightarrow> Inl SyntaxError
        | Some d \<Rightarrow>
            if d \<ge> base then Inl SyntaxError
            else if n * base + d > maxv then Inl RangeError
            else uint_digits maxv base base0 (n * base + d) cs))"

text \<open>
  \<open>underscoreOK\<close>: underscores must separate digits, plus one may follow a base prefix. \<open>i\<close> is the
  class of the previous character: \<open>^\<close> at the start, \<open>0\<close> a digit, \<open>_\<close> an underscore, \<open>!\<close> none of them.
\<close>

fun underscore_loop :: "bool \<Rightarrow> byte \<Rightarrow> bytes \<Rightarrow> bool" where
  "underscore_loop hex i [] \<longleftrightarrow> i \<noteq> CHR ''_''"
| "underscore_loop hex i (c # cs) =
     (if is_digit c \<or> hex \<and> (case digit_of c of Some d \<Rightarrow> d < 16 | None \<Rightarrow> False) then underscore_loop hex (CHR ''0'') cs
      else if c = CHR ''_'' then (if i \<noteq> CHR ''0'' then False else underscore_loop hex (CHR ''_'') cs)
      else (if i = CHR ''_'' then False else underscore_loop hex (CHR ''!'') cs))"

definition base_prefix :: "bytes \<Rightarrow> byte option" where
  "base_prefix s =
     (case s of
        z # p # _ \<Rightarrow> if z = CHR ''0'' \<and> ascii_lower p \<in> {CHR ''b'', CHR ''o'', CHR ''x''} then Some (ascii_lower p) else None
      | _ \<Rightarrow> None)"

definition underscoreOK :: "bytes \<Rightarrow> bool" where
  "underscoreOK s =
     (case base_prefix s of
        Some p \<Rightarrow> underscore_loop (p = CHR ''x'') (CHR ''0'') (drop 2 s)
      | None \<Rightarrow> underscore_loop False (CHR ''^'') s)"

definition ParseUint :: "bytes \<Rightarrow> bool \<Rightarrow> nat \<Rightarrow> nat \<times> num_err option" where
  "ParseUint s0 base0 bits =
     (if s0 = [] then (0, Some SyntaxError)
      else
        (let maxv = 2 ^ bits - 1;
             (base, s) =
               (if \<not> base0 \<or> hd s0 \<noteq> CHR ''0'' then (10, s0)
                else if length s0 \<ge> 3 \<and> base_prefix s0 \<noteq> None then
                  (case the (base_prefix s0) of p \<Rightarrow> if p = CHR ''b'' then 2 else if p = CHR ''o'' then 8 else 16, drop 2 s0)
                else (8, drop 1 s0))
         in case uint_digits maxv base base0 0 s of
              Inl SyntaxError \<Rightarrow> (0, Some SyntaxError)
            | Inl RangeError \<Rightarrow> (maxv, Some RangeError)
            | Inr n \<Rightarrow> if CHR ''_'' \<in> set s \<and> base0 \<and> \<not> underscoreOK s0 then (0, Some SyntaxError) else (n, None)))"

text \<open>\<open>strconv.ParseInt(s, 10, bits)\<close>; \<open>Atoi\<close> is the case of 64 bits.\<close>

definition ParseInt :: "bytes \<Rightarrow> nat \<Rightarrow> int \<times> num_err option" where
  "ParseInt s0 bits =
     (if s0 = [] then (0, Some SyntaxError)
      else
        (let neg = (hd s0 = CHR ''-'');
             s = (if hd s0 = CHR ''+'' \<or> hd s0 = CHR ''-'' then drop 1 s0 else s0);
             cutoff = 2 ^ (bits - 1)
         in case ParseUint s False bits of
              (un, e) \<Rightarrow>
                if e = Some SyntaxError then (0, Some SyntaxError)
                else if \<not> neg \<and> int un \<ge> cutoff then (cutoff - 1, Some RangeError)
                else if neg \<and> int un > cutoff then (- cutoff, Some RangeError)
                else (if neg then - int un else int un, None)))"

definition Atoi :: "bytes \<Rightarrow> int \<times> num_err option" where
  "Atoi s = ParseInt s 64"

section \<open>Splitting and joining\<close>

lemma split_acc_piece:
  assumes "c \<notin> set x"
  shows "split_acc [c] acc (x @ s) = split_acc [c] (acc @ x) s"
  using assms by (induction x arbitrary: acc) auto

lemma split_acc_nosep: "c \<notin> set x \<Longrightarrow> split_acc [c] acc x = [acc @ x]"
  using split_acc_piece [of c x acc "[]"] by simp

lemma Split_nosep: "c \<notin> set x \<Longrightarrow> Split x [c] = [x]"
  by (simp add: Split_def split_acc_nosep)

lemma Split_Join:
  "xs \<noteq> [] \<Longrightarrow> \<forall>x \<in> set xs. c \<notin> set x \<Longrightarrow> Split (Join xs [c]) [c] = xs"
proof (induction xs rule: induct_list012)
  case (2 x)
  then show ?case by (simp add: Split_nosep)
next
  case (3 x y zs)
  have "Split (Join (x # y # zs) [c]) [c] = x # Split (Join (y # zs) [c]) [c]"
    using 3 by (simp add: Split_def split_acc_piece)
  with 3 show ?case by simp
qed simp

lemma Split_append:
  "c \<notin> set x \<Longrightarrow> Split (x @ c # s) [c] = x # Split s [c]"
  by (simp add: Split_def split_acc_piece)

text \<open>A piece contains no separator, and joining the pieces gives the string back.\<close>

lemma split_acc_nonempty [simp]: "split_acc sep acc s \<noteq> []"
  by (induction sep acc s rule: split_acc.induct) auto

lemma Join_Cons: "xs \<noteq> [] \<Longrightarrow> Join (x # xs) sep = x @ sep @ Join xs sep"
  by (cases xs) auto

lemma Join_split_acc: "Join (split_acc sep acc s) sep = acc @ s"
proof (induction sep acc s rule: split_acc.induct)
  case (2 sep acc c s)
  show ?case
  proof (cases "sep \<noteq> [] \<and> HasPrefix (c # s) sep")
    case True
    have "Join (split_acc sep acc (c # s)) sep = acc @ sep @ drop (length sep) (c # s)"
      using True 2 by (simp add: Join_Cons)
    also have "sep @ drop (length sep) (c # s) = c # s"
      using True append_take_drop_id [of "length sep" "c # s"] by metis
    finally show ?thesis .
  qed (use 2 in auto)
qed simp

lemma Join_Split: "Join (Split s sep) sep = s"
  by (simp add: Split_def Join_split_acc)

lemma Contains_prefix: "HasPrefix s sub \<Longrightarrow> Contains s sub"
  by (cases s) auto

lemma Contains_append: "Contains (x @ sub @ y) sub"
  by (induction x) (auto intro: Contains_prefix)

section \<open>Numbers\<close>

lemma digit_of_char: "n < 10 \<Longrightarrow> digit_of (digit_char n) = Some n"
  by (simp add: digit_of_def Let_def of_char_digit_char)

lemma digit_char_no_underscore: "n < 10 \<Longrightarrow> digit_char n \<noteq> CHR ''_''"
  using of_char_digit_char [of n] by auto

lemma uint_digits_append:
  "uint_digits maxv base base0 n (xs @ ys) =
     (case uint_digits maxv base base0 n xs of Inl e \<Rightarrow> Inl e | Inr k \<Rightarrow> uint_digits maxv base base0 k ys)"
  by (induction xs arbitrary: n) (auto split: option.splits)

lemma uint_digits_itoa:
  "n \<le> maxv \<Longrightarrow> uint_digits maxv 10 base0 0 (itoa_nat n) = Inr n"
proof (induction n rule: itoa_nat.induct)
  case (1 n)
  show ?case
  proof (cases "n < 10")
    case True
    then show ?thesis
      using 1 by (subst itoa_nat.simps) (simp add: digit_of_char digit_char_no_underscore)
  next
    case False
    then have "uint_digits maxv 10 base0 0 (itoa_nat (n div 10)) = Inr (n div 10)" using 1 by auto
    with False 1 show ?thesis
      by (subst itoa_nat.simps) (simp add: uint_digits_append digit_of_char digit_char_no_underscore)
  qed
qed

lemma itoa_nat_hd: "is_digit (hd (itoa_nat n))"
  using itoa_nat_digits [of n] hd_in_set [of "itoa_nat n"] by auto

lemma ParseUint_itoa: "n < 2 ^ bits \<Longrightarrow> ParseUint (itoa_nat n) False bits = (n, None)"
  by (simp add: ParseUint_def uint_digits_itoa)

lemma ParseInt_itoa:
  assumes "int n < 2 ^ (bits - 1)"
  shows "ParseInt (itoa_nat n) bits = (int n, None)"
proof -
  have "hd (itoa_nat n) \<noteq> CHR ''+'' \<and> hd (itoa_nat n) \<noteq> CHR ''-''"
    using itoa_nat_hd [of n] by (auto simp: is_digit_def)
  moreover have "n < 2 ^ bits"
  proof -
    have "n < 2 ^ (bits - 1)" using assms by (metis of_nat_less_iff of_nat_numeral of_nat_power)
    also have "(2::nat) ^ (bits - 1) \<le> 2 ^ bits" by (intro power_increasing) auto
    finally show ?thesis .
  qed
  ultimately show ?thesis using assms by (simp add: ParseInt_def ParseUint_itoa Let_def)
qed

lemma Atoi_itoa: "int n < 2 ^ 63 \<Longrightarrow> Atoi (itoa_nat n) = (int n, None)"
  by (simp add: Atoi_def ParseInt_itoa)

end
