(* ===== verification/Codec_Buffer.thy ===== *)
theory Codec_Buffer
  imports Prelude
begin

text \<open>
  The decoding cursor of \<^verbatim>\<open>src/core/codec/buff.go\<close> and the error values and replies of
  \<^verbatim>\<open>src/core/codec/codec.go\<close> and \<^verbatim>\<open>src/core/pkg/errors/errors.go\<close>.

  A \<open>Buffer\<close> is a byte slice with a read position. Every method is one definition that
  returns the buffer it leaves behind, because the source moves the position even on some
  error paths. The lemmas describe the methods on a buffer seen as a \<open>cursor\<close>: the bytes
  already read and the bytes still unread. No method panics on a well-formed buffer unless
  \<open>ReadN\<close> or \<open>PeekN\<close> is called with a negative length.
\<close>

section \<open>Errors and fixed replies\<close>

datatype err =
    ErrCRNotFound | ErrLFNotFound | BadLine | ShortLine | EmptyLine | Continue | MovedOrAsk
  | AddrNotFound | UnKnownProxyPool | UnKnownProxyPoolConn | ErrInvalidResp
  | ErrInvalidInitializing
  | MalformedLength \<comment> \<open>the anonymous error of \<open>parseLen\<close>\<close>
  | ErrUnKnown \<comment> \<open>the reply \<open>codec.ErrUnKnown\<close> used as an error value\<close>
  | ErrIncompletePacket | ErrEngineShutdown

definition OK :: bytes where "OK = ''+OK'' @ CRLF"
definition PONG :: bytes where "PONG = ''+PONG'' @ CRLF"

definition ErrUnKnown_reply :: bytes where
  "ErrUnKnown_reply = ''-ERR unknown error'' @ CRLF"
definition ErrAddrNotFoundError :: bytes where
  "ErrAddrNotFoundError = ''-ERR addr not found'' @ CRLF"
definition ErrUnKnownCommand :: bytes where
  "ErrUnKnownCommand = ''-ERR unknown command'' @ CRLF"
definition ErrUnKnownSlot :: bytes where
  "ErrUnKnownSlot = ''-ERR unknown slot'' @ CRLF"
definition ErrUnKnownProxyPoolError :: bytes where
  "ErrUnKnownProxyPoolError = ''-ERR unknown proxy pool'' @ CRLF"
definition ErrUnKnownProxyPoolConnError :: bytes where
  "ErrUnKnownProxyPoolConnError = ''-ERR unknown proxy pool conn'' @ CRLF"
definition ErrUnKnownMget :: bytes where
  "ErrUnKnownMget = ''-ERR unknown mget error'' @ CRLF"
definition ErrMsgReqTooLarge :: bytes where
  "ErrMsgReqTooLarge = ''-ERR req msg length too large'' @ CRLF"
definition ErrMsgRspTooLarge :: bytes where
  "ErrMsgRspTooLarge = ''-ERR rsp msg length too large'' @ CRLF"
definition ErrMsgReqWrongArgumentsNumber :: bytes where
  "ErrMsgReqWrongArgumentsNumber = ''-ERR wrong number of arguments'' @ CRLF"
definition ErrMsgRequestTimeout :: bytes where
  "ErrMsgRequestTimeout = ''-ERR proxy request timeout'' @ CRLF"
definition ErrAuthInvalidPassword :: bytes where
  "ErrAuthInvalidPassword = ''-ERR invalid password'' @ CRLF"
definition ErrAuthNeedNtPassword :: bytes where
  "ErrAuthNeedNtPassword = ''-ERR Client sent AUTH, but no password is set'' @ CRLF"

text \<open>The methods of \<open>codec.Error\<close> and \<open>codec.Status\<close>: both are strings.\<close>

definition Error_Nil :: "bytes \<Rightarrow> bool" where
  "Error_Nil e \<longleftrightarrow> length e < 1"

definition Error_NotNil :: "bytes \<Rightarrow> bool" where
  "Error_NotNil e \<longleftrightarrow> length e > 0"

definition ShortString :: "bytes \<Rightarrow> bytes go" where
  "ShortString s = slice s 0 (int (length s) - 2)"

section \<open>The buffer\<close>

record Buffer =
  b_buf :: bytes
  b_r :: int

definition NewBuffer :: "bytes \<Rightarrow> Buffer" where
  "NewBuffer bs = (if length bs = 0 then \<lparr>b_buf = [], b_r = 0\<rparr> else \<lparr>b_buf = bs, b_r = 0\<rparr>)"

definition Empty :: "Buffer \<Rightarrow> bool" where
  "Empty b \<longleftrightarrow> length (b_buf b) < 1"

definition TotalSize :: "Buffer \<Rightarrow> int" where
  "TotalSize b = int (length (b_buf b))"

definition ReadSize :: "Buffer \<Rightarrow> int" where
  "ReadSize b = b_r b"

definition ReadBuf :: "Buffer \<Rightarrow> bytes go" where
  "ReadBuf b = slice (b_buf b) 0 (b_r b)"

definition leftSize :: "Buffer \<Rightarrow> int" where
  "leftSize b = int (length (b_buf b)) - b_r b"

definition leftBuf :: "Buffer \<Rightarrow> bytes go" where
  "leftBuf b = slice (b_buf b) (b_r b) (int (length (b_buf b)))"

definition ReadN :: "Buffer \<Rightarrow> int \<Rightarrow> (Buffer \<times> (err + bytes)) go" where
  "ReadN b n =
     (if leftSize b < 1 then Some (b, Inl EmptyLine)
      else if n > leftSize b then Some (b, Inl ShortLine)
      else do {
        s \<leftarrow> slice (b_buf b) (b_r b) (b_r b + n);
        Some (b\<lparr>b_r := b_r b + n\<rparr>, Inr s)
      })"

definition PeekN :: "Buffer \<Rightarrow> int \<Rightarrow> (err + bytes) go" where
  "PeekN b n =
     (if leftSize b < 1 then Some (Inl EmptyLine)
      else if n > leftSize b then Some (Inl ShortLine)
      else do {
        s \<leftarrow> slice (b_buf b) (b_r b) (b_r b + n);
        Some (Inr s)
      })"

definition ReadLine :: "Buffer \<Rightarrow> (Buffer \<times> (err + bytes)) go" where
  "ReadLine b =
     (if leftSize b < 1 then Some (b, Inl EmptyLine)
      else do {
        lb \<leftarrow> leftBuf b;
        let i = IndexByte lb LF;
        (if i = -1 then Some (b, Inl ErrLFNotFound)
         else do {
           (b', res) \<leftarrow> ReadN b (i + 1);
           (case res of
              Inl e \<Rightarrow> Some (b', Inl e)
            | Inr line \<Rightarrow>
                (if i < 2 then Some (b', Inl EmptyLine)
                 else do {
                   c \<leftarrow> idx line (i - 1);
                   (if c \<noteq> CR then Some (b', Inl ErrInvalidResp)
                    else do {
                      l \<leftarrow> slice line 0 (int (length line) - 2);
                      Some (b', Inr l)
                    })
                 }))
         })
      })"

definition PeekAll :: "Buffer \<Rightarrow> bytes" where
  "PeekAll b = b_buf b"

section \<open>Well-formed buffers as cursors\<close>

text \<open>\<open>cursor pre rest\<close>: \<open>pre\<close> has been read, \<open>rest\<close> is unread.\<close>

definition cursor :: "bytes \<Rightarrow> bytes \<Rightarrow> Buffer" where
  "cursor pre rest = \<lparr>b_buf = pre @ rest, b_r = int (length pre)\<rparr>"

definition wf_buffer :: "Buffer \<Rightarrow> bool" where
  "wf_buffer b \<longleftrightarrow> 0 \<le> b_r b \<and> b_r b \<le> int (length (b_buf b))"

lemma wf_cursor [simp, intro]: "wf_buffer (cursor pre rest)"
  by (simp add: wf_buffer_def cursor_def)

lemma wf_buffer_cursor:
  assumes "wf_buffer b"
  obtains pre rest where "b = cursor pre rest"
proof
  show "b = cursor (take (nat (b_r b)) (b_buf b)) (drop (nat (b_r b)) (b_buf b))"
    using assms by (cases b) (auto simp: cursor_def wf_buffer_def)
qed

lemma NewBuffer_cursor: "NewBuffer bs = cursor [] bs"
  by (simp add: NewBuffer_def cursor_def)

lemma cursor_inject: "cursor p q = cursor p' q' \<longleftrightarrow> p = p' \<and> q = q'"
  by (auto simp: cursor_def append_eq_append_conv)

lemma buf_cursor [simp]: "b_buf (cursor pre rest) = pre @ rest"
  and r_cursor [simp]: "b_r (cursor pre rest) = int (length pre)"
  and leftSize_cursor [simp]: "leftSize (cursor pre rest) = int (length rest)"
  and TotalSize_cursor [simp]: "TotalSize (cursor pre rest) = int (length pre + length rest)"
  and Empty_cursor [simp]: "Empty (cursor pre rest) \<longleftrightarrow> pre = [] \<and> rest = []"
  and PeekAll_cursor [simp]: "PeekAll (cursor pre rest) = pre @ rest"
  and ReadSize_cursor [simp]: "ReadSize (cursor pre rest) = int (length pre)"
  by (auto simp: cursor_def leftSize_def TotalSize_def Empty_def PeekAll_def ReadSize_def Suc_le_eq)

lemma slice_pre [simp]: "slice (pre @ rest) 0 (int (length pre)) = Some pre"
  by (simp add: slice_def)

lemma ReadBuf_cursor [simp]: "ReadBuf (cursor pre rest) = Some pre"
  by (simp add: ReadBuf_def)

lemma leftBuf_cursor [simp]: "leftBuf (cursor pre rest) = Some rest"
  by (simp add: leftBuf_def slice_def)

lemma cursor_shift:
  "n \<le> length rest \<Longrightarrow>
   (cursor pre rest)\<lparr>b_r := int (length pre) + int n\<rparr> = cursor (pre @ take n rest) (drop n rest)"
  by (simp add: cursor_def)

text \<open>What \<open>ReadN\<close> and \<open>PeekN\<close> do on a cursor.\<close>

lemma ReadN_nil: "ReadN (cursor pre []) n = Some (cursor pre [], Inl EmptyLine)"
  by (simp add: ReadN_def)

lemma ReadN_short:
  "rest \<noteq> [] \<Longrightarrow> length rest < n \<Longrightarrow> ReadN (cursor pre rest) (int n) = Some (cursor pre rest, Inl ShortLine)"
  by (cases rest) (auto simp: ReadN_def)

lemma slice_mid:
  "n \<le> length rest \<Longrightarrow> slice (pre @ rest) (int (length pre)) (int (length pre) + int n) = Some (take n rest)"
  by (simp add: slice_def)

lemma ReadN_take:
  assumes "rest \<noteq> []" "n \<le> length rest"
  shows "ReadN (cursor pre rest) (int n) = Some (cursor (pre @ take n rest) (drop n rest), Inr (take n rest))"
proof -
  have "\<not> int (length rest) < 1" using assms(1) by (cases rest) auto
  with assms(2) show ?thesis by (simp add: ReadN_def slice_mid cursor_shift)
qed

lemma ReadN_append:
  "xs @ ys \<noteq> [] \<Longrightarrow> ReadN (cursor pre (xs @ ys)) (int (length xs)) = Some (cursor (pre @ xs) ys, Inr xs)"
  by (subst ReadN_take) auto

lemma PeekN_take:
  assumes "rest \<noteq> []" "n \<le> length rest"
  shows "PeekN (cursor pre rest) (int n) = Some (Inr (take n rest))"
proof -
  have "\<not> int (length rest) < 1" using assms(1) by (cases rest) auto
  with assms(2) show ?thesis by (simp add: PeekN_def slice_mid)
qed

lemma ReadN_negative:
  "rest \<noteq> [] \<Longrightarrow> n < 0 \<Longrightarrow> ReadN (cursor pre rest) n = None"
  by (cases rest) (auto simp: ReadN_def slice_def)

text \<open>What \<open>ReadLine\<close> does on a cursor.\<close>

lemma ReadLine_nil: "ReadLine (cursor pre []) = Some (cursor pre [], Inl EmptyLine)"
  by (simp add: ReadLine_def)

lemma ReadLine_no_LF:
  assumes "rest \<noteq> []" "LF \<notin> set rest"
  shows "ReadLine (cursor pre rest) = Some (cursor pre rest, Inl ErrLFNotFound)"
  using assms by (cases rest) (auto simp: ReadLine_def IndexByte_none)

lemma ReadLine_LF:
  assumes "LF \<notin> set l"
  shows "ReadLine (cursor pre (l @ LF # rest)) =
    Some (cursor (pre @ l @ [LF]) rest,
      if length l < 2 then Inl EmptyLine
      else if last l \<noteq> CR then Inl ErrInvalidResp
      else Inr (butlast l))"
proof -
  let ?line = "l @ [LF]"
  have i: "IndexByte (l @ LF # rest) LF = int (length l)"
    using assms by (rule IndexByte_append)
  have rd: "ReadN (cursor pre (l @ LF # rest)) (int (length l) + 1) =
      Some (cursor (pre @ ?line) rest, Inr ?line)"
    using ReadN_append [of ?line rest pre] by (simp add: ac_simps)
  show ?thesis
  proof (cases "length l < 2")
    case True
    then show ?thesis by (simp add: ReadLine_def i rd)
  next
    case False
    then obtain l' c where l: "l = l' @ [c]" by (cases l rule: rev_cases) auto
    have c: "idx ?line (int (length l) - 1) = Some c"
      by (simp add: l idx_def nth_append)
    have s: "slice ?line 0 (int (length ?line) - 2) = Some l'"
      by (simp add: l slice_def)
    from False show ?thesis
      by (simp add: ReadLine_def i rd c s[simplified]) (simp add: l)
  qed
qed

lemma ReadLine_line:
  assumes "LF \<notin> set l" "l \<noteq> []"
  shows "ReadLine (cursor pre (l @ CR # LF # rest)) = Some (cursor (pre @ l @ CRLF) rest, Inr l)"
  using ReadLine_LF [of "l @ [CR]" pre rest] assms by (cases l) auto

text \<open>
  The complete behaviour of \<open>ReadLine\<close>: it always returns on a well-formed buffer, the
  buffer it leaves is well formed over the same bytes, and a line it returns is non-empty,
  free of line feeds and is what the terminator was removed from.
\<close>

lemma ReadLine_cases:
  obtains (nil) "rest = []" "ReadLine (cursor pre rest) = Some (cursor pre rest, Inl EmptyLine)"
  | (noLF) "rest \<noteq> []" "LF \<notin> set rest"
      "ReadLine (cursor pre rest) = Some (cursor pre rest, Inl ErrLFNotFound)"
  | (short) l rest' where "rest = l @ LF # rest'" "LF \<notin> set l" "length l < 2"
      "ReadLine (cursor pre rest) = Some (cursor (pre @ l @ [LF]) rest', Inl EmptyLine)"
  | (noCR) l rest' where "rest = l @ LF # rest'" "LF \<notin> set l" "2 \<le> length l" "last l \<noteq> CR"
      "ReadLine (cursor pre rest) = Some (cursor (pre @ l @ [LF]) rest', Inl ErrInvalidResp)"
  | (line) l rest' where "rest = l @ CRLF @ rest'" "LF \<notin> set l" "l \<noteq> []"
      "ReadLine (cursor pre rest) = Some (cursor (pre @ l @ CRLF) rest', Inr l)"
proof (cases "LF \<in> set rest")
  case False
  then show ?thesis
    using nil noLF ReadLine_nil ReadLine_no_LF by metis
next
  case True
  then obtain l rest' where s: "rest = l @ LF # rest'" "LF \<notin> set l"
    by (meson split_list_first)
  note rl = ReadLine_LF [OF s(2), of pre rest']
  consider "length l < 2" | "2 \<le> length l" "last l \<noteq> CR" | "2 \<le> length l" "last l = CR"
    by linarith
  then show ?thesis
  proof cases
    case 1 with s rl show ?thesis by (intro short) auto
  next
    case 2 with s rl show ?thesis by (intro noCR) auto
  next
    case 3
    then obtain l' where l': "l = l' @ [CR]" "l' \<noteq> []"
      by (cases l rule: rev_cases; cases "butlast l") auto
    with s rl show ?thesis by (intro line [of l' rest']) auto
  qed
qed

end
