(* ===== verification/Resp.thy ===== *)
theory Resp
  imports Codec_Buffer "HOL-Library.Sublist"
begin

text \<open>
  RESP lengths and bulk strings: \<open>parseLen\<close> of \<^verbatim>\<open>src/core/codec.go\<close> and \<open>parseLine\<close> of
  \<^verbatim>\<open>src/core/codec_c.go\<close>, the two routines every request is read with, and the encodings they are
  the inverse of.

  The lemmas give the complete behaviour of \<open>parseLine\<close>: on an encoded bulk string it returns the
  string and stops right behind it, on a proper prefix of one it asks for more bytes and never
  reports an invalid packet, and on arbitrary bytes it returns without a panic, having moved over
  a part of them.
\<close>

section \<open>Reading with early returns\<close>

text \<open>
  The shape \<open>x, err := f(buf); if err != nil { return nil, err }; ...\<close>: the rest of the body runs on the
  buffer that \<open>f\<close> left, unless \<open>f\<close> failed.
\<close>

definition and_then ::
  "(Buffer \<times> (err + 'a)) go \<Rightarrow> (Buffer \<Rightarrow> 'a \<Rightarrow> (Buffer \<times> (err + 'b)) go) \<Rightarrow> (Buffer \<times> (err + 'b)) go" where
  "and_then m f = do {
     (b, res) \<leftarrow> m;
     (case res of Inl e \<Rightarrow> Some (b, Inl e) | Inr x \<Rightarrow> f b x)
   }"

lemma and_then_simps [simp]:
  "and_then (Some (b, Inl e)) f = Some (b, Inl e)"
  "and_then (Some (b, Inr x)) f = f b x"
  "and_then None f = None"
  by (simp_all add: and_then_def)

section \<open>Lengths\<close>

fun parseLen_loop :: "int \<Rightarrow> bytes \<Rightarrow> int \<times> err option" where
  "parseLen_loop n [] = (n, None)"
| "parseLen_loop n (b # p) =
     (let n = wrap64 (n * 10) in
      if \<not> is_digit b then (-1, Some ErrInvalidResp)
      else parseLen_loop (wrap64 (n + digit_val b)) p)"

definition parseLen :: "bytes \<Rightarrow> int \<times> err option" where
  "parseLen p =
     (if length p < 1 then (-1, Some MalformedLength)
      else if p ! 0 = CHR ''-'' \<and> length p = 2 \<and> p ! 1 = CHR ''1'' then (-1, None)
      else parseLen_loop 0 p)"

lemma parseLen_loop_digits:
  "\<forall>b \<in> set p. is_digit b \<Longrightarrow>
   parseLen_loop (wrap64 n) p = (wrap64 (foldl (\<lambda>n b. n * 10 + digit_val b) n p), None)"
proof (induction p arbitrary: n)
  case (Cons b p)
  have "wrap64 (wrap64 (wrap64 n * 10) + digit_val b) = wrap64 (n * 10 + digit_val b)"
    by (simp add: wrap64_add_left wrap64_mult_left)
  then have "parseLen_loop (wrap64 n) (b # p) = parseLen_loop (wrap64 (n * 10 + digit_val b)) p"
    using Cons.prems by (simp add: Let_def)
  also have "\<dots> = (wrap64 (foldl (\<lambda>n b. n * 10 + digit_val b) n (b # p)), None)"
    using Cons.prems by (simp only: Cons.IH list.set foldl.simps) (simp add: Cons.IH)
  finally show ?case .
qed simp

lemma parseLen_digits:
  assumes "p \<noteq> []" "\<forall>b \<in> set p. is_digit b"
  shows "parseLen p = (wrap64 (dec_val p), None)"
proof -
  obtain b p' where p: "p = b # p'" using assms(1) by (cases p) auto
  with assms(2) have "b \<noteq> CHR ''-''" using is_digit_not_special by auto
  moreover have "parseLen_loop 0 p = (wrap64 (dec_val p), None)"
    using parseLen_loop_digits [OF assms(2), of 0] by (simp add: dec_val_def wrap64_id)
  ultimately show ?thesis by (simp add: parseLen_def p)
qed

lemma parseLen_itoa: "int n < 2 ^ 63 \<Longrightarrow> parseLen (itoa_nat n) = (int n, None)"
  by (simp add: parseLen_digits itoa_nat_digits wrap64_id)

lemma parseLen_minus_one: "parseLen ''-1'' = (-1, None)"
  by (simp add: parseLen_def)

lemma parseLen_loop_error: "snd (parseLen_loop n p) = None \<or> parseLen_loop n p = (-1, Some ErrInvalidResp)"
  by (induction n p rule: parseLen_loop.induct) (auto simp: Let_def)

lemma parseLen_error: "snd (parseLen p) \<noteq> None \<Longrightarrow> fst (parseLen p) = -1"
  using parseLen_loop_error [of 0 p] by (auto simp: parseLen_def split: if_splits)

section \<open>Bulk strings\<close>

definition parseLine :: "Buffer \<Rightarrow> (Buffer \<times> (err + bytes)) go" where
  "parseLine buf = and_then (ReadLine buf) (\<lambda>buf line. do {
     c \<leftarrow> idx line 0;
     (if c = CHR ''$'' then
        (case parseLen (drop 1 line) of (n, e) \<Rightarrow>
           if n < 0 \<or> e \<noteq> None then Some (buf, case e of Some e \<Rightarrow> Inl e | None \<Rightarrow> Inr [])
           else and_then (ReadN buf n) (\<lambda>buf b. do {
             (buf, crlf) \<leftarrow> ReadN buf 2;
             (case crlf of
                Inl _ \<Rightarrow> Some (buf, Inl ShortLine)
              | Inr crlf \<Rightarrow> do {
                  c0 \<leftarrow> idx crlf 0;
                  c1 \<leftarrow> idx crlf 1;
                  Some (buf, if c0 \<noteq> CR \<or> c1 \<noteq> LF then Inl ErrInvalidResp else Inr b)
                })
           }))
      else Some (buf, Inl ErrInvalidResp))
   })"

definition enc_bulk :: "bytes \<Rightarrow> bytes" where
  "enc_bulk x = CHR ''$'' # itoa_nat (length x) @ CRLF @ x @ CRLF"

definition enc_args :: "bytes list \<Rightarrow> bytes" where
  "enc_args xs = concat (map enc_bulk xs)"

definition enc_header :: "nat \<Rightarrow> bytes" where
  "enc_header n = CHR ''*'' # itoa_nat n @ CRLF"

definition enc_request :: "bytes list \<Rightarrow> bytes" where
  "enc_request xs = enc_header (length xs) @ enc_args xs"

lemma enc_args_simps [simp]:
  "enc_args [] = []"
  "enc_args (x # xs) = enc_bulk x @ enc_args xs"
  "enc_args (xs @ ys) = enc_args xs @ enc_args ys"
  by (simp_all add: enc_args_def)

lemma enc_nonempty [simp]: "enc_bulk x \<noteq> []" "enc_header n \<noteq> []" "enc_request xs \<noteq> []"
  by (simp_all add: enc_bulk_def enc_header_def enc_request_def)

lemma ReadLine_bulk:
  "ReadLine (cursor pre (enc_bulk x @ rest)) =
   Some (cursor (pre @ CHR ''$'' # itoa_nat (length x) @ CRLF) (x @ CRLF @ rest), Inr (CHR ''$'' # itoa_nat (length x)))"
  using ReadLine_line [of "CHR ''$'' # itoa_nat (length x)" pre "x @ CRLF @ rest"] itoa_nat_no_LF
  by (simp add: enc_bulk_def)

lemma parseLine_bulk:
  assumes "int (length x) < 2 ^ 63"
  shows "parseLine (cursor pre (enc_bulk x @ rest)) = Some (cursor (pre @ enc_bulk x) rest, Inr x)"
proof -
  let ?pre = "pre @ CHR ''$'' # itoa_nat (length x) @ CRLF"
  have r1: "ReadN (cursor ?pre (x @ CRLF @ rest)) (int (length x)) =
      Some (cursor (?pre @ x) (CRLF @ rest), Inr x)"
    by (rule ReadN_append) simp
  have r2: "ReadN (cursor (?pre @ x) (CRLF @ rest)) 2 =
      Some (cursor ((?pre @ x) @ CRLF) rest, Inr CRLF)"
    using ReadN_append [of CRLF rest "?pre @ x"] by simp
  show ?thesis
    using r1 r2 by (simp add: parseLine_def ReadLine_bulk parseLen_itoa [OF assms] idx_def)
      (simp add: enc_bulk_def)
qed

text \<open>On arbitrary bytes.\<close>

lemma ReadN_cases:
  assumes "0 \<le> n"
  obtains (nil) "rest = []" "ReadN (cursor pre rest) n = Some (cursor pre rest, Inl EmptyLine)"
  | (short) "rest \<noteq> []" "int (length rest) < n" "ReadN (cursor pre rest) n = Some (cursor pre rest, Inl ShortLine)"
  | (taken) x rest' where "rest = x @ rest'" "n = int (length x)"
      "ReadN (cursor pre rest) n = Some (cursor (pre @ x) rest', Inr x)"
proof -
  obtain k where k: "n = int k" using assms by (metis nonneg_int_cases)
  consider "rest = []" | "rest \<noteq> []" "length rest < k" | "rest \<noteq> []" "k \<le> length rest" by linarith
  then show ?thesis
  proof cases
    case 1 with nil show ?thesis by (simp add: ReadN_nil)
  next
    case 2 with short k show ?thesis by (simp add: ReadN_short)
  next
    case 3
    with k show ?thesis
      by (intro taken [of "take k rest" "drop k rest"]) (simp_all add: ReadN_take)
  qed
qed

lemma parseLine_total:
  obtains pre' rest' res where "parseLine (cursor pre rest) = Some (cursor pre' rest', res)"
    "pre' @ rest' = pre @ rest" "length pre \<le> length pre'"
    "\<forall>x. res = Inr x \<longrightarrow> length pre + 2 + length x \<le> length pre'"
proof (cases rule: ReadLine_cases [of rest pre])
  case nil
  then show ?thesis by (intro that [of pre rest "Inl EmptyLine"]) (simp_all add: parseLine_def)
next
  case noLF
  then show ?thesis by (intro that [of pre rest "Inl ErrLFNotFound"]) (simp_all add: parseLine_def)
next
  case (short l rest')
  then show ?thesis by (intro that [of "pre @ l @ [LF]" rest' "Inl EmptyLine"]) (simp_all add: parseLine_def)
next
  case (noCR l rest')
  then show ?thesis by (intro that [of "pre @ l @ [LF]" rest' "Inl ErrInvalidResp"]) (simp_all add: parseLine_def)
next
  case (line l rest')
  let ?pre = "pre @ l @ CRLF"
  obtain n e where ne: "parseLen (drop 1 l) = (n, e)" by fastforce
  have c: "idx l 0 = Some (hd l)" using line(3) by (simp add: idx_def hd_conv_nth)
  show ?thesis
  proof (cases "hd l = CHR ''$'' \<and> \<not> (n < 0 \<or> e \<noteq> None)")
    case False
    with line ne c have eq: "parseLine (cursor pre rest) = Some (cursor ?pre rest',
        if hd l = CHR ''$'' then (case e of Some e \<Rightarrow> Inl e | None \<Rightarrow> Inr []) else Inl ErrInvalidResp)"
      by (auto simp: parseLine_def)
    show ?thesis by (rule that [OF eq]) (use line in \<open>auto split: if_splits option.splits\<close>)
  next
    case True
    then have "0 \<le> n" by simp
    then show ?thesis
    proof (cases rule: ReadN_cases [of n rest' ?pre])
      case nil
      with line ne c True show ?thesis by (intro that [of ?pre rest' "Inl EmptyLine"]) (auto simp: parseLine_def)
    next
      case short
      with line ne c True show ?thesis by (intro that [of ?pre rest' "Inl ShortLine"]) (auto simp: parseLine_def)
    next
      case (taken x rest'')
      have "(0::int) \<le> 2" by simp
      then show ?thesis
      proof (cases rule: ReadN_cases [of 2 rest'' "?pre @ x"])
        case nil
        with line ne c True taken show ?thesis
          by (intro that [of "?pre @ x" rest'' "Inl ShortLine"]) (auto simp: parseLine_def)
      next
        case short
        with line ne c True taken show ?thesis
          by (intro that [of "?pre @ x" rest'' "Inl ShortLine"]) (auto simp: parseLine_def)
      next
        case (taken y rest3)
        then have "idx y 0 = Some (y ! 0)" "idx y 1 = Some (y ! 1)" by (simp_all add: idx_def)
        with line ne c True taken
            \<open>ReadN (cursor ?pre rest') n = Some (cursor (?pre @ x) rest'', Inr x)\<close>
        have eq: "parseLine (cursor pre rest) = Some (cursor ((?pre @ x) @ y) rest3,
            if y ! 0 \<noteq> CR \<or> y ! 1 \<noteq> LF then Inl ErrInvalidResp else Inr x)"
          by (auto simp: parseLine_def)
        show ?thesis
          by (rule that [OF eq]) (use line taken \<open>rest' = x @ rest''\<close> in \<open>auto split: if_splits\<close>)
      qed
    qed
  qed
qed

text \<open>The errors on which the event loop waits for more bytes, and prefixes of lines.\<close>

definition waits :: "err \<Rightarrow> bool" where
  "waits e \<longleftrightarrow> e \<in> {EmptyLine, ErrLFNotFound, ShortLine, ErrIncompletePacket}"

lemma strict_prefix_append_cases:
  assumes "strict_prefix p (xs @ ys)"
  obtains "strict_prefix p xs" | q where "p = xs @ q" "strict_prefix q ys"
proof (cases "length p < length xs")
  case True
  have "prefix p xs"
    using prefix_length_prefix [of p "xs @ ys" xs] assms True by (simp add: strict_prefix_def)
  with True have "strict_prefix p xs" by (auto simp: strict_prefix_def)
  with that(1) show ?thesis .
next
  case False
  have "prefix xs p"
    using prefix_length_prefix [of xs "xs @ ys" p] assms False by (simp add: strict_prefix_def)
  then obtain q where q: "p = xs @ q" by (auto simp: prefix_def)
  with assms have "strict_prefix q ys" by (simp add: strict_prefix_def)
  with q that(2) show ?thesis by blast
qed

lemma idx_0: "xs \<noteq> [] \<Longrightarrow> idx xs 0 = Some (hd xs)"
  by (simp add: idx_def hd_conv_nth)

lemma line_prefix_no_LF:
  assumes "strict_prefix p (l @ CRLF)" "LF \<notin> set l"
  shows "LF \<notin> set p"
proof -
  from assms(1) have "strict_prefix p ((l @ [CR]) @ [LF])" by simp
  then show ?thesis
  proof (cases rule: strict_prefix_append_cases)
    case 1
    then have "set p \<subseteq> set (l @ [CR])" by (intro set_mono_prefix) (simp only: strict_prefix_def)
    with assms(2) show ?thesis by auto
  next
    case (2 q)
    then have "q = []" by (cases q) auto
    with 2 assms(2) show ?thesis by simp
  qed
qed

lemma ReadLine_prefix:
  assumes "LF \<notin> set p"
  shows "\<exists>e. ReadLine (cursor pre p) = Some (cursor pre p, Inl e) \<and> waits e"
  using assms ReadLine_nil [of pre] ReadLine_no_LF [of p pre] by (cases "p = []") (auto simp: waits_def)

text \<open>On a proper prefix of an encoding.\<close>

lemma parseLine_prefix:
  assumes p: "strict_prefix p (enc_bulk x)" and len: "int (length x) < 2 ^ 63"
  obtains pre' rest' e where "parseLine (cursor pre p) = Some (cursor pre' rest', Inl e)"
    "e \<in> {EmptyLine, ErrLFNotFound, ShortLine}"
proof -
  define h where "h = CHR ''$'' # itoa_nat (length x)"
  have enc: "enc_bulk x = (h @ [CR]) @ LF # x @ CRLF" by (simp add: enc_bulk_def h_def)
  have h: "LF \<notin> set h" "h \<noteq> []" "idx h 0 = Some CHR ''$''" "drop 1 h = itoa_nat (length x)"
    using itoa_nat_no_LF by (auto simp: h_def idx_def)
  obtain q where q: "enc_bulk x = p @ q" "q \<noteq> []" using p by (auto simp: strict_prefix_def prefix_def)
  have px: "prefix p (enc_bulk x)" using q(1) by simp
  consider (head) "prefix p (h @ [CR])" | (body) q' where "p = h @ CRLF @ q'" "q' @ q = x @ CRLF"
  proof (cases "length p \<le> length (h @ [CR])")
    case True
    have "prefix (h @ [CR]) (enc_bulk x)" by (simp only: enc prefixI)
    from prefix_length_prefix [OF px this True] show ?thesis by (rule head)
  next
    case False
    have "prefix (h @ CRLF) (enc_bulk x)" by (simp add: enc)
    from prefix_length_prefix [OF this px] False have "prefix (h @ CRLF) p" by simp
    then obtain q' where q': "p = h @ CRLF @ q'" by (auto simp: prefix_def)
    moreover have "p @ q = (h @ [CR]) @ LF # x @ CRLF" using q(1) enc by simp
    ultimately show ?thesis by (intro body [of q']) simp_all
  qed
  then show ?thesis
  proof cases
    case head
    then have "LF \<notin> set p" using h(1) set_mono_prefix [OF head] by auto
    then show ?thesis
      using that [of pre p] ReadLine_nil [of pre] ReadLine_no_LF [of p pre]
      by (cases "p = []") (auto simp: parseLine_def)
  next
    case (body q')
    have rl: "ReadLine (cursor pre p) = Some (cursor (pre @ h @ CRLF) q', Inr h)"
      using ReadLine_line [OF h(1,2)] body by simp
    have "(0::int) \<le> int (length x)" by simp
    then show ?thesis
    proof (cases rule: ReadN_cases [of "int (length x)" q' "pre @ h @ CRLF"])
      case nil
      with rl h show ?thesis
        by (intro that [of "pre @ h @ CRLF" q' EmptyLine]) (simp_all add: parseLine_def parseLen_itoa [OF len])
    next
      case short
      with rl h show ?thesis
        by (intro that [of "pre @ h @ CRLF" q' ShortLine]) (simp_all add: parseLine_def parseLen_itoa [OF len])
    next
      case (taken y q'')
      with body have "y = x" "q'' @ q = CRLF" by auto
      then have "length q'' < 2" using q(2) by (auto simp: append_eq_Cons_conv)
      then have "\<exists>e. ReadN (cursor ((pre @ h @ CRLF) @ y) q'') 2 = Some (cursor ((pre @ h @ CRLF) @ y) q'', Inl e)"
        using ReadN_short [of q'' 2] ReadN_nil by (cases "q'' = []") auto
      moreover have "parseLen (drop 1 h) = (int (length x), None)"
        by (simp only: h(4) parseLen_itoa [OF len])
      ultimately show ?thesis using taken(3) rl h(3) \<open>y = x\<close>
        by (intro that [of "(pre @ h @ CRLF) @ y" q'' ShortLine]) (auto simp: parseLine_def)
    qed
  qed
qed

end
