(* ===== verification/Commands.thy ===== *)
theory Commands
  imports Prelude
begin

text \<open>
  The command table of \<^verbatim>\<open>src/core/codec/commands.go\<close>.

  \<open>Command\<close> is a 32-bit unsigned integer there, numbered by \<open>iota\<close>; the order of the
  constants matters, because the router compares a command with \<open>ReqWriteCmdStart\<close> and the
  client handler with \<open>UNKNOWN\<close> and \<open>Sentinel\<close>. The constants are therefore numerals of
  \<^typ>\<open>32 word\<close> in the source's order. The three lookup tables are association lists in
  source order, and \<open>Transform2Type\<close>, \<open>Transform2Str\<close>, \<open>checkArgs\<close> and \<open>toLower\<close> are
  translated as they are.

  The lemmas show that the two name tables are inverse to each other, that every named
  command has an arity, what \<open>checkArgs\<close> accepts, and that recognising a command does not
  depend on letter case.
\<close>

section \<open>Command constants\<close>

type_synonym Command = "32 word"
type_synonym NArgs = int

abbreviation UNKNOWN :: Command where "UNKNOWN \<equiv> 0"
abbreviation ReqExists :: Command where "ReqExists \<equiv> 1"
abbreviation ReqTtl :: Command where "ReqTtl \<equiv> 2"
abbreviation ReqPttl :: Command where "ReqPttl \<equiv> 3"
abbreviation ReqType :: Command where "ReqType \<equiv> 4"
abbreviation ReqDump :: Command where "ReqDump \<equiv> 5"
abbreviation ReqBitcount :: Command where "ReqBitcount \<equiv> 6"
abbreviation ReqGet :: Command where "ReqGet \<equiv> 7"
abbreviation ReqGetbit :: Command where "ReqGetbit \<equiv> 8"
abbreviation ReqGetrange :: Command where "ReqGetrange \<equiv> 9"
abbreviation ReqMget :: Command where "ReqMget \<equiv> 10"
abbreviation ReqStrlen :: Command where "ReqStrlen \<equiv> 11"
abbreviation ReqHexists :: Command where "ReqHexists \<equiv> 12"
abbreviation ReqHget :: Command where "ReqHget \<equiv> 13"
abbreviation ReqHgetall :: Command where "ReqHgetall \<equiv> 14"
abbreviation ReqHkeys :: Command where "ReqHkeys \<equiv> 15"
abbreviation ReqHlen :: Command where "ReqHlen \<equiv> 16"
abbreviation ReqHmget :: Command where "ReqHmget \<equiv> 17"
abbreviation ReqHscan :: Command where "ReqHscan \<equiv> 18"
abbreviation ReqHvals :: Command where "ReqHvals \<equiv> 19"
abbreviation ReqLindex :: Command where "ReqLindex \<equiv> 20"
abbreviation ReqLlen :: Command where "ReqLlen \<equiv> 21"
abbreviation ReqLrange :: Command where "ReqLrange \<equiv> 22"
abbreviation ReqSrandmember :: Command where "ReqSrandmember \<equiv> 23"
abbreviation ReqSscan :: Command where "ReqSscan \<equiv> 24"
abbreviation ReqSdiff :: Command where "ReqSdiff \<equiv> 25"
abbreviation ReqSinter :: Command where "ReqSinter \<equiv> 26"
abbreviation ReqScard :: Command where "ReqScard \<equiv> 27"
abbreviation ReqSismember :: Command where "ReqSismember \<equiv> 28"
abbreviation ReqSmembers :: Command where "ReqSmembers \<equiv> 29"
abbreviation ReqZcard :: Command where "ReqZcard \<equiv> 30"
abbreviation ReqZcount :: Command where "ReqZcount \<equiv> 31"
abbreviation ReqZlexcount :: Command where "ReqZlexcount \<equiv> 32"
abbreviation ReqZrange :: Command where "ReqZrange \<equiv> 33"
abbreviation ReqZrangebylex :: Command where "ReqZrangebylex \<equiv> 34"
abbreviation ReqZrangebyscore :: Command where "ReqZrangebyscore \<equiv> 35"
abbreviation ReqZrank :: Command where "ReqZrank \<equiv> 36"
abbreviation ReqZrevrange :: Command where "ReqZrevrange \<equiv> 37"
abbreviation ReqZrevrangebyscore :: Command where "ReqZrevrangebyscore \<equiv> 38"
abbreviation ReqZrevrank :: Command where "ReqZrevrank \<equiv> 39"
abbreviation ReqZscore :: Command where "ReqZscore \<equiv> 40"
abbreviation ReqZscan :: Command where "ReqZscan \<equiv> 41"
abbreviation ReqWriteCmdStart :: Command where "ReqWriteCmdStart \<equiv> 42"
abbreviation ReqDel :: Command where "ReqDel \<equiv> 43"
abbreviation ReqExpire :: Command where "ReqExpire \<equiv> 44"
abbreviation ReqExpireat :: Command where "ReqExpireat \<equiv> 45"
abbreviation ReqPexpire :: Command where "ReqPexpire \<equiv> 46"
abbreviation ReqPexpireat :: Command where "ReqPexpireat \<equiv> 47"
abbreviation ReqPersist :: Command where "ReqPersist \<equiv> 48"
abbreviation ReqSort :: Command where "ReqSort \<equiv> 49"
abbreviation ReqAppend :: Command where "ReqAppend \<equiv> 50"
abbreviation ReqDecr :: Command where "ReqDecr \<equiv> 51"
abbreviation ReqDecrby :: Command where "ReqDecrby \<equiv> 52"
abbreviation ReqGetset :: Command where "ReqGetset \<equiv> 53"
abbreviation ReqIncr :: Command where "ReqIncr \<equiv> 54"
abbreviation ReqIncrby :: Command where "ReqIncrby \<equiv> 55"
abbreviation ReqIncrbyfloat :: Command where "ReqIncrbyfloat \<equiv> 56"
abbreviation ReqMset :: Command where "ReqMset \<equiv> 57"
abbreviation ReqPsetex :: Command where "ReqPsetex \<equiv> 58"
abbreviation ReqRestore :: Command where "ReqRestore \<equiv> 59"
abbreviation ReqSet :: Command where "ReqSet \<equiv> 60"
abbreviation ReqSetbit :: Command where "ReqSetbit \<equiv> 61"
abbreviation ReqSetex :: Command where "ReqSetex \<equiv> 62"
abbreviation ReqSetnx :: Command where "ReqSetnx \<equiv> 63"
abbreviation ReqSetrange :: Command where "ReqSetrange \<equiv> 64"
abbreviation ReqSunion :: Command where "ReqSunion \<equiv> 65"
abbreviation ReqHdel :: Command where "ReqHdel \<equiv> 66"
abbreviation ReqHincrby :: Command where "ReqHincrby \<equiv> 67"
abbreviation ReqHincrbyfloat :: Command where "ReqHincrbyfloat \<equiv> 68"
abbreviation ReqHmset :: Command where "ReqHmset \<equiv> 69"
abbreviation ReqHset :: Command where "ReqHset \<equiv> 70"
abbreviation ReqHsetnx :: Command where "ReqHsetnx \<equiv> 71"
abbreviation ReqLinsert :: Command where "ReqLinsert \<equiv> 72"
abbreviation ReqLpop :: Command where "ReqLpop \<equiv> 73"
abbreviation ReqLpush :: Command where "ReqLpush \<equiv> 74"
abbreviation ReqLpushx :: Command where "ReqLpushx \<equiv> 75"
abbreviation ReqLrem :: Command where "ReqLrem \<equiv> 76"
abbreviation ReqLset :: Command where "ReqLset \<equiv> 77"
abbreviation ReqLtrim :: Command where "ReqLtrim \<equiv> 78"
abbreviation ReqRpop :: Command where "ReqRpop \<equiv> 79"
abbreviation ReqRpoplpush :: Command where "ReqRpoplpush \<equiv> 80"
abbreviation ReqRpush :: Command where "ReqRpush \<equiv> 81"
abbreviation ReqRpushx :: Command where "ReqRpushx \<equiv> 82"
abbreviation ReqPfadd :: Command where "ReqPfadd \<equiv> 83"
abbreviation ReqPfcount :: Command where "ReqPfcount \<equiv> 84"
abbreviation ReqPfmerge :: Command where "ReqPfmerge \<equiv> 85"
abbreviation ReqSadd :: Command where "ReqSadd \<equiv> 86"
abbreviation ReqSdiffstore :: Command where "ReqSdiffstore \<equiv> 87"
abbreviation ReqSinterstore :: Command where "ReqSinterstore \<equiv> 88"
abbreviation ReqSmove :: Command where "ReqSmove \<equiv> 89"
abbreviation ReqSpop :: Command where "ReqSpop \<equiv> 90"
abbreviation ReqSrem :: Command where "ReqSrem \<equiv> 91"
abbreviation ReqSunionstore :: Command where "ReqSunionstore \<equiv> 92"
abbreviation ReqZadd :: Command where "ReqZadd \<equiv> 93"
abbreviation ReqZincrby :: Command where "ReqZincrby \<equiv> 94"
abbreviation ReqZinterstore :: Command where "ReqZinterstore \<equiv> 95"
abbreviation ReqZrem :: Command where "ReqZrem \<equiv> 96"
abbreviation ReqZremrangebyrank :: Command where "ReqZremrangebyrank \<equiv> 97"
abbreviation ReqZremrangebylex :: Command where "ReqZremrangebylex \<equiv> 98"
abbreviation ReqZremrangebyscore :: Command where "ReqZremrangebyscore \<equiv> 99"
abbreviation ReqZunionstore :: Command where "ReqZunionstore \<equiv> 100"
abbreviation ReqEval :: Command where "ReqEval \<equiv> 101"
abbreviation ReqEvalsha :: Command where "ReqEvalsha \<equiv> 102"
abbreviation ReqPing :: Command where "ReqPing \<equiv> 103"
abbreviation ReqQuit :: Command where "ReqQuit \<equiv> 104"
abbreviation ReqAuth :: Command where "ReqAuth \<equiv> 105"
abbreviation ReqTooLarge :: Command where "ReqTooLarge \<equiv> 106"
abbreviation ReqWrongArgumentsNumber :: Command where "ReqWrongArgumentsNumber \<equiv> 107"
abbreviation RspTooLarge :: Command where "RspTooLarge \<equiv> 108"
abbreviation RspStatus :: Command where "RspStatus \<equiv> 109"
abbreviation RspOk :: Command where "RspOk \<equiv> 110"
abbreviation RspPong :: Command where "RspPong \<equiv> 111"
abbreviation RspError :: Command where "RspError \<equiv> 112"
abbreviation RspNeedAuth :: Command where "RspNeedAuth \<equiv> 113"
abbreviation RspNeedNtAuth :: Command where "RspNeedNtAuth \<equiv> 114"
abbreviation RspAuthFailed :: Command where "RspAuthFailed \<equiv> 115"
abbreviation RspInteger :: Command where "RspInteger \<equiv> 116"
abbreviation RspBulk :: Command where "RspBulk \<equiv> 117"
abbreviation RspMultibulk :: Command where "RspMultibulk \<equiv> 118"
abbreviation RspAsk :: Command where "RspAsk \<equiv> 119"
abbreviation RspMoved :: Command where "RspMoved \<equiv> 120"
abbreviation Sentinel :: Command where "Sentinel \<equiv> 121"

abbreviation Nargsz :: NArgs where "Nargsz \<equiv> 0"
abbreviation Nargs0 :: NArgs where "Nargs0 \<equiv> 1"
abbreviation Nargs1 :: NArgs where "Nargs1 \<equiv> 2"
abbreviation Nargs2 :: NArgs where "Nargs2 \<equiv> 3"
abbreviation Nargs3 :: NArgs where "Nargs3 \<equiv> 4"
abbreviation NargsInf :: NArgs where "NargsInf \<equiv> - 1"
abbreviation NargsEvenInf :: NArgs where "NargsEvenInf \<equiv> - 2"

section \<open>Tables\<close>

definition CommandType2Str :: "(Command \<times> string) list" where
  "CommandType2Str =
    [
     (ReqExists, ''exists''), (ReqTtl, ''ttl''), (ReqPttl, ''pttl''), (ReqType, ''type''),
     (ReqDump, ''dump''), (ReqBitcount, ''bitcount''), (ReqGet, ''get''),
     (ReqGetbit, ''getbit''), (ReqGetrange, ''getrange''), (ReqMget, ''mget''),
     (ReqStrlen, ''strlen''), (ReqHexists, ''hexists''), (ReqHget, ''hget''),
     (ReqHgetall, ''hgetall''), (ReqHkeys, ''hkeys''), (ReqHlen, ''hlen''),
     (ReqHmget, ''hmget''), (ReqHscan, ''hscan''), (ReqHvals, ''hvals''),
     (ReqLindex, ''lindex''), (ReqLlen, ''llen''), (ReqLrange, ''lrange''),
     (ReqSrandmember, ''srandmember''), (ReqSscan, ''sscan''), (ReqSdiff, ''sdiff''),
     (ReqSinter, ''sinter''), (ReqScard, ''scard''), (ReqSismember, ''sismember''),
     (ReqSmembers, ''smembers''), (ReqZcard, ''zcard''), (ReqZcount, ''zcount''),
     (ReqZlexcount, ''zlexcount''), (ReqZrange, ''zrange''), (ReqZrangebylex, ''zrangebylex''),
     (ReqZrangebyscore, ''zrangebyscore''), (ReqZrank, ''zrank''),
     (ReqZrevrange, ''zrevrange''), (ReqZrevrangebyscore, ''zrevrangebyscore''),
     (ReqZrevrank, ''zrevrank''), (ReqZscore, ''zscore''), (ReqZscan, ''zscan''),
     (ReqDel, ''del''), (ReqExpire, ''expire''), (ReqExpireat, ''expireat''),
     (ReqPexpire, ''pexpire''), (ReqPexpireat, ''pexpireat''), (ReqPersist, ''persist''),
     (ReqSort, ''sort''), (ReqAppend, ''append''), (ReqDecr, ''decr''), (ReqDecrby, ''decrby''),
     (ReqGetset, ''getset''), (ReqIncr, ''incr''), (ReqIncrby, ''incrby''),
     (ReqIncrbyfloat, ''incrbyfloat''), (ReqMset, ''mset''), (ReqPsetex, ''psetex''),
     (ReqRestore, ''restore''), (ReqSet, ''set''), (ReqSetbit, ''setbit''),
     (ReqSetex, ''setex''), (ReqSetnx, ''setnx''), (ReqSetrange, ''setrange''),
     (ReqSunion, ''sunion''), (ReqHdel, ''hdel''), (ReqHincrby, ''hincrby''),
     (ReqHincrbyfloat, ''hincrbyfloat''), (ReqHmset, ''hmset''), (ReqHset, ''hset''),
     (ReqHsetnx, ''hsetnx''), (ReqLinsert, ''linsert''), (ReqLpop, ''lpop''),
     (ReqLpush, ''lpush''), (ReqLpushx, ''lpushx''), (ReqLrem, ''lrem''), (ReqLset, ''lset''),
     (ReqLtrim, ''ltrim''), (ReqRpop, ''rpop''), (ReqRpoplpush, ''rpoplpush''),
     (ReqRpush, ''rpush''), (ReqRpushx, ''rpushx''), (ReqPfadd, ''pfadd''),
     (ReqPfcount, ''pfcount''), (ReqPfmerge, ''pfmerge''), (ReqSadd, ''sadd''),
     (ReqSdiffstore, ''sdiffstore''), (ReqSinterstore, ''sinterstore''), (ReqSmove, ''smove''),
     (ReqSpop, ''spop''), (ReqSrem, ''srem''), (ReqSunionstore, ''sunionstore''),
     (ReqZadd, ''zadd''), (ReqZincrby, ''zincrby''), (ReqZinterstore, ''zinterstore''),
     (ReqZrem, ''zrem''), (ReqZremrangebyrank, ''zremrangebyrank''),
     (ReqZremrangebylex, ''zremrangebylex''), (ReqZremrangebyscore, ''zremrangebyscore''),
     (ReqZunionstore, ''zunionstore''), (ReqEval, ''eval''), (ReqEvalsha, ''evalsha''),
     (ReqPing, ''ping''), (ReqQuit, ''quit''), (ReqAuth, ''auth'')]"

definition CommandStr2Type :: "(string \<times> Command) list" where
  "CommandStr2Type =
    [
     (''exists'', ReqExists), (''ttl'', ReqTtl), (''pttl'', ReqPttl), (''type'', ReqType),
     (''dump'', ReqDump), (''bitcount'', ReqBitcount), (''get'', ReqGet),
     (''getbit'', ReqGetbit), (''getrange'', ReqGetrange), (''mget'', ReqMget),
     (''strlen'', ReqStrlen), (''hexists'', ReqHexists), (''hget'', ReqHget),
     (''hgetall'', ReqHgetall), (''hkeys'', ReqHkeys), (''hlen'', ReqHlen),
     (''hmget'', ReqHmget), (''hscan'', ReqHscan), (''hvals'', ReqHvals),
     (''lindex'', ReqLindex), (''llen'', ReqLlen), (''lrange'', ReqLrange),
     (''srandmember'', ReqSrandmember), (''sscan'', ReqSscan), (''sdiff'', ReqSdiff),
     (''sinter'', ReqSinter), (''scard'', ReqScard), (''sismember'', ReqSismember),
     (''smembers'', ReqSmembers), (''zcard'', ReqZcard), (''zcount'', ReqZcount),
     (''zlexcount'', ReqZlexcount), (''zrange'', ReqZrange), (''zrangebylex'', ReqZrangebylex),
     (''zrangebyscore'', ReqZrangebyscore), (''zrank'', ReqZrank),
     (''zrevrange'', ReqZrevrange), (''zrevrangebyscore'', ReqZrevrangebyscore),
     (''zrevrank'', ReqZrevrank), (''zscore'', ReqZscore), (''zscan'', ReqZscan),
     (''del'', ReqDel), (''expire'', ReqExpire), (''expireat'', ReqExpireat),
     (''pexpire'', ReqPexpire), (''pexpireat'', ReqPexpireat), (''persist'', ReqPersist),
     (''sort'', ReqSort), (''append'', ReqAppend), (''decr'', ReqDecr), (''decrby'', ReqDecrby),
     (''getset'', ReqGetset), (''incr'', ReqIncr), (''incrby'', ReqIncrby),
     (''incrbyfloat'', ReqIncrbyfloat), (''mset'', ReqMset), (''psetex'', ReqPsetex),
     (''restore'', ReqRestore), (''set'', ReqSet), (''setbit'', ReqSetbit),
     (''setex'', ReqSetex), (''setnx'', ReqSetnx), (''setrange'', ReqSetrange),
     (''sunion'', ReqSunion), (''hdel'', ReqHdel), (''hincrby'', ReqHincrby),
     (''hincrbyfloat'', ReqHincrbyfloat), (''hmset'', ReqHmset), (''hset'', ReqHset),
     (''hsetnx'', ReqHsetnx), (''linsert'', ReqLinsert), (''lpop'', ReqLpop),
     (''lpush'', ReqLpush), (''lpushx'', ReqLpushx), (''lrem'', ReqLrem), (''lset'', ReqLset),
     (''ltrim'', ReqLtrim), (''rpop'', ReqRpop), (''rpoplpush'', ReqRpoplpush),
     (''rpush'', ReqRpush), (''rpushx'', ReqRpushx), (''pfadd'', ReqPfadd),
     (''pfcount'', ReqPfcount), (''pfmerge'', ReqPfmerge), (''sadd'', ReqSadd),
     (''sdiffstore'', ReqSdiffstore), (''sinterstore'', ReqSinterstore), (''smove'', ReqSmove),
     (''spop'', ReqSpop), (''srem'', ReqSrem), (''sunionstore'', ReqSunionstore),
     (''zadd'', ReqZadd), (''zincrby'', ReqZincrby), (''zinterstore'', ReqZinterstore),
     (''zrem'', ReqZrem), (''zremrangebyrank'', ReqZremrangebyrank),
     (''zremrangebylex'', ReqZremrangebylex), (''zremrangebyscore'', ReqZremrangebyscore),
     (''zunionstore'', ReqZunionstore), (''eval'', ReqEval), (''evalsha'', ReqEvalsha),
     (''ping'', ReqPing), (''quit'', ReqQuit), (''auth'', ReqAuth)]"

definition CommandType2ArgsNumber :: "(Command \<times> NArgs) list" where
  "CommandType2ArgsNumber =
    [
     (ReqPing, Nargsz), (ReqQuit, Nargsz), (ReqExists, Nargs0), (ReqTtl, Nargs0),
     (ReqPttl, Nargs0), (ReqType, Nargs0), (ReqDump, Nargs0), (ReqGet, Nargs0),
     (ReqStrlen, Nargs0), (ReqHgetall, Nargs0), (ReqHkeys, Nargs0), (ReqHlen, Nargs0),
     (ReqSmembers, Nargs0), (ReqZcard, Nargs0), (ReqLlen, Nargs0), (ReqScard, Nargs0),
     (ReqHvals, Nargs0), (ReqPfcount, Nargs0), (ReqSpop, Nargs0), (ReqAuth, Nargs0),
     (ReqRpop, Nargs0), (ReqPersist, Nargs0), (ReqDecr, Nargs0), (ReqIncr, Nargs0),
     (ReqLpop, Nargs0), (ReqRpoplpush, Nargs1), (ReqRpushx, Nargs1), (ReqGetbit, Nargs1),
     (ReqHexists, Nargs1), (ReqHget, Nargs1), (ReqLindex, Nargs1), (ReqSismember, Nargs1),
     (ReqExpire, Nargs1), (ReqZrank, Nargs1), (ReqZrevrank, Nargs1), (ReqZscore, Nargs1),
     (ReqExpireat, Nargs1), (ReqPexpire, Nargs1), (ReqPexpireat, Nargs1), (ReqAppend, Nargs1),
     (ReqDecrby, Nargs1), (ReqGetset, Nargs1), (ReqIncrby, Nargs1), (ReqIncrbyfloat, Nargs1),
     (ReqSetnx, Nargs1), (ReqLpushx, Nargs1), (ReqGetrange, Nargs2), (ReqLrange, Nargs2),
     (ReqZcount, Nargs2), (ReqZlexcount, Nargs2), (ReqPsetex, Nargs2), (ReqRestore, Nargs2),
     (ReqSetbit, Nargs2), (ReqSetex, Nargs2), (ReqSetrange, Nargs2), (ReqHincrby, Nargs2),
     (ReqHincrbyfloat, Nargs2), (ReqHset, Nargs2), (ReqHsetnx, Nargs2), (ReqLrem, Nargs2),
     (ReqLset, Nargs2), (ReqLtrim, Nargs2), (ReqSmove, Nargs2), (ReqZincrby, Nargs2),
     (ReqZremrangebyrank, Nargs2), (ReqZremrangebylex, Nargs2), (ReqZremrangebyscore, Nargs2),
     (ReqLinsert, Nargs3), (ReqSet, NargsInf), (ReqHmset, NargsInf), (ReqLpush, NargsInf),
     (ReqSunion, NargsInf), (ReqHdel, NargsInf), (ReqPfmerge, NargsInf), (ReqRpush, NargsInf),
     (ReqPfadd, NargsInf), (ReqSadd, NargsInf), (ReqSdiffstore, NargsInf),
     (ReqSinterstore, NargsInf), (ReqSrem, NargsInf), (ReqSunionstore, NargsInf),
     (ReqZadd, NargsInf), (ReqZinterstore, NargsInf), (ReqZrem, NargsInf),
     (ReqBitcount, NargsInf), (ReqZunionstore, NargsInf), (ReqEval, NargsInf),
     (ReqEvalsha, NargsInf), (ReqMget, NargsInf), (ReqHmget, NargsInf), (ReqHscan, NargsInf),
     (ReqSrandmember, NargsInf), (ReqSscan, NargsInf), (ReqSdiff, NargsInf),
     (ReqSinter, NargsInf), (ReqZrange, NargsInf), (ReqZrangebylex, NargsInf),
     (ReqZrangebyscore, NargsInf), (ReqZrevrange, NargsInf), (ReqZrevrangebyscore, NargsInf),
     (ReqZscan, NargsInf), (ReqDel, NargsInf), (ReqSort, NargsInf), (ReqMset, NargsEvenInf)]"

section \<open>Operations\<close>

definition checkArgs :: "Command \<Rightarrow> int \<Rightarrow> Command" where
  "checkArgs command n =
     (case map_of CommandType2ArgsNumber command of
        None \<Rightarrow> ReqWrongArgumentsNumber
      | Some nargs \<Rightarrow>
          if nargs = Nargsz \<or> nargs = Nargs0 \<or> nargs = Nargs1 \<or> nargs = Nargs2 \<or> nargs = Nargs3 then
            (if nargs \<noteq> n then ReqWrongArgumentsNumber else command)
          else if nargs = NargsInf then
            (if n < 1 then ReqWrongArgumentsNumber else command)
          else if nargs = NargsEvenInf then
            (if n < 2 \<or> n mod 2 = 1 then ReqWrongArgumentsNumber else command)
          else ReqWrongArgumentsNumber)"

text \<open>\<open>bs[i] ^ 0x20\<close> on the upper-case letters, as the loop of \<open>toLower\<close> does in place.\<close>

definition lower_byte :: "byte \<Rightarrow> byte" where
  "lower_byte b =
     (if (65::nat) \<le> of_char b \<and> of_char b \<le> (90::nat)
      then char_of (Bit_Operations.xor (of_char b :: nat) 32) else b)"

definition toLower :: "bytes \<Rightarrow> bytes" where
  "toLower bs = map lower_byte bs"

text \<open>
  \<open>Transform2Type\<close> lower-cases the slice it is given in place; the model returns the bytes
  that slice then holds beside the command.
\<close>

definition Transform2Type :: "bytes \<Rightarrow> int \<Rightarrow> bytes \<times> Command" where
  "Transform2Type command n =
     (let command' = toLower command
      in (command', case map_of CommandStr2Type command' of
                      Some v \<Rightarrow> checkArgs v n
                    | None \<Rightarrow> UNKNOWN))"

definition Transform2Str :: "Command \<Rightarrow> string" where
  "Transform2Str command =
     (case map_of CommandType2Str command of Some v \<Rightarrow> v | None \<Rightarrow> ''unknown'')"

section \<open>Properties\<close>

lemma lower_byte_cases:
  "lower_byte b = (if 65 \<le> (of_char b :: nat) \<and> of_char b \<le> (90::nat) then char_of (of_char b + 32 :: nat) else b)"
proof -
  have "\<forall>k \<in> {65..90::nat}. Bit_Operations.xor k 32 = k + 32"
    by code_simp
  then show ?thesis by (simp add: lower_byte_def)
qed

lemma lower_byte_idem [simp]: "lower_byte (lower_byte b) = lower_byte b"
proof -
  have "of_char (char_of (k + 32) :: char) = k + 32" if "k \<le> (90::nat)" for k
    using that by simp
  then show ?thesis by (simp add: lower_byte_cases)
qed

lemma length_toLower [simp]: "length (toLower bs) = length bs"
  by (simp add: toLower_def)

lemma toLower_idem [simp]: "toLower (toLower bs) = toLower bs"
  by (simp add: toLower_def)

text \<open>
  The two name tables and the arity table list the same commands. The key lists are
  compared through their sorted numeric codes, which the simplifier evaluates quickly.
\<close>

definition string_code :: "string \<Rightarrow> int" where
  "string_code s = foldl (\<lambda>n c. n * 256 + of_char c) 0 s"

lemma distinct_by_sorted_code:
  fixes f :: "'a \<Rightarrow> 'b :: linorder"
  assumes "successively (<) (sort (map f xs))"
  shows "distinct xs"
proof -
  have "sorted_wrt (<) (sort (map f xs))"
    using assms by (simp add: successively_conv_sorted_wrt)
  then have "distinct (map f xs)"
    by (metis distinct_sort strict_sorted_iff)
  then show ?thesis by (simp add: distinct_map)
qed

lemma names_distinct: "distinct (map fst CommandStr2Type)"
  by (rule distinct_by_sorted_code [where f = string_code]) code_simp

lemma types_distinct: "distinct (map fst CommandType2Str)"
  by (rule distinct_by_sorted_code [where f = uint]) code_simp

lemma tables_inverse: "map (\<lambda>(s, c). (c, s)) CommandStr2Type = CommandType2Str"
  by code_simp

lemma arity_codes:
  "sort (map (uint \<circ> fst) CommandType2ArgsNumber) = sort (map (uint \<circ> fst) CommandType2Str)"
  by code_simp

lemma arity_table_complete: "set (map fst CommandType2Str) = set (map fst CommandType2ArgsNumber)"
proof -
  have "uint ` set (map fst CommandType2ArgsNumber) = uint ` set (map fst CommandType2Str)"
    using arg_cong [OF arity_codes, of set] by (simp add: image_comp)
  moreover have "inj (uint :: Command \<Rightarrow> int)"
    by simp
  ultimately show ?thesis
    using inj_image_eq_iff by blast
qed

lemma arity_table_range:
  "list_all (\<lambda>(c, k). k \<in> set [Nargsz, Nargs0, Nargs1, Nargs2, Nargs3, NargsInf, NargsEvenInf])
     CommandType2ArgsNumber"
  by code_simp

lemma type2str_iff: "map_of CommandType2Str c = Some s \<longleftrightarrow> map_of CommandStr2Type s = Some c"
proof -
  have "(c, s) \<in> set CommandType2Str \<longleftrightarrow> (s, c) \<in> set CommandStr2Type"
    by (subst tables_inverse [symmetric]) auto
  then show ?thesis
    by (simp add: map_of_eq_Some_iff names_distinct types_distinct)
qed

lemma named_has_arity:
  assumes "map_of CommandStr2Type s = Some c"
  obtains k where "map_of CommandType2ArgsNumber c = Some k"
    "k \<in> {Nargsz, Nargs0, Nargs1, Nargs2, Nargs3, NargsInf, NargsEvenInf}"
proof -
  from assms have "c \<in> set (map fst CommandType2Str)"
    using type2str_iff [of c s] map_of_SomeD by force
  then have "c \<in> fst ` set CommandType2ArgsNumber"
    using arity_table_complete by simp
  then obtain k where k: "map_of CommandType2ArgsNumber c = Some k"
    by (metis map_of_eq_None_iff not_Some_eq)
  moreover have "k \<in> {Nargsz, Nargs0, Nargs1, Nargs2, Nargs3, NargsInf, NargsEvenInf}"
    using arity_table_range map_of_SomeD [OF k] by (fastforce simp: list_all_iff)
  ultimately show ?thesis by (rule that)
qed

text \<open>The argument counts an arity stands for, as the comments on the constants say.\<close>

definition arity_ok :: "NArgs \<Rightarrow> int \<Rightarrow> bool" where
  "arity_ok k n \<longleftrightarrow>
     (if k = NargsInf then 1 \<le> n else if k = NargsEvenInf then 2 \<le> n \<and> even n else n = k)"

lemma checkArgs_arity:
  assumes "map_of CommandStr2Type s = Some c"
  shows "\<exists>k. map_of CommandType2ArgsNumber c = Some k \<and>
    checkArgs c n = (if arity_ok k n then c else ReqWrongArgumentsNumber)"
proof -
  from assms obtain k where k: "map_of CommandType2ArgsNumber c = Some k"
    "k \<in> {Nargsz, Nargs0, Nargs1, Nargs2, Nargs3, NargsInf, NargsEvenInf}"
    by (rule named_has_arity)
  then have "checkArgs c n = (if arity_ok k n then c else ReqWrongArgumentsNumber)"
    by (auto simp: checkArgs_def arity_ok_def odd_iff_mod_2_eq_one)
  with k show ?thesis by blast
qed

section \<open>Stated properties\<close>

text \<open>
  C40: a name of the table is recognised in any letter case and accepted exactly with an argument
  count of its arity, and the command it is turned into is printed as its lower-case name.
\<close>

theorem command_recognised:
  assumes "map_of CommandStr2Type (toLower name) = Some c"
  shows "\<exists>k. map_of CommandType2ArgsNumber c = Some k \<and>
    Transform2Type name n = (toLower name, if arity_ok k n then c else ReqWrongArgumentsNumber) \<and>
    Transform2Str c = toLower name"
  using checkArgs_arity [OF assms, of n] assms type2str_iff [of c "toLower name"]
  by (auto simp: Transform2Type_def Transform2Str_def Let_def)

theorem command_recognised_witness:
  "\<exists>k. map_of CommandType2ArgsNumber ReqGet = Some k \<and>
    Transform2Type ''GeT'' 0 = (''get'', if arity_ok k 0 then ReqGet else ReqWrongArgumentsNumber) \<and>
    Transform2Str ReqGet = ''get''"
proof -
  have "toLower ''GeT'' = ''get''" by code_simp
  moreover have "map_of CommandStr2Type ''get'' = Some ReqGet" by code_simp
  ultimately show ?thesis using command_recognised [of "''GeT''" ReqGet 0] by simp
qed

end
