(* ===== verification/Server_Codec.thy ===== *)
theory Server_Codec
  imports Go_Strings Resp Commands
begin

text \<open>
  The reader of Redis replies, \<open>readReply\<close> and \<open>parseMGet\<close> of \<^verbatim>\<open>src/core/codec_s.go\<close>.

  \<open>readReply\<close> calls itself for the elements of an array. The model counts the depth of calls with
  fuel; \<open>readReply_returns\<close> shows that the fuel the caller passes (twice the number of unread bytes
  and some more) is enough on every input, so that \<open>None\<close> never stands for a missing step.

  Replies are described by a datatype with its encoding: the reader consumes exactly the encoding of
  one reply, whatever follows, classifies it by its first byte and, for errors, by the text the proxy
  has to react to, and asks for more bytes on every proper prefix.
\<close>

section \<open>The reader\<close>

definition error_type :: "bytes \<Rightarrow> Command" where
  "error_type line =
     (if HasPrefix line ''-NOAUTH Authentication required'' then RspNeedAuth
      else if HasPrefix line ''-ERR invalid password'' then RspAuthFailed
      else if HasPrefix line ''-ERR Client sent AUTH, but no password is set''
        \<or> HasPrefix line ''-ERR AUTH <password> called without any password configured for the default user.''
        then RspNeedNtAuth
      else if HasPrefix line ''-MOVED'' then RspMoved
      else if HasPrefix line ''-ASK'' then RspAsk
      else RspError)"

definition status_type :: "bytes \<Rightarrow> Command go" where
  "status_type line = do {
     ok \<leftarrow> ShortString OK;
     pong \<leftarrow> ShortString PONG;
     Some (if HasPrefix line ok then RspOk else if HasPrefix line pong then RspPong else RspStatus)
   }"

fun readReply :: "nat \<Rightarrow> Buffer \<Rightarrow> (Buffer \<times> (err + Command)) go"
  and readReplies :: "nat \<Rightarrow> nat \<Rightarrow> Buffer \<Rightarrow> (Buffer \<times> (err + Command)) go" where
  "readReply 0 buf = None"
| "readReply (Suc fuel) buf = and_then (ReadLine buf) (\<lambda>buf line.
     if length line = 0 then Some (buf, Inl BadLine)
     else do {
       c \<leftarrow> idx line 0;
       (if c = CHR ''+'' then do { t \<leftarrow> status_type line; Some (buf, Inr t) }
        else if c = CHR '':'' then Some (buf, Inr RspInteger)
        else if c = CHR ''-'' then Some (buf, Inr (error_type line))
        else if c = CHR ''$'' then
          (case parseLen (drop 1 line) of
             (n, Some e) \<Rightarrow> Some (buf, Inl e)
           | (n, None) \<Rightarrow>
               if n < 0 then Some (buf, Inr RspBulk)
               else and_then (ReadN buf n) (\<lambda>buf _. and_then (ReadN buf 2) (\<lambda>buf crlf. do {
                 c0 \<leftarrow> idx crlf 0;
                 c1 \<leftarrow> idx crlf 1;
                 Some (buf, if c0 \<noteq> CR \<or> c1 \<noteq> LF then Inl ErrInvalidResp else Inr RspBulk)
               })))
        else if c = CHR ''*'' then
          (case parseLen (drop 1 line) of (n, e) \<Rightarrow>
             if n < 0 \<or> e \<noteq> None then Some (buf, case e of Some e \<Rightarrow> Inl e | None \<Rightarrow> Inr UNKNOWN)
             else and_then (readReplies fuel (nat n) buf) (\<lambda>buf _. Some (buf, Inr RspMultibulk)))
        else Some (buf, Inl ErrInvalidResp))
     })"
| "readReplies fuel 0 buf = Some (buf, Inr UNKNOWN)"
| "readReplies 0 (Suc n) buf = None"
| "readReplies (Suc fuel) (Suc n) buf =
     and_then (readReply fuel buf) (\<lambda>buf _. readReplies fuel n buf)"

definition reply_fuel :: "Buffer \<Rightarrow> nat" where
  "reply_fuel buf = 2 * length (b_buf buf) + 2"

text \<open>The call \<open>rc.readReply(buf)\<close> of \<open>Decode\<close>.\<close>

definition S_readReply :: "Buffer \<Rightarrow> (Buffer \<times> (err + Command)) go" where
  "S_readReply buf = readReply (reply_fuel buf) buf"

text \<open>
  \<open>parseMGet\<close>: the elements of an \<open>mget\<close> reply, each with its header line. The slice \<open>kLenBytes[1:]\<close>
  panics when the first line is missing, and \<open>make\<close> panics for a negative length.
\<close>

partial_function (option) parseMGet_loop :: "Buffer \<Rightarrow> bytes list \<Rightarrow> bytes list option" where
  "parseMGet_loop buf msg = do {
     (buf, line) \<leftarrow> ReadLine buf;
     (case line of
        Inl e \<Rightarrow> if e = EmptyLine then Some msg else Some []
      | Inr line \<Rightarrow> do {
          rest \<leftarrow> slice line 1 (int (length line));
          let n = fst (parseLen rest);
          (if n < 0 then parseMGet_loop buf (msg @ [line @ CRLF])
           else do {
             (buf, v) \<leftarrow> ReadN buf n;
             (buf, _) \<leftarrow> ReadN buf 2;
             parseMGet_loop buf (msg @ [line @ CRLF @ (case v of Inl _ \<Rightarrow> [] | Inr v \<Rightarrow> v) @ CRLF])
           })
        })
   }"

definition parseMGet :: "bytes \<Rightarrow> bytes list go" where
  "parseMGet RspBody = do {
     (buf, line) \<leftarrow> ReadLine (NewBuffer RspBody);
     rest \<leftarrow> slice (case line of Inl _ \<Rightarrow> [] | Inr l \<Rightarrow> l) 1 (int (length (case line of Inl _ \<Rightarrow> [] | Inr l \<Rightarrow> l)));
     let kLen = fst (parseLen rest);
     (if kLen < 0 then None else parseMGet_loop buf [])
   }"

section \<open>Replies\<close>

datatype reply =
    Status bytes
  | Error bytes
  | Integer bytes
  | Bulk bytes
  | Nil
  | Array "reply list"

fun enc_reply :: "reply \<Rightarrow> bytes" where
  "enc_reply (Status s) = CHR ''+'' # s @ CRLF"
| "enc_reply (Error s) = CHR ''-'' # s @ CRLF"
| "enc_reply (Integer s) = CHR '':'' # s @ CRLF"
| "enc_reply (Bulk s) = enc_bulk s"
| "enc_reply Nil = ''$-1'' @ CRLF"
| "enc_reply (Array rs) = enc_header (length rs) @ concat (map enc_reply rs)"

fun reply_ok :: "reply \<Rightarrow> bool" where
  "reply_ok (Status s) \<longleftrightarrow> LF \<notin> set s"
| "reply_ok (Error s) \<longleftrightarrow> LF \<notin> set s"
| "reply_ok (Integer s) \<longleftrightarrow> LF \<notin> set s"
| "reply_ok (Bulk s) \<longleftrightarrow> int (length s) < 2 ^ 63"
| "reply_ok Nil \<longleftrightarrow> True"
| "reply_ok (Array rs) \<longleftrightarrow> int (length rs) < 2 ^ 63 \<and> list_all reply_ok rs"

fun reply_type :: "reply \<Rightarrow> Command" where
  "reply_type (Status s) =
     (if HasPrefix (CHR ''+'' # s) ''+OK'' then RspOk
      else if HasPrefix (CHR ''+'' # s) ''+PONG'' then RspPong else RspStatus)"
| "reply_type (Error s) = error_type (CHR ''-'' # s)"
| "reply_type (Integer s) = RspInteger"
| "reply_type (Bulk s) = RspBulk"
| "reply_type Nil = RspBulk"
| "reply_type (Array rs) = RspMultibulk"

section \<open>Exact consumption\<close>

lemma status_type: "status_type line = Some (if HasPrefix line ''+OK'' then RspOk
   else if HasPrefix line ''+PONG'' then RspPong else RspStatus)"
  by (simp add: status_type_def ShortString_def OK_def PONG_def slice_def)

lemma ReadLine_typed:
  assumes "LF \<notin> set s" "c \<noteq> LF"
  shows "ReadLine (cursor pre ((c # s @ CRLF) @ rest)) = Some (cursor (pre @ c # s @ CRLF) rest, Inr (c # s))"
  using ReadLine_line [of "c # s" pre rest] assms by simp

lemma ReadLine_header:
  "ReadLine (cursor pre (enc_header n @ rest)) =
   Some (cursor (pre @ enc_header n) rest, Inr (CHR ''*'' # itoa_nat n))"
  using ReadLine_typed [OF itoa_nat_no_LF, of "CHR ''*''"] by (simp add: enc_header_def)

lemma ReadN_two: "ReadN (cursor pre (CRLF @ rest)) 2 = Some (cursor (pre @ CRLF) rest, Inr CRLF)"
  using ReadN_append [of CRLF rest pre] by simp

lemma length_enc_reply: "3 \<le> length (enc_reply r)"
  by (cases r) (simp_all add: enc_bulk_def enc_header_def Suc_le_eq)

lemma readReplies_enc:
  assumes "\<And>r pre rest k. r \<in> set rs \<Longrightarrow> 2 * length (enc_reply r) \<le> k + 2 \<Longrightarrow>
      \<exists>t. readReply k (cursor pre (enc_reply r @ rest)) = Some (cursor (pre @ enc_reply r) rest, Inr t)"
    and "2 * length (concat (map enc_reply rs)) \<le> k"
  shows "readReplies k (length rs) (cursor pre (concat (map enc_reply rs) @ rest)) =
    Some (cursor (pre @ concat (map enc_reply rs)) rest, Inr UNKNOWN)"
  using assms
proof (induction rs arbitrary: k pre)
  case (Cons r rs)
  have l: "3 \<le> length (enc_reply r)" by (rule length_enc_reply)
  with Cons.prems(2) obtain g where g: "k = Suc g" by (cases k) auto
  have "2 * length (enc_reply r) \<le> g + 2" using Cons.prems(2) g by simp
  from Cons.prems(1) [OF _ this, of pre "concat (map enc_reply rs) @ rest"] obtain t where
    1: "readReply g (cursor pre (enc_reply r @ concat (map enc_reply rs) @ rest)) =
      Some (cursor (pre @ enc_reply r) (concat (map enc_reply rs) @ rest), Inr t)" by auto
  have "2 * length (concat (map enc_reply rs)) \<le> g" using Cons.prems(2) g l by simp
  with Cons.IH [of g "pre @ enc_reply r"] Cons.prems(1)
  have "readReplies g (length rs) (cursor (pre @ enc_reply r) (concat (map enc_reply rs) @ rest)) =
      Some (cursor ((pre @ enc_reply r) @ concat (map enc_reply rs)) rest, Inr UNKNOWN)" by auto
  with 1 g show ?case by simp
qed simp

lemma readReply_enc:
  "reply_ok r \<Longrightarrow> 2 * length (enc_reply r) \<le> k + 2 \<Longrightarrow>
   readReply k (cursor pre (enc_reply r @ rest)) = Some (cursor (pre @ enc_reply r) rest, Inr (reply_type r))"
proof (induction r arbitrary: k pre rest)
  case (Array rs)
  obtain f where f: "k = Suc f" using Array.prems(2) length_enc_reply [of "Array rs"] by (cases k) auto
  let ?es = "concat (map enc_reply rs)"
  have hl: "4 \<le> length (enc_header (length rs))"
    by (cases "itoa_nat (length rs)") (simp_all add: enc_header_def)
  have "readReplies f (length rs) (cursor (pre @ enc_header (length rs)) (?es @ rest)) =
      Some (cursor ((pre @ enc_header (length rs)) @ ?es) rest, Inr UNKNOWN)"
  proof (rule readReplies_enc)
    show "2 * length ?es \<le> f" using Array.prems(2) hl f by simp
  qed (use Array in \<open>auto simp: list_all_iff\<close>)
  moreover have "parseLen (itoa_nat (length rs)) = (int (length rs), None)"
    by (rule parseLen_itoa) (use Array.prems(1) in simp)
  ultimately show ?case
    using ReadLine_header [of pre "length rs" "?es @ rest"] f by (simp add: idx_0)
next
  case (Bulk s)
  obtain f where f: "k = Suc f" using Bulk.prems(2) length_enc_reply [of "Bulk s"] by (cases k) auto
  have "parseLen (itoa_nat (length s)) = (int (length s), None)"
    by (rule parseLen_itoa) (use Bulk.prems(1) in simp)
  then show ?case
    using ReadLine_bulk [of pre s rest] f ReadN_two [of _ rest]
      ReadN_append [of s "CRLF @ rest" "pre @ CHR ''$'' # itoa_nat (length s) @ CRLF"]
    by (simp add: idx_def) (simp add: enc_bulk_def)
next
  case (Status s)
  then show ?case
    using ReadLine_typed [of s "CHR ''+''" pre rest] by (cases k) (auto simp: idx_0 status_type)
next
  case (Error s)
  then show ?case using ReadLine_typed [of s "CHR ''-''" pre rest] by (cases k) (auto simp: idx_0)
next
  case (Integer s)
  then show ?case using ReadLine_typed [of s "CHR '':''" pre rest] by (cases k) (auto simp: idx_0)
next
  case Nil
  then show ?case
    using ReadLine_typed [of "''-1''" "CHR ''$''" pre rest] by (cases k) (auto simp: idx_0 parseLen_minus_one)
qed

section \<open>Every input\<close>

text \<open>What a call that had enough fuel returns: a buffer over the same bytes, and after a success at
  least three bytes have been read.\<close>

definition returns :: "bytes \<Rightarrow> bytes \<Rightarrow> nat \<Rightarrow> (Buffer \<times> (err + Command)) go \<Rightarrow> bool" where
  "returns pre rest d m \<longleftrightarrow> (\<exists>pre' rest' res. m = Some (cursor pre' rest', res) \<and>
     pre' @ rest' = pre @ rest \<and> length pre \<le> length pre' \<and>
     ((\<exists>t. res = Inr t) \<longrightarrow> length rest' + d \<le> length rest))"

lemma returns_weaken: "returns pre rest d m \<Longrightarrow> d' \<le> d \<Longrightarrow> returns pre rest d' m"
  by (auto simp: returns_def) fastforce

lemma returns_here [simp]:
  "returns pre rest d (Some (cursor pre rest, Inl e))"
  "returns pre rest 0 (Some (cursor pre rest, res))"
  by (auto simp: returns_def cursor_inject)

lemma returns_shift:
  "returns (pre @ l) rest d' m \<Longrightarrow> d \<le> length l + d' \<Longrightarrow> returns pre (l @ rest) d m"
  by (auto simp: returns_def) (metis le_add1 le_trans, fastforce)

lemma returns_then:
  assumes "returns pre rest d m"
    and "\<And>pre' rest' t. pre' @ rest' = pre @ rest \<Longrightarrow> length pre \<le> length pre' \<Longrightarrow>
      length rest' + d \<le> length rest \<Longrightarrow> returns pre' rest' 0 (f (cursor pre' rest') t)"
  shows "returns pre rest d (and_then m f)"
proof -
  obtain pre' rest' res where m: "m = Some (cursor pre' rest', res)" "pre' @ rest' = pre @ rest"
    "length pre \<le> length pre'" "(\<exists>t. res = Inr t) \<longrightarrow> length rest' + d \<le> length rest"
    using assms(1) by (auto simp: returns_def)
  show ?thesis
  proof (cases res)
    case (Inr t)
    with m assms(2) [OF m(2,3), of t] have "returns pre' rest' 0 (f (cursor pre' rest') t)" by simp
    with m Inr show ?thesis by (fastforce simp: returns_def)
  qed (use m in \<open>auto simp: returns_def\<close>)
qed

lemma returns_ReadN:
  assumes "0 \<le> n" "\<And>x rest'. rest = x @ rest' \<Longrightarrow> n = int (length x) \<Longrightarrow>
      returns (pre @ x) rest' 0 (f (cursor (pre @ x) rest') x)"
  shows "returns pre rest 0 (and_then (ReadN (cursor pre rest) n) f)"
  using assms(1)
proof (cases rule: ReadN_cases [of n rest pre])
  case (taken x rest')
  then show ?thesis using returns_shift [OF assms(2) [OF taken(1,2)], of 0] by simp
qed simp_all

lemma readReply_returns_gen:
  "(2 * length rest < k \<longrightarrow> returns pre rest 3 (readReply k (cursor pre rest))) \<and>
   (2 * length rest + 1 < k \<longrightarrow> returns pre rest 0 (readReplies k n (cursor pre rest)))"
proof (induction k arbitrary: pre rest n)
  case (Suc k)
  have one: "returns pre rest 3 (readReply (Suc k) (cursor pre rest))" if k: "2 * length rest < Suc k" for pre rest
  proof (cases rule: ReadLine_cases [of rest pre])
    case (line l rest')
    have k': "2 * length rest' + 1 < k" using k line by (cases l) auto
    have body: "returns (pre @ l @ CRLF) rest' 0 (readReply (Suc k) (cursor pre rest))"
    proof -
      have bulk: "returns (pre @ l @ CRLF) rest' 0 (and_then (ReadN (cursor (pre @ l @ CRLF) rest') m)
          (\<lambda>buf _. and_then (ReadN buf 2) (\<lambda>buf crlf. do {
             c0 \<leftarrow> idx crlf 0; c1 \<leftarrow> idx crlf 1;
             Some (buf, if c0 \<noteq> CR \<or> c1 \<noteq> LF then Inl ErrInvalidResp else Inr RspBulk) })))"
        if "0 \<le> m" for m
        using that by (intro returns_ReadN) (auto simp: idx_def)
      have arr: "returns (pre @ l @ CRLF) rest' 0
          (and_then (readReplies k m (cursor (pre @ l @ CRLF) rest')) (\<lambda>buf _. Some (buf, Inr RspMultibulk)))" for m
        by (rule returns_then) (use Suc.IH k' in auto)
      show ?thesis
        using line bulk arr
        by (auto simp: idx_0 status_type split: option.split prod.split)
    qed
    from returns_shift [OF body] line show ?thesis by (cases l) auto
  qed (auto simp: returns_def cursor_inject)
  moreover have "returns pre rest 0 (readReplies (Suc k) n (cursor pre rest))"
    if k: "2 * length rest + 1 < Suc k" for pre rest n
  proof (cases n)
    case n: (Suc m)
    have "returns pre rest 3 (readReply k (cursor pre rest))" using Suc.IH [of rest pre] k by simp
    then have "returns pre rest 3 (and_then (readReply k (cursor pre rest)) (\<lambda>buf _. readReplies k m buf))"
      by (rule returns_then) (use Suc.IH k in auto)
    then show ?thesis using n by (simp add: returns_weaken)
  qed simp
  ultimately show ?case by blast
qed simp

lemma readReply_returns:
  "\<exists>pre' rest' res. S_readReply (cursor pre rest) = Some (cursor pre' rest', res) \<and>
     pre' @ rest' = pre @ rest \<and> ((\<exists>t. res = Inr t) \<longrightarrow> length pre + 3 \<le> length pre')"
proof -
  have "returns pre rest 3 (S_readReply (cursor pre rest))"
    using readReply_returns_gen [of rest "reply_fuel (cursor pre rest)" pre]
    by (simp add: S_readReply_def reply_fuel_def)
  then obtain pre' rest' res where r: "S_readReply (cursor pre rest) = Some (cursor pre' rest', res)"
    "pre' @ rest' = pre @ rest" "(\<exists>t. res = Inr t) \<longrightarrow> length rest' + 3 \<le> length rest"
    by (auto simp: returns_def)
  moreover have "length pre' + length rest' = length pre + length rest"
    using arg_cong [OF r(2), of length] by simp
  ultimately show ?thesis by (intro exI [of _ pre'] exI [of _ rest'] exI [of _ res]) auto
qed

section \<open>Partial replies\<close>

lemma ReadN_prefix:
  assumes "strict_prefix q (x @ CRLF)"
  obtains e where "ReadN (cursor pre q) (int (length x)) = Some (cursor pre q, Inl e)" "waits e"
  | q' e where "ReadN (cursor pre q) (int (length x)) = Some (cursor (pre @ x) q', Inr x)"
      "ReadN (cursor (pre @ x) q') 2 = Some (cursor (pre @ x) q', Inl e)" "waits e"
proof -
  have "(0::int) \<le> int (length x)" by simp
  then show ?thesis
  proof (cases rule: ReadN_cases [of "int (length x)" q pre])
    case nil
    with that(1) show ?thesis by (simp add: waits_def)
  next
    case short
    with that(1) show ?thesis by (simp add: waits_def)
  next
    case (taken y q')
    from assms taken(1) have "y = x" "strict_prefix q' CRLF"
      using taken(2) by (auto simp: strict_prefix_def prefix_def)
    then have "length q' < 2" using prefix_length_less by fastforce
    then have "\<exists>e. ReadN (cursor (pre @ x) q') 2 = Some (cursor (pre @ x) q', Inl e) \<and> waits e"
      using ReadN_nil ReadN_short [of q' 2] by (cases "q' = []") (auto simp: waits_def)
    with that(2) taken \<open>y = x\<close> show ?thesis by blast
  qed
qed

lemma readReply_line_prefix:
  assumes "LF \<notin> set p" "0 < k"
  shows "\<exists>buf e. readReply k (cursor pre p) = Some (buf, Inl e) \<and> waits e"
  using ReadLine_prefix [OF assms(1), of pre] assms(2) by (cases k) auto

lemma readReply_bulk_prefix:
  assumes "strict_prefix p (enc_bulk s)" "int (length s) < 2 ^ 63" "0 < k"
  shows "\<exists>buf e. readReply k (cursor pre p) = Some (buf, Inl e) \<and> waits e"
proof -
  define h where "h = CHR ''$'' # itoa_nat (length s)"
  have h: "LF \<notin> set h" "h \<noteq> []" "hd h = CHR ''$''" "parseLen (drop (Suc 0) h) = (int (length s), None)"
    using itoa_nat_no_LF parseLen_itoa [OF assms(2)] by (auto simp: h_def)
  have "strict_prefix p ((h @ CRLF) @ s @ CRLF)" using assms(1) by (simp add: enc_bulk_def h_def)
  then show ?thesis
  proof (cases rule: strict_prefix_append_cases)
    case 1
    from readReply_line_prefix [OF line_prefix_no_LF [OF 1 h(1)] assms(3)] show ?thesis .
  next
    case (2 q)
    have rl: "ReadLine (cursor pre p) = Some (cursor (pre @ h @ CRLF) q, Inr h)"
      using ReadLine_line [OF h(1,2), of pre q] 2(1) by simp
    from 2(2) show ?thesis
    proof (cases rule: ReadN_prefix [of q s "pre @ h @ CRLF"])
      case (1 e)
      with rl h assms(3) show ?thesis by (cases k) (auto simp: idx_0)
    next
      case (2 q' e)
      with rl h assms(3) show ?thesis by (cases k) (auto simp: idx_0)
    qed
  qed
qed

lemma readReplies_prefix:
  assumes "\<And>r p pre k. r \<in> set rs \<Longrightarrow> strict_prefix p (enc_reply r) \<Longrightarrow> 2 * length p < k \<Longrightarrow>
      \<exists>buf e. readReply k (cursor pre p) = Some (buf, Inl e) \<and> waits e"
    and "\<forall>r \<in> set rs. reply_ok r" "strict_prefix q (concat (map enc_reply rs))" "2 * length q + 1 < k"
  shows "\<exists>buf e. readReplies k (length rs) (cursor pre q) = Some (buf, Inl e) \<and> waits e"
  using assms
proof (induction rs arbitrary: k pre q)
  case (Cons r rs)
  obtain g where g: "k = Suc g" using Cons.prems(4) by (cases k) auto
  from Cons.prems(3) have "strict_prefix q (enc_reply r @ concat (map enc_reply rs))" by simp
  then show ?case
  proof (cases rule: strict_prefix_append_cases)
    case 1
    from Cons.prems(1) [OF _ this, of g pre] Cons.prems(4) g show ?thesis by auto
  next
    case (2 q')
    have "readReply g (cursor pre (enc_reply r @ q')) = Some (cursor (pre @ enc_reply r) q', Inr (reply_type r))"
      by (rule readReply_enc) (use Cons.prems(2,4) 2(1) g in auto)
    moreover have "\<exists>buf e. readReplies g (length rs) (cursor (pre @ enc_reply r) q') = Some (buf, Inl e) \<and> waits e"
    proof (rule Cons.IH)
      show "\<exists>buf e. readReply j (cursor pr p) = Some (buf, Inl e) \<and> waits e"
        if "r' \<in> set rs" "strict_prefix p (enc_reply r')" "2 * length p < j" for r' p pr j
        using Cons.prems(1) [of r' p j pr] that by simp
    qed (use Cons.prems(2-4) 2 g length_enc_reply [of r] in auto)
    ultimately show ?thesis using 2(1) g by auto
  qed
qed simp

lemma readReply_prefix:
  "reply_ok r \<Longrightarrow> strict_prefix p (enc_reply r) \<Longrightarrow> 2 * length p < k \<Longrightarrow>
   \<exists>buf e. readReply k (cursor pre p) = Some (buf, Inl e) \<and> waits e"
proof (induction r arbitrary: p k pre)
  case (Array rs)
  obtain f where f: "k = Suc f" using Array.prems(3) by (cases k) auto
  define h where "h = CHR ''*'' # itoa_nat (length rs)"
  have h: "LF \<notin> set h" "h \<noteq> []" "hd h = CHR ''*''" "parseLen (drop (Suc 0) h) = (int (length rs), None)"
    using itoa_nat_no_LF parseLen_itoa [of "length rs"] Array.prems(1) by (auto simp: h_def)
  have "strict_prefix p ((h @ CRLF) @ concat (map enc_reply rs))"
    using Array.prems(2) by (simp add: enc_header_def h_def)
  then show ?case
  proof (cases rule: strict_prefix_append_cases)
    case 1
    show ?thesis by (rule readReply_line_prefix [OF line_prefix_no_LF [OF 1 h(1)]]) (use f in simp)
  next
    case (2 q)
    have "ReadLine (cursor pre p) = Some (cursor (pre @ h @ CRLF) q, Inr h)"
      using ReadLine_line [OF h(1,2), of pre q] 2(1) by simp
    moreover have "\<exists>buf e. readReplies f (length rs) (cursor (pre @ h @ CRLF) q) = Some (buf, Inl e) \<and> waits e"
      by (rule readReplies_prefix) (use Array 2 f in \<open>auto simp: list_all_iff\<close>)
    ultimately show ?thesis using f h by (auto simp: idx_0)
  qed
next
  case (Bulk s)
  from readReply_bulk_prefix Bulk show ?case by simp
next
  case (Status s)
  then show ?case using line_prefix_no_LF [of p "CHR ''+'' # s"] readReply_line_prefix by simp
next
  case (Error s)
  then show ?case using line_prefix_no_LF [of p "CHR ''-'' # s"] readReply_line_prefix by simp
next
  case (Integer s)
  then show ?case using line_prefix_no_LF [of p "CHR '':'' # s"] readReply_line_prefix by simp
next
  case Nil
  then show ?case using line_prefix_no_LF [of p "''$-1''"] readReply_line_prefix by simp
qed

section \<open>Splitting the reply to an mget\<close>

fun is_value :: "reply \<Rightarrow> bool" where
  "is_value (Bulk s) \<longleftrightarrow> int (length s) < 2 ^ 63"
| "is_value Nil \<longleftrightarrow> True"
| "is_value _ \<longleftrightarrow> False"

lemma parseMGet_loop_value:
  assumes "is_value r"
  shows "parseMGet_loop (cursor pre (enc_reply r @ rest)) msg =
    parseMGet_loop (cursor (pre @ enc_reply r) rest) (msg @ [enc_reply r])"
proof (cases r)
  case Nil
  have "ReadLine (cursor pre ((CHR ''$'' # ''-1'' @ CRLF) @ rest)) =
      Some (cursor (pre @ CHR ''$'' # ''-1'' @ CRLF) rest, Inr (CHR ''$'' # ''-1''))"
    by (rule ReadLine_typed) simp_all
  then show ?thesis
    using Nil by (subst parseMGet_loop.simps) (simp add: slice_def parseLen_minus_one)
next
  case (Bulk s)
  have "parseLen (itoa_nat (length s)) = (int (length s), None)"
    by (rule parseLen_itoa) (use assms Bulk in simp)
  then show ?thesis
    using Bulk ReadLine_bulk [of pre s rest] ReadN_two [of _ rest]
      ReadN_append [of s "CRLF @ rest" "pre @ CHR ''$'' # itoa_nat (length s) @ CRLF"]
    by (subst parseMGet_loop.simps) (simp add: slice_def, simp add: enc_bulk_def)
qed (use assms in simp_all)

lemma parseMGet_loop_values:
  "list_all is_value rs \<Longrightarrow>
   parseMGet_loop (cursor pre (concat (map enc_reply rs))) msg = Some (msg @ map enc_reply rs)"
proof (induction rs arbitrary: pre msg)
  case Nil
  show ?case by (subst parseMGet_loop.simps) (simp add: ReadLine_nil)
next
  case (Cons r rs)
  then show ?case by (simp add: parseMGet_loop_value)
qed

lemma parseMGet_array:
  assumes "list_all is_value rs" "int (length rs) < 2 ^ 63"
  shows "parseMGet (enc_reply (Array rs)) = Some (map enc_reply rs)"
proof -
  have "parseLen (itoa_nat (length rs)) = (int (length rs), None)"
    using assms(2) by (rule parseLen_itoa)
  then show ?thesis
    using ReadLine_header [of "[]" "length rs" "concat (map enc_reply rs)"]
      parseMGet_loop_values [OF assms(1)]
    by (simp add: parseMGet_def NewBuffer_cursor slice_def)
qed

text \<open>An error reply to an \<open>mget\<close> fragment makes the proxy panic.\<close>

lemma parseMGet_error_panics: "parseMGet (enc_reply (Error ''ERR x'')) = None"
proof -
  have "parseLen ''ERR x'' = (-1, Some ErrInvalidResp)"
    by (simp add: parseLen_def is_digit_def)
  moreover have "ReadLine (cursor [] ((CHR ''-'' # ''ERR x'' @ CRLF) @ [])) =
      Some (cursor ([] @ CHR ''-'' # ''ERR x'' @ CRLF) [], Inr (CHR ''-'' # ''ERR x''))"
    by (rule ReadLine_typed) simp_all
  ultimately show ?thesis by (simp add: parseMGet_def NewBuffer_cursor slice_def)
qed

lemma S_readReply_enc:
  assumes "reply_ok r"
  shows "S_readReply (NewBuffer (enc_reply r @ rest)) = Some (cursor (enc_reply r) rest, Inr (reply_type r))"
proof -
  have "readReply (reply_fuel (cursor [] (enc_reply r @ rest))) (cursor [] (enc_reply r @ rest)) =
      Some (cursor ([] @ enc_reply r) rest, Inr (reply_type r))"
    by (rule readReply_enc [OF assms]) (simp add: reply_fuel_def)
  then show ?thesis by (simp add: S_readReply_def NewBuffer_cursor)
qed

lemma S_readReply_prefix:
  assumes "reply_ok r" "strict_prefix p (enc_reply r)"
  shows "\<exists>buf e. S_readReply (NewBuffer p) = Some (buf, Inl e) \<and> waits e"
  using readReply_prefix [OF assms, of "reply_fuel (cursor [] p)" "[]"]
  by (auto simp: S_readReply_def reply_fuel_def NewBuffer_cursor)

section \<open>Stated properties\<close>



text \<open>C16: on a proper prefix of an encoded reply the proxy waits for more bytes.\<close>

theorem partial_reply_waits:
  assumes "reply_ok r" "strict_prefix p (enc_reply r)"
  shows "\<exists>buf e. S_readReply (NewBuffer p) = Some (buf, Inl e) \<and>
    e \<notin> {ErrUnKnown, ErrInvalidResp, ErrInvalidInitializing, MovedOrAsk, Continue}"
  using S_readReply_prefix [OF assms] by (auto simp: waits_def)

theorem partial_reply_waits_witness:
  "\<exists>buf e. S_readReply (NewBuffer ''+O'') = Some (buf, Inl e) \<and>
    e \<notin> {ErrUnKnown, ErrInvalidResp, ErrInvalidInitializing, MovedOrAsk, Continue}"
  using partial_reply_waits [of "Status ''OK''" "''+O''"] by simp

text \<open>
  C17: the reader returns on every sequence of bytes (the fuel suffices and nothing panics), and a reply
  it accepts has at least three bytes, so that the read loop makes progress.
\<close>

theorem readReply_terminates:
  "\<exists>pre rest res. S_readReply (NewBuffer bs) = Some (cursor pre rest, res) \<and> pre @ rest = bs \<and>
     ((\<exists>t. res = Inr t) \<longrightarrow> 3 \<le> length pre)"
  using readReply_returns [of "[]" bs] by (simp add: NewBuffer_cursor)

theorem readReply_terminates_witness:
  "\<exists>pre rest res. S_readReply (NewBuffer ''*1x'') = Some (cursor pre rest, res) \<and> pre @ rest = ''*1x'' \<and>
     ((\<exists>t. res = Inr t) \<longrightarrow> 3 \<le> length pre)"
  using readReply_terminates [of "''*1x''"] by simp

text \<open>
  C18: the reply to an \<open>mget\<close> fragment is cut into the encodings of its elements, one per key, in
  order, missing values included.
\<close>

theorem mget_reply_split:
  assumes "list_all is_value rs" "int (length rs) < 2 ^ 63"
  shows "parseMGet (enc_reply (Array rs)) = Some (map enc_reply rs)"
  using assms by (rule parseMGet_array)

theorem mget_reply_split_witness:
  "parseMGet (enc_reply (Array [Bulk ''a'', Nil])) = Some [enc_reply (Bulk ''a''), enc_reply Nil]"
  using mget_reply_split [of "[Bulk ''a'', Nil]"] by simp

end
