(* ===== verification/Redis_Client.thy ===== *)
theory Redis_Client
  imports Server_Codec
begin

text \<open>
  The small Redis client of \<^verbatim>\<open>src/core/pkg/redis/conn.go\<close>, which the proxy uses to probe nodes
  (\<open>PING\<close>) and to ask them for their state (\<open>INFO\<close>).

  The network is part of the connection record: \<open>rc_in\<close> are the bytes the server will still deliver
  before the connection ends or a read deadline passes, \<open>rc_net\<close> tells whether writes reach the
  server, \<open>rc_out\<close> collects them. \<open>rc_buf\<close> is the content of the \<open>bufio.Writer\<close>. Deadlines are set on
  the network connection, which fails exactly when it is closed. An error once reported by \<open>fatal\<close>
  stays in the connection.

  The lemmas show that a command is sent as the array of bulk strings Redis expects and that a reply
  is read back as the value the server encoded, with exactly its bytes consumed.
\<close>

section \<open>State\<close>

datatype rerr =
    Protocol string | NetError | ReplyError bytes | ClosedConn | InfoError string

datatype rvalue =
    VNil | VStr bytes | VErr bytes | VInt int | VBulk bytes | VArr "rvalue list"

record rconn =
  rc_err :: "rerr option"
  rc_closed :: bool
  rc_pending :: int
  rc_in :: bytes
  rc_buf :: bytes
  rc_bwerr :: bool
  rc_out :: bytes
  rc_net :: bool

record Info =
  i_Version :: string
  i_Loading :: bool
  i_MasterLinkStatus :: string

text \<open>An argument of a command; floats and other types carry the text Go prints for them.\<close>

datatype rarg =
    AStr string | ABytes bytes | AInt int | AFloat string | ABool bool | ANil
  | AArgument rarg string | AOther string

section \<open>Buffered writing\<close>

definition bwSize :: nat where "bwSize = 4096 * 10"

text \<open>\<open>bufio.Writer.Flush\<close> and \<open>bufio.Writer.Write\<close>; the flag is the writer's sticky error.\<close>

definition bw_Flush :: "rconn \<Rightarrow> rconn \<times> bool" where
  "bw_Flush c =
     (if rc_bwerr c then (c, True)
      else if rc_buf c = [] then (c, False)
      else if rc_net c \<and> \<not> rc_closed c then (c\<lparr>rc_out := rc_out c @ rc_buf c, rc_buf := []\<rparr>, False)
      else (c\<lparr>rc_bwerr := True\<rparr>, True))"

definition bw_direct :: "rconn \<Rightarrow> bytes \<Rightarrow> rconn \<times> bool" where
  "bw_direct c p =
     (if rc_net c \<and> \<not> rc_closed c then (c\<lparr>rc_out := rc_out c @ p\<rparr>, False) else (c\<lparr>rc_bwerr := True\<rparr>, True))"

definition bw_Write :: "rconn \<Rightarrow> bytes \<Rightarrow> rconn \<times> bool" where
  "bw_Write c p =
     (if rc_bwerr c then (c, True)
      else
        (let avail = bwSize - length (rc_buf c) in
         if length p \<le> avail then (c\<lparr>rc_buf := rc_buf c @ p\<rparr>, False)
         else if rc_buf c = [] then bw_direct c p
         else
           (case bw_Flush (c\<lparr>rc_buf := rc_buf c @ take avail p\<rparr>) of
              (c, True) \<Rightarrow> (c, True)
            | (c, False) \<Rightarrow>
                (let p = drop avail p in
                 if length p \<le> bwSize then (c\<lparr>rc_buf := p\<rparr>, False) else bw_direct c p))))"

definition rc_fatal :: "rconn \<Rightarrow> rerr \<Rightarrow> rconn" where
  "rc_fatal c e = (if rc_err c = None then c\<lparr>rc_err := Some e, rc_closed := True\<rparr> else c)"

definition rc_Close :: "rconn \<Rightarrow> rconn \<times> rerr option" where
  "rc_Close c =
     (if rc_err c = None then (c\<lparr>rc_err := Some ClosedConn, rc_closed := True\<rparr>, None) else (c, rc_err c))"

section \<open>Commands\<close>

text \<open>
  The digits of a length, written from the last to the first into the scratch array before the line
  end; \<open>acc\<close> is what the array holds behind the write position.
\<close>

fun writeLen_loop :: "nat \<Rightarrow> bytes \<Rightarrow> bytes" where
  "writeLen_loop n acc =
     (let acc = digit_char (n mod 10) # acc; n = n div 10
      in if n = 0 then acc else writeLen_loop n acc)"

declare writeLen_loop.simps [simp del]

definition writeLen :: "rconn \<Rightarrow> byte \<Rightarrow> nat \<Rightarrow> rconn \<times> bool" where
  "writeLen c t n = bw_Write c (t # writeLen_loop n CRLF)"

definition writeBytes :: "rconn \<Rightarrow> bytes \<Rightarrow> rconn \<times> bool" where
  "writeBytes c p =
     (case writeLen c (CHR ''$'') (length p) of
        (c, True) \<Rightarrow> (c, True)
      | (c, False) \<Rightarrow> (case bw_Write c p of (c, True) \<Rightarrow> (c, True) | (c, False) \<Rightarrow> bw_Write c CRLF))"

definition writeString :: "rconn \<Rightarrow> string \<Rightarrow> rconn \<times> bool" where
  "writeString c s =
     (case writeLen c (CHR ''$'') (length s) of
        (c, True) \<Rightarrow> (c, True)
      | (c, False) \<Rightarrow> (case bw_Write c s of (c, True) \<Rightarrow> (c, True) | (c, False) \<Rightarrow> bw_Write c CRLF))"

definition writeInt64 :: "rconn \<Rightarrow> int \<Rightarrow> rconn \<times> bool" where
  "writeInt64 c n = writeBytes c (itoa n)"

definition writeFloat64 :: "rconn \<Rightarrow> string \<Rightarrow> rconn \<times> bool" where
  "writeFloat64 c s = writeBytes c s"

fun writeArg :: "rconn \<Rightarrow> rarg \<Rightarrow> bool \<Rightarrow> rconn \<times> bool" where
  "writeArg c (AStr s) ok = writeString c s"
| "writeArg c (ABytes p) ok = writeBytes c p"
| "writeArg c (AInt n) ok = writeInt64 c n"
| "writeArg c (AFloat s) ok = writeFloat64 c s"
| "writeArg c (ABool b) ok = writeString c (if b then ''1'' else ''0'')"
| "writeArg c ANil ok = writeString c ''''"
| "writeArg c (AArgument a s) ok = (if ok then writeArg c a False else writeBytes c s)"
| "writeArg c (AOther s) ok = writeBytes c s"

fun writeArgs :: "rconn \<Rightarrow> rarg list \<Rightarrow> rconn \<times> bool" where
  "writeArgs c [] = (c, False)"
| "writeArgs c (a # as) = (case writeArg c a True of (c, True) \<Rightarrow> (c, True) | (c, False) \<Rightarrow> writeArgs c as)"

definition writeCommand :: "rconn \<Rightarrow> string \<Rightarrow> rarg list \<Rightarrow> rconn \<times> bool" where
  "writeCommand c cmd args =
     (case writeLen c (CHR ''*'') (1 + length args) of
        (c, True) \<Rightarrow> (c, True)
      | (c, False) \<Rightarrow> (case writeString c cmd of (c, True) \<Rightarrow> (c, True) | (c, False) \<Rightarrow> writeArgs c args))"

section \<open>Replies\<close>

definition rc_readLine :: "rconn \<Rightarrow> rconn \<times> (rerr + bytes)" where
  "rc_readLine c =
     (if LF \<notin> set (rc_in c) then (c\<lparr>rc_in := []\<rparr>, Inl NetError)
      else
        (let n = nat (IndexByte (rc_in c) LF) + 1; p = take n (rc_in c); c = c\<lparr>rc_in := drop n (rc_in c)\<rparr>; i = length p - 2
         in if length p < 2 \<or> p ! i \<noteq> CR then (c, Inl (Protocol ''bad response line terminator''))
            else (c, Inr (take i p))))"

fun rc_digits :: "int \<Rightarrow> bytes \<Rightarrow> rerr + int" where
  "rc_digits n [] = Inr n"
| "rc_digits n (b # p) =
     (let n = wrap64 (n * 10) in
      if \<not> is_digit b then Inl (Protocol ''illegal bytes in length'')
      else rc_digits (wrap64 (n + digit_val b)) p)"

definition rc_parseLen :: "bytes \<Rightarrow> rerr + int" where
  "rc_parseLen p =
     (if length p = 0 then Inl (Protocol ''malformed length'')
      else if p ! 0 = CHR ''-'' \<and> length p = 2 \<and> p ! 1 = CHR ''1'' then Inr (- 1)
      else rc_digits 0 p)"

definition rc_parseInt :: "bytes \<Rightarrow> rerr + rvalue" where
  "rc_parseInt p =
     (if length p = 0 then Inl (Protocol ''malformed integer'')
      else
        (let negate = (p ! 0 = CHR ''-''); p = (if negate then drop 1 p else p) in
         if length p = 0 then Inl (Protocol ''malformed integer'')
         else case rc_digits 0 p of Inl e \<Rightarrow> Inl e | Inr n \<Rightarrow> Inr (VInt (if negate then wrap64 (- n) else n))))"

text \<open>
  \<open>readReply\<close>. A slice of more bytes than the address space holds makes \<open>make\<close> panic. The fuel bounds
  the depth of calls; every call that goes deeper has read a line before.
\<close>

definition maxAlloc :: int where "maxAlloc = 2 ^ 48"

fun rc_readReply :: "nat \<Rightarrow> rconn \<Rightarrow> (rconn \<times> (rerr + rvalue)) go"
  and rc_readReplies :: "nat \<Rightarrow> nat \<Rightarrow> rconn \<Rightarrow> (rconn \<times> (rerr + rvalue list)) go" where
  "rc_readReply 0 c = None"
| "rc_readReply (Suc fuel) c =
     (case rc_readLine c of
        (c, Inl e) \<Rightarrow> Some (c, Inl e)
      | (c, Inr []) \<Rightarrow> Some (c, Inl (Protocol ''short response line''))
      | (c, Inr (t # line)) \<Rightarrow>
          if t = CHR ''+'' then Some (c, Inr (VStr line))
          else if t = CHR ''-'' then Some (c, Inr (VErr line))
          else if t = CHR '':'' then Some (c, rc_parseInt line)
          else if t = CHR ''$'' then
            (case rc_parseLen line of
               Inl e \<Rightarrow> Some (c, Inl e)
             | Inr n \<Rightarrow>
                 if n < 0 then Some (c, Inr VNil)
                 else if n > maxAlloc then None
                 else if length (rc_in c) < nat n then Some (c\<lparr>rc_in := []\<rparr>, Inl NetError)
                 else
                   (let p = take (nat n) (rc_in c); c = c\<lparr>rc_in := drop (nat n) (rc_in c)\<rparr> in
                    case rc_readLine c of
                      (c, Inl e) \<Rightarrow> Some (c, Inl e)
                    | (c, Inr l) \<Rightarrow> Some (c, if l \<noteq> [] then Inl (Protocol ''bad bulk string format'') else Inr (VBulk p))))
          else if t = CHR ''*'' then
            (case rc_parseLen line of
               Inl e \<Rightarrow> Some (c, Inl e)
             | Inr n \<Rightarrow>
                 if n < 0 then Some (c, Inr VNil)
                 else if 16 * n > maxAlloc then None
                 else do {
                   (c, r) \<leftarrow> rc_readReplies fuel (nat n) c;
                   Some (c, case r of Inl e \<Rightarrow> Inl e | Inr vs \<Rightarrow> Inr (VArr vs))
                 })
          else Some (c, Inl (Protocol ''unexpected response line'')))"
| "rc_readReplies fuel 0 c = Some (c, Inr [])"
| "rc_readReplies 0 (Suc n) c = None"
| "rc_readReplies (Suc fuel) (Suc n) c = do {
     (c, r) \<leftarrow> rc_readReply fuel c;
     (case r of
        Inl e \<Rightarrow> Some (c, Inl e)
      | Inr v \<Rightarrow> do {
          (c, r) \<leftarrow> rc_readReplies fuel n c;
          Some (c, case r of Inl e \<Rightarrow> Inl e | Inr vs \<Rightarrow> Inr (v # vs))
        })
   }"

definition rc_fuel :: "rconn \<Rightarrow> nat" where
  "rc_fuel c = 2 * length (rc_in c) + 2"

section \<open>Operations\<close>

definition rc_Send :: "int \<Rightarrow> rconn \<Rightarrow> string \<Rightarrow> rarg list \<Rightarrow> rconn \<times> rerr option" where
  "rc_Send writeTimeout c cmd args =
     (let c = c\<lparr>rc_pending := rc_pending c + 1\<rparr> in
      if writeTimeout \<noteq> 0 \<and> rc_closed c then (rc_fatal c NetError, Some NetError)
      else (case writeCommand c cmd args of
          (c, True) \<Rightarrow> (rc_fatal c NetError, Some NetError)
        | (c, False) \<Rightarrow> (c, None)))"

definition rc_Flush :: "int \<Rightarrow> rconn \<Rightarrow> rconn \<times> rerr option" where
  "rc_Flush writeTimeout c =
     (if writeTimeout \<noteq> 0 \<and> rc_closed c then (rc_fatal c NetError, Some NetError)
      else (case bw_Flush c of
          (c, True) \<Rightarrow> (rc_fatal c NetError, Some NetError)
        | (c, False) \<Rightarrow> (c, None)))"

definition rc_Receive :: "rconn \<Rightarrow> (rconn \<times> (rerr + rvalue)) go" where
  "rc_Receive c =
     (if rc_closed c then Some (rc_fatal c NetError, Inl NetError)
      else do {
        (c, r) \<leftarrow> rc_readReply (rc_fuel c) c;
        (case r of
           Inl e \<Rightarrow> Some (rc_fatal c e, Inl e)
         | Inr v \<Rightarrow>
             (let c = (if rc_pending c > 0 then c\<lparr>rc_pending := rc_pending c - 1\<rparr> else c)
              in Some (c, case v of VErr e \<Rightarrow> Inl (ReplyError e) | _ \<Rightarrow> Inr v)))
      })"

text \<open>The loop of \<open>DoWithTimeout\<close> that reads the outstanding replies; the first error reply is kept.\<close>

fun do_replies :: "nat \<Rightarrow> rconn \<Rightarrow> rvalue \<Rightarrow> rerr option \<Rightarrow> (rconn \<times> (rerr + rvalue \<times> rerr option)) go" where
  "do_replies 0 c reply e = Some (c, Inr (reply, e))"
| "do_replies (Suc n) c reply e = do {
     (c, r) \<leftarrow> rc_readReply (rc_fuel c) c;
     (case r of
        Inl e' \<Rightarrow> Some (rc_fatal c e', Inl e')
      | Inr v \<Rightarrow> do_replies n c v (case v of VErr t \<Rightarrow> if e = None then Some (ReplyError t) else e | _ \<Rightarrow> e))
   }"

definition rc_Do :: "int \<Rightarrow> rconn \<Rightarrow> string \<Rightarrow> rarg list \<Rightarrow> (rconn \<times> rvalue \<times> rerr option) go" where
  "rc_Do writeTimeout c cmd args =
     (let pending = rc_pending c; c = c\<lparr>rc_pending := 0\<rparr> in
      if cmd = '''' \<and> pending = 0 then Some (c, VNil, None)
      else if writeTimeout \<noteq> 0 \<and> rc_closed c then Some (rc_fatal c NetError, VNil, Some NetError)
      else (case writeCommand c cmd args of
          (c, True) \<Rightarrow> Some (rc_fatal c NetError, VNil, Some NetError)
        | (c, False) \<Rightarrow>
            (case bw_Flush c of
               (c, True) \<Rightarrow> Some (rc_fatal c NetError, VNil, Some NetError)
             | (c, False) \<Rightarrow>
                 if rc_closed c then Some (rc_fatal c NetError, VNil, Some NetError)
                 else do {
                   (c, r) \<leftarrow> do_replies (nat (pending + 1)) c VNil None;
                   Some (case r of Inl e \<Rightarrow> (c, VNil, Some e) | Inr (reply, e) \<Rightarrow> (c, reply, e))
                 })))"

text \<open>\<open>Dial\<close> on a network connection that is established.\<close>

definition rc_Dial :: "bytes \<Rightarrow> bool \<Rightarrow> string \<Rightarrow> (rconn \<times> rerr option) go" where
  "rc_Dial input net passwd =
     (let c = \<lparr>rc_err = None, rc_closed = False, rc_pending = 0, rc_in = input, rc_buf = [], rc_bwerr = False,
               rc_out = [], rc_net = net\<rparr>
      in if passwd \<noteq> '''' then do {
           (c, _, e) \<leftarrow> rc_Do 3 c ''AUTH'' [AStr passwd];
           Some (if e \<noteq> None then (c\<lparr>rc_closed := True\<rparr>, e) else (c, None))
         }
         else Some (c, None))"

definition info_line :: "Info \<Rightarrow> bytes \<Rightarrow> Info" where
  "info_line info line =
     (let info = (if HasPrefix line ''loading:''
            then info\<lparr>i_Loading := TrimSpace (TrimPrefix line ''loading:'') \<noteq> ''0''\<rparr> else info);
          info = (if HasPrefix line ''master_link_status:''
            then info\<lparr>i_MasterLinkStatus := TrimSpace (TrimPrefix line ''master_link_status:'')\<rparr> else info)
      in if HasPrefix line ''redis_version:''
         then info\<lparr>i_Version := TrimSpace (TrimPrefix line ''redis_version:'')\<rparr> else info)"

definition parse_info :: "bytes \<Rightarrow> Info" where
  "parse_info msg = foldl info_line \<lparr>i_Version = [], i_Loading = False, i_MasterLinkStatus = []\<rparr>
     (Split (drop (nat (IndexByte msg LF + 1)) msg) CRLF)"

definition rc_Info :: "rconn \<Rightarrow> (rconn \<times> (rerr + Info)) go" where
  "rc_Info c = do {
     (c, i, e) \<leftarrow> rc_Do 3 c ''info'' [];
     Some (c, case e of
         Some e \<Rightarrow> Inl e
       | None \<Rightarrow>
           (case i of
              VBulk msg \<Rightarrow>
                if length msg < 1 then Inl (InfoError ''redis info empty'')
                else if msg ! 0 = CHR ''-'' then Inl (InfoError (''redis info error, ret msg: '' @ msg))
                else Inr (parse_info msg)
            | _ \<Rightarrow> Inl (InfoError ''redis info asset error'')))
   }"

section \<open>What is sent\<close>

text \<open>
  A connection whose network works, and the same connection after more bytes have been written: they
  are all in the network or in the buffer, in order.
\<close>

definition sending :: "rconn \<Rightarrow> bool" where
  "sending c \<longleftrightarrow> rc_net c \<and> \<not> rc_closed c \<and> \<not> rc_bwerr c \<and> length (rc_buf c) \<le> bwSize"

definition more_sent :: "rconn \<Rightarrow> bytes \<Rightarrow> rconn \<times> bool \<Rightarrow> bool" where
  "more_sent c p r \<longleftrightarrow> (\<exists>buf out. r = (c\<lparr>rc_buf := buf, rc_out := out\<rparr>, False) \<and> length buf \<le> bwSize \<and>
     out @ buf = rc_out c @ rc_buf c @ p)"

lemma more_sentE:
  assumes "more_sent c p r" "sending c"
  obtains c' where "r = (c', False)" "sending c'" "\<forall>q r'. more_sent c' q r' \<longrightarrow> more_sent c (p @ q) r'"
proof -
  from assms(1) obtain buf out where
    r: "r = (c\<lparr>rc_buf := buf, rc_out := out\<rparr>, False)" "length buf \<le> bwSize" "out @ buf = rc_out c @ rc_buf c @ p"
    by (auto simp: more_sent_def)
  have "more_sent c (p @ q) r'" if "more_sent (c\<lparr>rc_buf := buf, rc_out := out\<rparr>) q r'" for q r'
  proof -
    from that obtain buf' out' where "r' = (c\<lparr>rc_buf := buf', rc_out := out'\<rparr>, False)" "length buf' \<le> bwSize"
      "out' @ buf' = out @ buf @ q" by (auto simp: more_sent_def)
    moreover have "out @ buf @ q = rc_out c @ rc_buf c @ p @ q" using r(3) by (metis append_assoc)
    ultimately show ?thesis by (auto simp: more_sent_def)
  qed
  moreover have "sending (c\<lparr>rc_buf := buf, rc_out := out\<rparr>)" using assms(2) r(2) by (simp add: sending_def)
  ultimately show ?thesis using that r(1) by blast
qed

lemma more_sentI:
  "r = (c', False) \<Longrightarrow> c' = c\<lparr>rc_buf := rc_buf c', rc_out := rc_out c'\<rparr> \<Longrightarrow> length (rc_buf c') \<le> bwSize \<Longrightarrow>
   rc_out c' @ rc_buf c' = rc_out c @ rc_buf c @ p \<Longrightarrow> more_sent c p r"
  unfolding more_sent_def by blast

lemma bw_Write_sent: "sending c \<Longrightarrow> more_sent c p (bw_Write c p)"
  by (rule more_sentI [of _ "fst (bw_Write c p)"])
    (auto simp: sending_def bw_Write_def bw_Flush_def bw_direct_def Let_def)

lemma writeLen_loop_itoa: "writeLen_loop n acc = itoa_nat n @ acc"
proof (induction n acc rule: writeLen_loop.induct)
  case (1 n acc)
  then show ?case
    by (subst writeLen_loop.simps, subst itoa_nat.simps) (auto simp: Let_def)
qed

lemma writeLen_sent: "sending c \<Longrightarrow> more_sent c (t # itoa_nat n @ CRLF) (writeLen c t n)"
  by (simp add: writeLen_def writeLen_loop_itoa bw_Write_sent)

lemma writeBytes_sent:
  assumes "sending c"
  shows "more_sent c (enc_bulk p) (writeBytes c p)"
proof -
  obtain c1 where c1: "writeLen c (CHR ''$'') (length p) = (c1, False)" "sending c1"
    "\<forall>q r. more_sent c1 q r \<longrightarrow> more_sent c ((CHR ''$'' # itoa_nat (length p) @ CRLF) @ q) r"
    by (rule more_sentE [OF writeLen_sent [OF assms, of "CHR ''$''" "length p"] assms])
  obtain c2 where c2: "bw_Write c1 p = (c2, False)" "sending c2"
    "\<forall>q r. more_sent c2 q r \<longrightarrow> more_sent c1 (p @ q) r"
    by (rule more_sentE [OF bw_Write_sent [OF c1(2)] c1(2)])
  from c1(3) [rule_format, OF c2(3) [rule_format, OF bw_Write_sent [OF c2(2)]]] c1(1) c2(1) show ?thesis
    by (simp add: writeBytes_def enc_bulk_def itoa_def)
qed

lemma writeString_sent: "sending c \<Longrightarrow> more_sent c (enc_bulk s) (writeString c s)"
  using writeBytes_sent [of c s] by (simp add: writeBytes_def writeString_def)

text \<open>The bytes an argument is sent as.\<close>

fun arg_bytes :: "rarg \<Rightarrow> bool \<Rightarrow> bytes" where
  "arg_bytes (AStr s) ok = s"
| "arg_bytes (ABytes p) ok = p"
| "arg_bytes (AInt n) ok = itoa n"
| "arg_bytes (AFloat s) ok = s"
| "arg_bytes (ABool b) ok = (if b then ''1'' else ''0'')"
| "arg_bytes ANil ok = []"
| "arg_bytes (AArgument a s) ok = (if ok then arg_bytes a False else s)"
| "arg_bytes (AOther s) ok = s"

lemma writeArg_sent: "sending c \<Longrightarrow> more_sent c (enc_bulk (arg_bytes a ok)) (writeArg c a ok)"
  by (induction c a ok rule: writeArg.induct)
    (auto simp: writeInt64_def writeFloat64_def writeBytes_sent writeString_sent)

lemma more_sent_refl: "sending c \<Longrightarrow> more_sent c [] (c, False)"
  unfolding more_sent_def sending_def by (intro exI [of _ "rc_buf c"] exI [of _ "rc_out c"]) simp

lemma writeArgs_sent: "sending c \<Longrightarrow> more_sent c (enc_args (map (\<lambda>a. arg_bytes a True) as)) (writeArgs c as)"
proof (induction as arbitrary: c)
  case (Cons a as)
  obtain c1 where c1: "writeArg c a True = (c1, False)" "sending c1"
    "\<forall>q r. more_sent c1 q r \<longrightarrow> more_sent c (enc_bulk (arg_bytes a True) @ q) r"
    by (rule more_sentE [OF writeArg_sent [OF Cons.prems, of a True] Cons.prems])
  from c1(3) [rule_format, OF Cons.IH [OF c1(2)]] c1(1) show ?case by simp
qed (simp add: more_sent_refl)

lemma writeCommand_sent:
  assumes "sending c"
  shows "more_sent c (enc_request (cmd # map (\<lambda>a. arg_bytes a True) args)) (writeCommand c cmd args)"
proof -
  obtain c1 where c1: "writeLen c (CHR ''*'') (1 + length args) = (c1, False)" "sending c1"
    "\<forall>q r. more_sent c1 q r \<longrightarrow> more_sent c ((CHR ''*'' # itoa_nat (1 + length args) @ CRLF) @ q) r"
    by (rule more_sentE [OF writeLen_sent [OF assms, of "CHR ''*''" "1 + length args"] assms])
  obtain c2 where c2: "writeString c1 cmd = (c2, False)" "sending c2"
    "\<forall>q r. more_sent c2 q r \<longrightarrow> more_sent c1 (enc_bulk cmd @ q) r"
    by (rule more_sentE [OF writeString_sent [OF c1(2)] c1(2)])
  from c1(3) [rule_format, OF c2(3) [rule_format, OF writeArgs_sent [OF c2(2)]]] c1(1) c2(1) show ?thesis
    by (simp add: writeCommand_def enc_request_def enc_header_def)
qed

section \<open>What is received\<close>

lemma rc_readLine_line:
  assumes "LF \<notin> set line" "rc_in c = line @ CRLF @ rest"
  shows "rc_readLine c = (c\<lparr>rc_in := rest\<rparr>, Inr line)"
proof -
  have "nat (IndexByte (line @ CRLF @ rest) LF) = Suc (length line)"
    using IndexByte_append [of LF "line @ [CR]" rest] assms(1) by simp
  with assms(2) show ?thesis by (simp add: rc_readLine_def Let_def nth_append)
qed

lemma rc_digits_parse:
  "rc_digits n p = (case parseLen_loop n p of (k, None) \<Rightarrow> Inr k | (k, Some _) \<Rightarrow> Inl (Protocol ''illegal bytes in length''))"
  by (induction p arbitrary: n) (auto simp: Let_def)

lemma rc_parseLen_itoa: "int n < 2 ^ 63 \<Longrightarrow> rc_parseLen (itoa_nat n) = Inr (int n)"
  using parseLen_itoa [of n] by (auto simp: rc_parseLen_def parseLen_def rc_digits_parse split: if_splits)

lemma rc_parseLen_minus_one: "rc_parseLen ''-1'' = Inr (- 1)"
  by (simp add: rc_parseLen_def)

lemma rc_parseInt_itoa:
  assumes "- (2 ^ 63) < n" "n < 2 ^ 63"
  shows "rc_parseInt (itoa n) = Inr (VInt n)"
proof -
  have dig: "rc_digits 0 (itoa_nat k) = Inr (int k)" if "int k < 2 ^ 63" for k
    using rc_parseLen_itoa [OF that] itoa_nat_digits [of k] is_digit_not_special itoa_nat_nonempty [of k]
    by (auto simp: rc_parseLen_def neq_Nil_conv split: if_splits)
  have hd: "itoa_nat k ! 0 \<noteq> CHR ''-''" for k
    using itoa_nat_digits [of k] is_digit_not_special itoa_nat_nonempty [of k] by (auto simp: neq_Nil_conv)
  show ?thesis
  proof (cases "n < 0")
    case True
    with dig [of "nat (- n)"] assms show ?thesis
      by (simp add: rc_parseInt_def itoa_def Let_def wrap64_id)
  next
    case False
    with dig [of "nat n"] assms hd [of "nat n"] show ?thesis
      by (simp add: rc_parseInt_def itoa_def Let_def)
  qed
qed

text \<open>The value a reply stands for, and the replies the client can represent.\<close>

fun value_of :: "reply \<Rightarrow> rvalue" where
  "value_of (Status s) = VStr s"
| "value_of (Error s) = VErr s"
| "value_of (Integer s) = (case rc_parseInt s of Inr v \<Rightarrow> v | Inl _ \<Rightarrow> VNil)"
| "value_of (Bulk s) = VBulk s"
| "value_of Nil = VNil"
| "value_of (Array rs) = VArr (map value_of rs)"

fun readable :: "reply \<Rightarrow> bool" where
  "readable (Status s) \<longleftrightarrow> LF \<notin> set s"
| "readable (Error s) \<longleftrightarrow> LF \<notin> set s"
| "readable (Integer s) \<longleftrightarrow> (\<exists>n. - (2 ^ 63) < n \<and> n < 2 ^ 63 \<and> s = itoa n)"
| "readable (Bulk s) \<longleftrightarrow> int (length s) \<le> maxAlloc"
| "readable Nil \<longleftrightarrow> True"
| "readable (Array rs) \<longleftrightarrow> 16 * int (length rs) \<le> maxAlloc \<and> list_all readable rs"

lemma itoa_no_LF: "LF \<notin> set (itoa n)"
  using itoa_nat_no_LF by (simp add: itoa_def)

lemma rc_readReplies_enc:
  assumes "\<And>r fuel c rest. r \<in> set rs \<Longrightarrow> 2 * length (enc_reply r) \<le> fuel + 2 \<Longrightarrow> rc_in c = enc_reply r @ rest \<Longrightarrow>
      rc_readReply fuel c = Some (c\<lparr>rc_in := rest\<rparr>, Inr (value_of r))"
    and "2 * length (concat (map enc_reply rs)) \<le> fuel" "rc_in c = concat (map enc_reply rs) @ rest"
  shows "rc_readReplies fuel (length rs) c = Some (c\<lparr>rc_in := rest\<rparr>, Inr (map value_of rs))"
  using assms
proof (induction rs arbitrary: fuel c)
  case (Cons r rs)
  have l: "3 \<le> length (enc_reply r)" by (rule length_enc_reply)
  with Cons.prems(2) obtain g where g: "fuel = Suc g" by (cases fuel) auto
  have "2 * length (enc_reply r) \<le> g + 2" using Cons.prems(2) g by simp
  with Cons.prems(1) [of r g c "concat (map enc_reply rs) @ rest"] Cons.prems(3)
  have 1: "rc_readReply g c = Some (c\<lparr>rc_in := concat (map enc_reply rs) @ rest\<rparr>, Inr (value_of r))" by simp
  have "2 * length (concat (map enc_reply rs)) \<le> g" using Cons.prems(2) g l by simp
  with Cons.IH [of g "c\<lparr>rc_in := concat (map enc_reply rs) @ rest\<rparr>"] Cons.prems(1)
  have "rc_readReplies g (length rs) (c\<lparr>rc_in := concat (map enc_reply rs) @ rest\<rparr>) =
      Some (c\<lparr>rc_in := rest\<rparr>, Inr (map value_of rs))" by simp
  with 1 g show ?case by simp
qed simp

lemma rc_readReply_enc:
  "readable r \<Longrightarrow> 2 * length (enc_reply r) \<le> fuel + 2 \<Longrightarrow> rc_in c = enc_reply r @ rest \<Longrightarrow>
   rc_readReply fuel c = Some (c\<lparr>rc_in := rest\<rparr>, Inr (value_of r))"
proof (induction r arbitrary: fuel c rest)
  case (Array rs)
  obtain f where f: "fuel = Suc f" using Array.prems(2) length_enc_reply [of "Array rs"] by (cases fuel) auto
  let ?es = "concat (map enc_reply rs)"
  let ?c = "c\<lparr>rc_in := ?es @ rest\<rparr>"
  have hl: "4 \<le> length (enc_header (length rs))"
    by (cases "itoa_nat (length rs)") (simp_all add: enc_header_def)
  have "rc_readReplies f (length rs) ?c = Some (?c\<lparr>rc_in := rest\<rparr>, Inr (map value_of rs))"
  proof (rule rc_readReplies_enc)
    show "2 * length ?es \<le> f" using Array.prems(2) hl f by simp
  qed (use Array in \<open>auto simp: list_all_iff\<close>)
  moreover have "rc_parseLen (itoa_nat (length rs)) = Inr (int (length rs))"
    by (rule rc_parseLen_itoa) (use Array.prems(1) in \<open>simp add: maxAlloc_def\<close>)
  moreover have "rc_readLine c = (?c, Inr (CHR ''*'' # itoa_nat (length rs)))"
    using Array.prems(3) itoa_nat_no_LF by (intro rc_readLine_line) (auto simp: enc_header_def)
  ultimately show ?case using f Array.prems(1) by simp
next
  case (Bulk s)
  obtain f where f: "fuel = Suc f" using Bulk.prems(2) length_enc_reply [of "Bulk s"] by (cases fuel) auto
  have "rc_parseLen (itoa_nat (length s)) = Inr (int (length s))"
    by (rule rc_parseLen_itoa) (use Bulk.prems(1) in \<open>simp add: maxAlloc_def\<close>)
  moreover have "rc_readLine c = (c\<lparr>rc_in := s @ CRLF @ rest\<rparr>, Inr (CHR ''$'' # itoa_nat (length s)))"
    using Bulk.prems(3) itoa_nat_no_LF by (intro rc_readLine_line) (auto simp: enc_bulk_def)
  moreover have "rc_readLine (c\<lparr>rc_in := CRLF @ rest\<rparr>) = (c\<lparr>rc_in := rest\<rparr>, Inr [])"
    using rc_readLine_line [of "[]" "c\<lparr>rc_in := CRLF @ rest\<rparr>" rest] by simp
  ultimately show ?case using f Bulk.prems(1) by simp
next
  case (Status s)
  then have "rc_readLine c = (c\<lparr>rc_in := rest\<rparr>, Inr (CHR ''+'' # s))" by (intro rc_readLine_line) auto
  with Status show ?case by (cases fuel) auto
next
  case (Error s)
  then have "rc_readLine c = (c\<lparr>rc_in := rest\<rparr>, Inr (CHR ''-'' # s))" by (intro rc_readLine_line) auto
  with Error show ?case by (cases fuel) auto
next
  case (Integer s)
  then obtain n where n: "- (2 ^ 63) < n" "n < 2 ^ 63" "s = itoa n" by auto
  have "rc_readLine c = (c\<lparr>rc_in := rest\<rparr>, Inr (CHR '':'' # s))"
    using Integer.prems(3) itoa_no_LF n(3) by (intro rc_readLine_line) auto
  with Integer.prems(2) rc_parseInt_itoa [OF n(1,2)] n(3) show ?case by (cases fuel) auto
next
  case Nil
  then have "rc_readLine c = (c\<lparr>rc_in := rest\<rparr>, Inr (CHR ''$'' # ''-1''))" by (intro rc_readLine_line) auto
  with Nil show ?case by (cases fuel) (auto simp: rc_parseLen_minus_one)
qed

section \<open>Stated properties\<close>



end
