(* ===== verification/Cluster.thy ===== *)
theory Cluster
  imports Redis_Client "HOL-Library.AList" "HOL-Library.List_Lexorder" "HOL-Library.Char_ord"
begin

text \<open>
  The view of the Redis cluster, \<^verbatim>\<open>src/core/cluster.go\<close>, and the table from slots to nodes of
  \<^verbatim>\<open>src/core/gnet.go\<close>.

  The answer of \<open>CLUSTER NODES\<close> is parsed line by line into nodes; nodes that fail, have no address or
  are not linked are skipped, and a node seen for the first time is asked for its state. When the set
  of nodes has changed, the map of servers and the replica sets are rebuilt.

  The concurrent hash map of servers comes from a package outside the repository: its operations are
  the fields of a record, passed to the definitions, and \<open>hashmap_ok\<close> states what they are documented
  to do. The result of asking a node for its state is the argument \<open>info\<close>.
\<close>

section \<open>State\<close>

datatype Role = Master | Slave

record Slots =
  s_Start :: int
  s_End :: int

record ClusterNode =
  n_Name :: string
  n_Addr :: string
  n_Ip :: string
  n_Port :: int
  n_CPort :: int
  n_Role :: Role
  n_MasterId :: string
  n_Flags :: string
  n_PingSent :: int
  n_PongReceived :: int
  n_ConfigEpoch :: nat
  n_Connected :: bool
  n_Version :: string
  n_Slots :: "Slots list"

record replicaset =
  rs_Master :: ClusterNode
  rs_Slaves :: "ClusterNode list"

record 'h hashmap =
  hm_Get :: "'h \<Rightarrow> string \<Rightarrow> ClusterNode option"
  hm_Insert :: "'h \<Rightarrow> string \<Rightarrow> ClusterNode \<Rightarrow> 'h"
  hm_Del :: "'h \<Rightarrow> string \<Rightarrow> 'h"
  hm_Iter :: "'h \<Rightarrow> (string \<times> ClusterNode) list"
  hm_Len :: "'h \<Rightarrow> int"

record 'h ClusterNodes =
  cn_ServerMap :: 'h
  cn_Replicasets :: "replicaset list"
  cn_lastServerNames :: string
  cn_serverChanged :: bool

definition new_node_rec :: ClusterNode where
  "new_node_rec = \<lparr>n_Name = [], n_Addr = [], n_Ip = [], n_Port = 0, n_CPort = 0, n_Role = Master, n_MasterId = [],
     n_Flags = [], n_PingSent = 0, n_PongReceived = 0, n_ConfigEpoch = 0, n_Connected = False, n_Version = [], n_Slots = []\<rparr>"

section \<open>Parsing\<close>

definition parseIPAndPorts :: "string \<Rightarrow> string \<times> string" where
  "parseIPAndPorts str = (case Split str '':'' of a # b # _ \<Rightarrow> (a, b) | _ \<Rightarrow> ([], []))"

definition parsePortAndCPort :: "string \<Rightarrow> string \<times> string" where
  "parsePortAndCPort str = (case Split str ''@'' of a # b # _ \<Rightarrow> (a, b) | a # _ \<Rightarrow> (a, []) | [] \<Rightarrow> ([], []))"

text \<open>\<open>net.JoinHostPort\<close>: an address with a colon is an IPv6 literal and is put in brackets.\<close>

definition JoinHostPort :: "string \<Rightarrow> string \<Rightarrow> string" where
  "JoinHostPort host port = (if CHR '':'' \<in> set host then ''['' @ host @ '']:'' @ port else host @ '':'' @ port)"

definition parseAddr :: "string \<Rightarrow> string \<times> string \<times> int \<times> int" where
  "parseAddr addrStr =
     (let (ip, portAndCPort) = parseIPAndPorts addrStr in
      if length ip < 1 then ([], [], 0, 0)
      else
        (let (portStr, cPortStr) = parsePortAndCPort portAndCPort in
         if length portStr < 1 then ([], [], 0, 0)
         else (case Atoi portStr of
             (_, Some _) \<Rightarrow> ([], [], 0, 0)
           | (port, None) \<Rightarrow>
               (let cPort = (if length cPortStr > 0 then fst (Atoi cPortStr) else 0)
                in (JoinHostPort ip portStr, ip, port, cPort)))))"

definition parseSlot :: "string \<Rightarrow> (int \<times> int) option" where
  "parseSlot slotsStr =
     (case Split slotsStr ''-'' of
        [] \<Rightarrow> None
      | a # rest \<Rightarrow>
          (case ParseInt a 32 of
             (_, Some _) \<Rightarrow> None
           | (start, None) \<Rightarrow>
               (case rest of
                  [] \<Rightarrow> Some (start, start)
                | b # _ \<Rightarrow> (case ParseInt b 32 of (_, Some _) \<Rightarrow> None | (e, None) \<Rightarrow> Some (start, e)))))"

fun slot_columns :: "string list \<Rightarrow> Slots list \<Rightarrow> Slots list option" where
  "slot_columns [] acc = Some acc"
| "slot_columns (x # xs) acc =
     (if HasPrefix x ''['' then slot_columns xs acc
      else (case parseSlot x of None \<Rightarrow> None | Some (a, b) \<Rightarrow> slot_columns xs (acc @ [\<lparr>s_Start = a, s_End = b\<rparr>])))"

definition newClusterNode :: "string list \<Rightarrow> ClusterNode option" where
  "newClusterNode line =
     (let (addr, ip, port, cport) = parseAddr (line ! 1) in
      if length addr < 1 then None
      else
        (let node = new_node_rec\<lparr>n_Name := line ! 0, n_Addr := addr, n_Ip := ip, n_Port := port, n_CPort := cport,
               n_Role := (if Contains (line ! 2) ''master'' then Master else Slave),
               n_Flags := line ! 2, n_MasterId := line ! 3,
               n_PingSent := fst (ParseInt (line ! 4) 64), n_PongReceived := fst (ParseInt (line ! 5) 64),
               n_ConfigEpoch := fst (ParseUint (line ! 6) False 64), n_Connected := (line ! 7 = ''connected'')\<rparr>
         in if n_Role node = Slave then Some node
            else if length line < 9 then None
            else (case slot_columns (drop 8 line) [] of None \<Rightarrow> None | Some sl \<Rightarrow> Some (node\<lparr>n_Slots := sl\<rparr>))))"

text \<open>One line of the answer: the node it describes, unless the line is skipped.\<close>

definition parse_node ::
  "'h hashmap \<Rightarrow> (string \<Rightarrow> rerr + Info) \<Rightarrow> 'h ClusterNodes \<Rightarrow> string \<Rightarrow> ClusterNode option" where
  "parse_node hm info c line =
     (let xs = Split line '' '' in
      if length xs < 8 then None
      else if Contains (xs ! 2) ''noaddr'' \<or> Contains (xs ! 2) ''handshake'' then None
      else if Contains (xs ! 2) ''fail'' then None
      else if \<not> Contains (xs ! 2) ''master'' \<and> \<not> Contains (xs ! 2) ''slave'' then None
      else if Contains (xs ! 7) ''disconnected'' then None
      else (case newClusterNode xs of
          None \<Rightarrow> None
        | Some node \<Rightarrow>
            (case hm_Get hm (cn_ServerMap c) (n_Addr node) of
               Some _ \<Rightarrow> Some node
             | None \<Rightarrow>
                 (case info (n_Addr node) of
                    Inl _ \<Rightarrow> None
                  | Inr i \<Rightarrow>
                      if n_Role node = Slave \<and> i_Loading i then None
                      else if n_Role node = Slave \<and> i_MasterLinkStatus i \<noteq> ''up'' then None
                      else Some (node\<lparr>n_Version := i_Version i\<rparr>)))))"

definition cluster_parse ::
  "'h hashmap \<Rightarrow> (string \<Rightarrow> rerr + Info) \<Rightarrow> 'h ClusterNodes \<Rightarrow> string \<Rightarrow> ClusterNode list option" where
  "cluster_parse hm info c msgs =
     (let allNodes = List.map_filter (parse_node hm info c) (Split msgs [LF])
      in if length allNodes < 3 then None else Some allNodes)"

section \<open>Updating\<close>

text \<open>\<open>fmt.Sprintf("%v", n.Slots)\<close>\<close>

definition fmt_slots :: "Slots list \<Rightarrow> string" where
  "fmt_slots ss = ''['' @ Join (map (\<lambda>s. ''{'' @ itoa (s_Start s) @ '' '' @ itoa (s_End s) @ ''}'') ss) '' '' @ '']''"

definition serverName :: "ClusterNode \<Rightarrow> string" where
  "serverName n =
     (if n_Role n = Master then n_Addr n @ ''#0#'' @ fmt_slots (n_Slots n) else n_Addr n @ ''#1'')"

definition isChanged :: "'h hashmap \<Rightarrow> 'h ClusterNodes \<Rightarrow> ClusterNode list \<Rightarrow> 'h ClusterNodes \<times> bool" where
  "isChanged hm c allNodes =
     (let changed = (int (length allNodes) \<noteq> hm_Len hm (cn_ServerMap c));
          tmpServerNames = Join (sort (map serverName allNodes)) '','';
          changed = (changed \<or> tmpServerNames \<noteq> cn_lastServerNames c)
      in (c\<lparr>cn_lastServerNames := tmpServerNames\<rparr>, changed))"

definition setServer :: "'h hashmap \<Rightarrow> 'h ClusterNodes \<Rightarrow> ClusterNode list \<Rightarrow> 'h ClusterNodes" where
  "setServer hm c allNodes =
     (let m = foldl (\<lambda>m (k, _). hm_Del hm m k) (cn_ServerMap c) (hm_Iter hm (cn_ServerMap c));
          m = foldl (\<lambda>m n. hm_Insert hm m (n_Addr n) n) m allNodes
      in c\<lparr>cn_ServerMap := m\<rparr>)"

text \<open>A slave is appended to the first replica set whose master it names.\<close>

fun add_slave :: "ClusterNode \<Rightarrow> replicaset list \<Rightarrow> replicaset list" where
  "add_slave n [] = []"
| "add_slave n (rs # rss) =
     (if n_Name (rs_Master rs) = n_MasterId n then rs\<lparr>rs_Slaves := rs_Slaves rs @ [n]\<rparr> # rss
      else rs # add_slave n rss)"

definition setReplicaset :: "'h ClusterNodes \<Rightarrow> ClusterNode list \<Rightarrow> 'h ClusterNodes" where
  "setReplicaset c allNodes =
     (let rss = map (\<lambda>n. \<lparr>rs_Master = n, rs_Slaves = []\<rparr>) (filter (\<lambda>n. n_Role n = Master) allNodes);
          rss = foldl (\<lambda>rss n. add_slave n rss) rss (filter (\<lambda>n. n_Role n = Slave) allNodes)
      in c\<lparr>cn_Replicasets := rss\<rparr>)"

definition updateClusterNodes ::
  "'h hashmap \<Rightarrow> (string \<Rightarrow> rerr + Info) \<Rightarrow> 'h ClusterNodes \<Rightarrow> string \<Rightarrow> 'h ClusterNodes \<times> bool" where
  "updateClusterNodes hm info c msg =
     (case cluster_parse hm info c msg of
        None \<Rightarrow> (c, False)
      | Some allNodes \<Rightarrow>
          (case isChanged hm c allNodes of
             (c, True) \<Rightarrow> (setReplicaset (setServer hm c allNodes) allNodes \<lparr>cn_serverChanged := True\<rparr>, True)
           | (c, False) \<Rightarrow> (c, True)))"

text \<open>
  One round of \<open>loopClusterNodes\<close> with a message of the channel. The flag tells whether the loop goes
  on; \<open>None\<close> is the panic of a slice expression out of range.
\<close>

definition cluster_step ::
  "'h hashmap \<Rightarrow> (string \<Rightarrow> rerr + Info) \<Rightarrow> 'h ClusterNodes \<Rightarrow> bytes \<Rightarrow> ('h ClusterNodes \<times> bool) go" where
  "cluster_step hm info c msg =
     (if length msg < 3 then Some (c, False)
      else if take 3 msg = ''+OK'' then Some (c, False)
      else if take 3 msg = ''$-1'' then Some (c, False)
      else do {
        l \<leftarrow> slice msg 1 (IndexByte msg LF - 1);
        (case parseLen l of
           (_, Some _) \<Rightarrow> Some (c, False)
         | (len, None) \<Rightarrow>
             if len > 163840 then Some (c, False)
             else do {
               body \<leftarrow> slice msg (IndexByte msg LF + 1) (int (length msg) - 3);
               Some (fst (updateClusterNodes hm info c body), True)
             })
      })"

definition GetClusterNodes :: "'h hashmap \<Rightarrow> 'h ClusterNodes \<Rightarrow> ClusterNode list" where
  "GetClusterNodes hm c = map snd (hm_Iter hm (cn_ServerMap c))"

section \<open>The table of slots\<close>

type_synonym slotReplicaset = "int \<Rightarrow> replicaset option"

definition RedisClusterSlots_int :: int where "RedisClusterSlots_int = 16384"

definition in_table :: "int \<Rightarrow> bool" where
  "in_table slot \<longleftrightarrow> 0 \<le> slot \<and> slot < RedisClusterSlots_int"

definition slots_Set :: "slotReplicaset \<Rightarrow> int \<Rightarrow> replicaset \<Rightarrow> slotReplicaset go" where
  "slots_Set sr slot rs = (if in_table slot then Some (sr(slot := Some rs)) else None)"

definition slots_Get :: "slotReplicaset \<Rightarrow> int \<Rightarrow> replicaset option go" where
  "slots_Get sr slot = (if in_table slot then Some (sr slot) else None)"

definition slots_NotExist :: "slotReplicaset \<Rightarrow> int \<Rightarrow> bool go" where
  "slots_NotExist sr slot = (if in_table slot then Some (sr slot = None) else None)"

definition slots_Reset :: "slotReplicaset \<Rightarrow> slotReplicaset" where
  "slots_Reset sr = (\<lambda>_. None)"

text \<open>The loops of the ticker that fill the table.\<close>

fun set_range :: "replicaset \<Rightarrow> slotReplicaset \<Rightarrow> int list \<Rightarrow> slotReplicaset go" where
  "set_range rs sr [] = Some sr"
| "set_range rs sr (i # is) = do { sr \<leftarrow> slots_Set sr i rs; set_range rs sr is }"

fun set_ranges :: "replicaset \<Rightarrow> slotReplicaset \<Rightarrow> Slots list \<Rightarrow> slotReplicaset go" where
  "set_ranges rs sr [] = Some sr"
| "set_ranges rs sr (s # ss) = do { sr \<leftarrow> set_range rs sr [s_Start s..s_End s]; set_ranges rs sr ss }"

fun load_slots :: "slotReplicaset \<Rightarrow> replicaset list \<Rightarrow> slotReplicaset go" where
  "load_slots sr [] = Some sr"
| "load_slots sr (rs # rss) = do { sr \<leftarrow> set_ranges rs sr (n_Slots (rs_Master rs)); load_slots sr rss }"

section \<open>Reading a line of \<open>CLUSTER NODES\<close>\<close>

definition fmt_range :: "Slots \<Rightarrow> string" where
  "fmt_range s = (if s_Start s = s_End s then itoa (s_Start s) else itoa (s_Start s) @ ''-'' @ itoa (s_End s))"

definition node_columns :: "ClusterNode \<Rightarrow> string list" where
  "node_columns n = [n_Name n, n_Ip n @ '':'' @ itoa (n_Port n) @ ''@'' @ itoa (n_CPort n), n_Flags n, n_MasterId n,
     itoa (n_PingSent n), itoa (n_PongReceived n), itoa (int (n_ConfigEpoch n)), ''connected''] @ map fmt_range (n_Slots n)"

definition node_line :: "ClusterNode \<Rightarrow> string" where
  "node_line n = Join (node_columns n) '' ''"

text \<open>
  The nodes a healthy cluster describes: the columns contain no separator, the numbers have the range
  of their types, masters have slots and slaves have none.
\<close>

definition small :: "int \<Rightarrow> bool" where
  "small n \<longleftrightarrow> 0 \<le> n \<and> n < 2 ^ 63"

definition node_wf :: "ClusterNode \<Rightarrow> bool" where
  "node_wf n \<longleftrightarrow>
     (\<forall>x \<in> {n_Name n, n_Ip n, n_Flags n, n_MasterId n}. CHR '' '' \<notin> set x \<and> LF \<notin> set x) \<and>
     n_Ip n \<noteq> [] \<and> CHR '':'' \<notin> set (n_Ip n) \<and> n_Addr n = n_Ip n @ '':'' @ itoa (n_Port n) \<and>
     small (n_Port n) \<and> small (n_CPort n) \<and> small (n_PingSent n) \<and> small (n_PongReceived n) \<and> n_ConfigEpoch n < 2 ^ 64 \<and>
     n_Connected n \<and> n_Version n = [] \<and>
     (n_Role n = Master \<longleftrightarrow> Contains (n_Flags n) ''master'') \<and> (n_Role n = Slave \<longrightarrow> Contains (n_Flags n) ''slave'') \<and>
     \<not> Contains (n_Flags n) ''noaddr'' \<and> \<not> Contains (n_Flags n) ''handshake'' \<and> \<not> Contains (n_Flags n) ''fail'' \<and>
     (n_Slots n = [] \<longleftrightarrow> n_Role n = Slave) \<and>
     (\<forall>s \<in> set (n_Slots n). 0 \<le> s_Start s \<and> s_Start s \<le> s_End s \<and> s_End s < 2 ^ 31)"

lemma itoa_chars: "0 \<le> n \<Longrightarrow> c \<in> set (itoa n) \<Longrightarrow> is_digit c"
  using itoa_nat_digits [of "nat n"] by (simp add: itoa_def)

lemma itoa_no: "0 \<le> n \<Longrightarrow> \<not> is_digit c \<Longrightarrow> c \<notin> set (itoa n)"
  using itoa_chars by blast

lemma not_digits: "\<not> is_digit (CHR '' '')" "\<not> is_digit (CHR '':'')" "\<not> is_digit (CHR ''@'')" "\<not> is_digit (CHR ''-'')"
  "\<not> is_digit LF" "\<not> is_digit (CHR ''['')"
  by (auto simp: is_digit_def)

lemma itoa_nonempty [simp]: "itoa n \<noteq> []"
  by (simp add: itoa_def)

lemma ParseInt_small: "0 \<le> n \<Longrightarrow> n < 2 ^ (bits - 1) \<Longrightarrow> ParseInt (itoa n) bits = (n, None)"
  using ParseInt_itoa [of "nat n" bits] by (simp add: itoa_def)

lemma parseSlot_range:
  assumes "0 \<le> s_Start s" "s_Start s \<le> s_End s" "s_End s < 2 ^ 31"
  shows "parseSlot (fmt_range s) = Some (s_Start s, s_End s)"
proof -
  have no: "CHR ''-'' \<notin> set (itoa (s_Start s))" "CHR ''-'' \<notin> set (itoa (s_End s))"
    using assms itoa_no [OF _ not_digits(4)] by auto
  have num: "ParseInt (itoa (s_Start s)) 32 = (s_Start s, None)" "ParseInt (itoa (s_End s)) 32 = (s_End s, None)"
    using assms by (auto intro!: ParseInt_small)
  show ?thesis
    using no num by (auto simp: parseSlot_def fmt_range_def Split_nosep Split_append)
qed

lemma fmt_range_hd:
  assumes "0 \<le> s_Start s"
  shows "\<not> HasPrefix (fmt_range s) ''[''"
proof -
  obtain x xs where x: "itoa (s_Start s) = x # xs" by (cases "itoa (s_Start s)") auto
  then have "is_digit x" using itoa_chars [OF assms, of x] by simp
  then have "x \<noteq> CHR ''[''" using not_digits by auto
  with x show ?thesis by (auto simp: fmt_range_def)
qed

lemma slot_columns_ranges:
  "\<forall>s \<in> set ss. 0 \<le> s_Start s \<and> s_Start s \<le> s_End s \<and> s_End s < 2 ^ 31 \<Longrightarrow>
   slot_columns (map fmt_range ss) acc = Some (acc @ ss)"
proof (induction ss arbitrary: acc)
  case (Cons s ss)
  then show ?case using fmt_range_hd [of s] parseSlot_range [of s] by simp
qed simp

lemma parseAddr_node:
  assumes "node_wf n"
  shows "parseAddr (n_Ip n @ '':'' @ itoa (n_Port n) @ ''@'' @ itoa (n_CPort n)) = (n_Addr n, n_Ip n, n_Port n, n_CPort n)"
proof -
  have wf: "n_Ip n \<noteq> []" "CHR '':'' \<notin> set (n_Ip n)" "n_Addr n = n_Ip n @ '':'' @ itoa (n_Port n)"
    "0 \<le> n_Port n" "n_Port n < 2 ^ 63" "0 \<le> n_CPort n" "n_CPort n < 2 ^ 63"
    using assms by (auto simp: node_wf_def small_def)
  have no: "CHR '':'' \<notin> set (itoa (n_Port n) @ ''@'' @ itoa (n_CPort n))" "CHR ''@'' \<notin> set (itoa (n_Port n))"
    "CHR ''@'' \<notin> set (itoa (n_CPort n))"
    using wf by (auto intro!: itoa_no not_digits dest!: itoa_chars simp: not_digits is_digit_def)
  have "Atoi (itoa (n_Port n)) = (n_Port n, None)" "Atoi (itoa (n_CPort n)) = (n_CPort n, None)"
    using wf by (auto simp: Atoi_def intro!: ParseInt_small)
  moreover have "parseIPAndPorts (n_Ip n @ '':'' @ itoa (n_Port n) @ ''@'' @ itoa (n_CPort n)) =
      (n_Ip n, itoa (n_Port n) @ ''@'' @ itoa (n_CPort n))"
    using wf(2) no(1) by (simp add: parseIPAndPorts_def Split_append Split_nosep)
  moreover have "parsePortAndCPort (itoa (n_Port n) @ ''@'' @ itoa (n_CPort n)) = (itoa (n_Port n), itoa (n_CPort n))"
    using no(2,3) by (simp add: parsePortAndCPort_def Split_append Split_nosep)
  ultimately show ?thesis
    using wf by (simp add: parseAddr_def JoinHostPort_def Let_def Suc_le_eq)
qed

lemma node_columns_split:
  assumes "node_wf n"
  shows "Split (node_line n) '' '' = node_columns n"
  unfolding node_line_def
proof (rule Split_Join)
  show "\<forall>x \<in> set (node_columns n). CHR '' '' \<notin> set x"
  proof
    fix x assume "x \<in> set (node_columns n)"
    then show "CHR '' '' \<notin> set x"
      using assms itoa_no [OF _ not_digits(1)]
      by (auto simp: node_columns_def node_wf_def small_def fmt_range_def)
  qed
qed (simp add: node_columns_def)

lemma newClusterNode_columns:
  assumes "node_wf n"
  shows "newClusterNode (node_columns n) = Some n"
proof -
  have wf: "n_Addr n \<noteq> []" "small (n_PingSent n)" "small (n_PongReceived n)" "n_ConfigEpoch n < 2 ^ 64" "n_Connected n"
    "n_Version n = []" "n_Role n = Master \<longleftrightarrow> Contains (n_Flags n) ''master''" "n_Slots n = [] \<longleftrightarrow> n_Role n = Slave"
    "\<forall>s \<in> set (n_Slots n). 0 \<le> s_Start s \<and> s_Start s \<le> s_End s \<and> s_End s < 2 ^ 31"
    using assms by (auto simp: node_wf_def)
  have num: "ParseInt (itoa (n_PingSent n)) 64 = (n_PingSent n, None)" "ParseInt (itoa (n_PongReceived n)) 64 = (n_PongReceived n, None)"
    using wf by (auto simp: small_def intro!: ParseInt_small)
  have ep: "ParseUint (itoa (int (n_ConfigEpoch n))) False 64 = (n_ConfigEpoch n, None)"
    using wf(4) by (simp add: itoa_def ParseUint_itoa)
  let ?c = "node_columns n"
  have cols: "?c ! 0 = n_Name n" "?c ! 1 = n_Ip n @ '':'' @ itoa (n_Port n) @ ''@'' @ itoa (n_CPort n)"
    "?c ! 2 = n_Flags n" "?c ! 3 = n_MasterId n" "?c ! 4 = itoa (n_PingSent n)" "?c ! 5 = itoa (n_PongReceived n)"
    "?c ! 6 = itoa (int (n_ConfigEpoch n))" "?c ! 7 = ''connected''" "drop 8 ?c = map fmt_range (n_Slots n)"
    "length ?c = 8 + length (n_Slots n)"
    by (simp_all add: node_columns_def)
  show ?thesis
  proof (cases "n_Role n = Slave")
    case True
    with wf num ep cols parseAddr_node [OF assms] show ?thesis
      by (simp add: newClusterNode_def new_node_rec_def Let_def)
  next
    case False
    then have "n_Role n = Master" by (cases "n_Role n") auto
    with wf num ep cols parseAddr_node [OF assms] slot_columns_ranges [OF wf(9), of "[]"] show ?thesis
      by (cases "n_Slots n") (simp_all add: newClusterNode_def new_node_rec_def Let_def)
  qed
qed

section \<open>Replica sets\<close>


lemma add_slave_slaves:
  assumes "distinct (map (\<lambda>rs. n_Name (rs_Master rs)) rss)"
  shows "add_slave n rss = map (\<lambda>rs. if n_Name (rs_Master rs) = n_MasterId n then rs\<lparr>rs_Slaves := rs_Slaves rs @ [n]\<rparr> else rs) rss"
  using assms
proof (induction rss)
  case (Cons rs rss)
  have "map (\<lambda>rs. if n_Name (rs_Master rs) = n_MasterId n then rs\<lparr>rs_Slaves := rs_Slaves rs @ [n]\<rparr> else rs) rss = rss"
    if "n_Name (rs_Master rs) = n_MasterId n"
    using Cons.prems that by (intro map_idI) force
  with Cons show ?case by auto
qed simp

lemma add_slaves:
  assumes "distinct (map (\<lambda>rs. n_Name (rs_Master rs)) rss)"
  shows "foldl (\<lambda>rss n. add_slave n rss) rss ns =
    map (\<lambda>rs. rs\<lparr>rs_Slaves := rs_Slaves rs @ filter (\<lambda>n. n_MasterId n = n_Name (rs_Master rs)) ns\<rparr>) rss"
  using assms
proof (induction ns arbitrary: rss)
  case (Cons n ns)
  have "map (\<lambda>rs. n_Name (rs_Master rs)) (add_slave n rss) = map (\<lambda>rs. n_Name (rs_Master rs)) rss"
    by (induction rss) auto
  then have "distinct (map (\<lambda>rs. n_Name (rs_Master rs)) (add_slave n rss))" using Cons.prems by simp
  from Cons.IH [OF this] show ?case by (auto simp: add_slave_slaves [OF Cons.prems])
qed simp

lemma setReplicaset_slaves:
  assumes "distinct (map n_Name (filter (\<lambda>n. n_Role n = Master) nodes))"
  shows "cn_Replicasets (setReplicaset c nodes) =
    map (\<lambda>m. \<lparr>rs_Master = m, rs_Slaves = filter (\<lambda>n. n_Role n = Slave \<and> n_MasterId n = n_Name m) nodes\<rparr>)
      (filter (\<lambda>n. n_Role n = Master) nodes)"
proof -
  let ?ms = "filter (\<lambda>n. n_Role n = Master) nodes"
  let ?rss = "map (\<lambda>n. \<lparr>rs_Master = n, rs_Slaves = []\<rparr>) ?ms"
  have "distinct (map (\<lambda>rs. n_Name (rs_Master rs)) ?rss)" using assms by (simp add: comp_def)
  from add_slaves [OF this] show ?thesis
    by (simp add: setReplicaset_def comp_def conj_commute)
qed

section \<open>The map of servers\<close>

definition hashmap_ok :: "'h hashmap \<Rightarrow> bool" where
  "hashmap_ok hm \<longleftrightarrow>
     (\<forall>h k v k'. hm_Get hm (hm_Insert hm h k v) k' =
        (if k' = k \<and> hm_Get hm h k = None then Some v else hm_Get hm h k')) \<and>
     (\<forall>h k k'. hm_Get hm (hm_Del hm h k) k' = (if k' = k then None else hm_Get hm h k')) \<and>
     (\<forall>h. set (hm_Iter hm h) = {(k, v). hm_Get hm h k = Some v} \<and> distinct (map fst (hm_Iter hm h))) \<and>
     (\<forall>h. hm_Len hm h = int (length (hm_Iter hm h)))"

lemma hashmap_del_all:
  assumes "hashmap_ok hm"
  shows "hm_Get hm (foldl (\<lambda>m (k, _). hm_Del hm m k) h xs) k = (if k \<in> fst ` set xs then None else hm_Get hm h k)"
proof (induction xs arbitrary: h)
  case (Cons x xs)
  then show ?case using assms by (cases x) (auto simp: hashmap_ok_def)
qed simp

lemma hashmap_insert_all:
  assumes "hashmap_ok hm" "distinct (map n_Addr ns)"
  shows "hm_Get hm (foldl (\<lambda>m n. hm_Insert hm m (n_Addr n) n) h ns) k =
    (case hm_Get hm h k of Some v \<Rightarrow> Some v | None \<Rightarrow> find (\<lambda>n. n_Addr n = k) ns)"
  using assms(2)
proof (induction ns arbitrary: h)
  case (Cons n ns)
  have "find (\<lambda>n. n_Addr n = k) ns = None" if "n_Addr n = k"
  proof -
    have "n_Addr n \<notin> n_Addr ` set ns" using Cons.prems by simp
    then have "\<forall>x \<in> set ns. n_Addr x \<noteq> k" using that by (auto simp: image_iff)
    then show ?thesis unfolding find_None_iff by blast
  qed
  with Cons assms(1) show ?case by (auto simp: hashmap_ok_def split: option.splits)
qed (simp split: option.splits)

lemma setServer_get:
  assumes "hashmap_ok hm" "distinct (map n_Addr ns)"
  shows "hm_Get hm (cn_ServerMap (setServer hm c ns)) k = find (\<lambda>n. n_Addr n = k) ns"
proof -
  have "hm_Get hm (foldl (\<lambda>m (k, _). hm_Del hm m k) (cn_ServerMap c) (hm_Iter hm (cn_ServerMap c))) k = None"
    using assms(1) by (auto simp: hashmap_del_all hashmap_ok_def image_iff)
  with hashmap_insert_all [OF assms] show ?thesis by (simp add: setServer_def)
qed

section \<open>Loading the table\<close>

definition covers :: "replicaset \<Rightarrow> int \<Rightarrow> bool" where
  "covers rs i \<longleftrightarrow> (\<exists>s \<in> set (n_Slots (rs_Master rs)). s_Start s \<le> i \<and> i \<le> s_End s)"

definition ranges_ok :: "replicaset \<Rightarrow> bool" where
  "ranges_ok rs \<longleftrightarrow> (\<forall>s \<in> set (n_Slots (rs_Master rs)). 0 \<le> s_Start s \<and> s_End s < RedisClusterSlots_int)"

lemma set_range_all:
  "\<forall>i \<in> set is. in_table i \<Longrightarrow> set_range rs sr is = Some (\<lambda>i. if i \<in> set is then Some rs else sr i)"
  by (induction "is" arbitrary: sr) (auto simp: slots_Set_def)

lemma set_ranges_all:
  "\<forall>s \<in> set ss. 0 \<le> s_Start s \<and> s_End s < RedisClusterSlots_int \<Longrightarrow>
   set_ranges rs sr ss = Some (\<lambda>i. if \<exists>s \<in> set ss. s_Start s \<le> i \<and> i \<le> s_End s then Some rs else sr i)"
proof (induction ss arbitrary: sr)
  case (Cons s ss)
  then have "set_range rs sr [s_Start s..s_End s] = Some (\<lambda>i. if i \<in> {s_Start s..s_End s} then Some rs else sr i)"
    by (subst set_range_all) (auto simp: in_table_def)
  with Cons show ?case by (auto simp: fun_eq_iff)
qed simp

lemma load_slots_all:
  "\<forall>rs \<in> set rss. ranges_ok rs \<Longrightarrow>
   load_slots sr rss = Some (\<lambda>i. case find (\<lambda>rs. covers rs i) (rev rss) of Some rs \<Rightarrow> Some rs | None \<Rightarrow> sr i)"
proof (induction rss arbitrary: sr)
  case (Cons rs rss)
  have "set_ranges rs sr (n_Slots (rs_Master rs)) = Some (\<lambda>i. if covers rs i then Some rs else sr i)"
    using Cons.prems by (subst set_ranges_all) (auto simp: ranges_ok_def covers_def)
  moreover have "find P (xs @ [x]) = (case find P xs of Some y \<Rightarrow> Some y | None \<Rightarrow> if P x then Some x else None)"
    for P xs and x :: replicaset
    by (induction xs) auto
  ultimately show ?case using Cons by (auto simp: fun_eq_iff split: option.splits)
qed simp

section \<open>Stated properties\<close>

text \<open>
  C29: a line of \<open>CLUSTER NODES\<close> that describes a healthy node is read back as that node: name,
  address, ports, role, master, times, epoch and slot ranges.
\<close>

theorem cluster_line_parsed:
  assumes "node_wf n"
  shows "newClusterNode (Split (node_line n) '' '') = Some n"
  using assms by (simp add: node_columns_split newClusterNode_columns)

definition example_node :: ClusterNode where
  "example_node = \<lparr>n_Name = ''e7d1'', n_Addr = ''127.0.0.1:30004'', n_Ip = ''127.0.0.1'', n_Port = 30004, n_CPort = 31004,
     n_Role = Master, n_MasterId = ''-'', n_Flags = ''myself,master'', n_PingSent = 0, n_PongReceived = 1426238317239,
     n_ConfigEpoch = 4, n_Connected = True, n_Version = [], n_Slots = [\<lparr>s_Start = 0, s_End = 5460\<rparr>, \<lparr>s_Start = 9000, s_End = 9000\<rparr>]\<rparr>"

lemma example_node_wf: "node_wf example_node"
  by (simp add: node_wf_def example_node_def small_def itoa_def itoa_nat.simps digit_char_def char_of_def bit_0)

theorem cluster_line_parsed_witness:
  "newClusterNode (Split (node_line example_node) '' '') = Some example_node"
  by (rule cluster_line_parsed [OF example_node_wf])

text \<open>
  C27: after a reload the table sends every slot to the replica set whose master owns it, and a slot no
  master owns to none, provided no slot is owned twice.
\<close>

theorem slot_table_loaded:
  assumes "\<forall>rs \<in> set rss. ranges_ok rs"
    and "\<forall>rs \<in> set rss. \<forall>rs' \<in> set rss. covers rs slot \<and> covers rs' slot \<longrightarrow> rs = rs'"
    and "in_table slot"
  shows "\<exists>sr. load_slots (slots_Reset old) rss = Some sr \<and>
    (\<forall>rs. slots_Get sr slot = Some (Some rs) \<longleftrightarrow> rs \<in> set rss \<and> covers rs slot) \<and>
    (slots_NotExist sr slot = Some (\<forall>rs \<in> set rss. \<not> covers rs slot))"
proof -
  let ?r = "find (\<lambda>rs. covers rs slot) (rev rss)"
  have "?r = Some rs \<longleftrightarrow> rs \<in> set rss \<and> covers rs slot" for rs
  proof
    show "rs \<in> set rss \<and> covers rs slot" if "?r = Some rs"
      using that by (auto simp: find_Some_iff) (metis nth_mem set_rev length_rev)
    show "?r = Some rs" if "rs \<in> set rss \<and> covers rs slot"
    proof (cases ?r)
      case None
      with that show ?thesis unfolding find_None_iff by auto
    next
      case (Some rs')
      then have "rs' \<in> set rss" "covers rs' slot" by (auto simp: find_Some_iff) (metis nth_mem set_rev length_rev)
      with that assms(2) Some show ?thesis by blast
    qed
  qed
  moreover have "?r = None \<longleftrightarrow> (\<forall>rs \<in> set rss. \<not> covers rs slot)" unfolding find_None_iff by auto
  moreover obtain sr where "load_slots (slots_Reset old) rss = Some sr" "sr slot = ?r"
    using load_slots_all [OF assms(1), of "slots_Reset old"] by (simp add: slots_Reset_def split: option.split)
  ultimately show ?thesis
    using assms(3) by (intro exI [of _ sr]) (simp add: slots_Get_def slots_NotExist_def)
qed

theorem slot_table_loaded_witness:
  "\<exists>sr. load_slots (slots_Reset (\<lambda>_. None)) [\<lparr>rs_Master = example_node, rs_Slaves = []\<rparr>] = Some sr \<and>
    (\<forall>rs. slots_Get sr 9000 = Some (Some rs) \<longleftrightarrow>
       rs \<in> set [\<lparr>rs_Master = example_node, rs_Slaves = []\<rparr>] \<and> covers rs 9000) \<and>
    (slots_NotExist sr 9000 = Some (\<forall>rs \<in> set [\<lparr>rs_Master = example_node, rs_Slaves = []\<rparr>]. \<not> covers rs 9000))"
  by (rule slot_table_loaded) (auto simp: ranges_ok_def example_node_def RedisClusterSlots_int_def in_table_def)

text \<open>The nodes as they are stored: a node not known before also gets its version.\<close>

definition learned :: "'h hashmap \<Rightarrow> (string \<Rightarrow> rerr + Info) \<Rightarrow> 'h ClusterNodes \<Rightarrow> ClusterNode \<Rightarrow> ClusterNode" where
  "learned hm info c n =
     (case (hm_Get hm (cn_ServerMap c) (n_Addr n), info (n_Addr n)) of
        (None, Inr i) \<Rightarrow> n\<lparr>n_Version := i_Version i\<rparr> | _ \<Rightarrow> n)"

definition reachable_node :: "(string \<Rightarrow> rerr + Info) \<Rightarrow> ClusterNode \<Rightarrow> bool" where
  "reachable_node info n \<longleftrightarrow>
     (\<exists>i. info (n_Addr n) = Inr i \<and> (n_Role n = Slave \<longrightarrow> \<not> i_Loading i \<and> i_MasterLinkStatus i = ''up''))"

lemma parse_node_line:
  assumes "node_wf n" "reachable_node info n"
  shows "parse_node hm info c (node_line n) = Some (learned hm info c n)"
proof -
  have cols: "node_columns n ! 2 = n_Flags n" "node_columns n ! 7 = ''connected''" "\<not> length (node_columns n) < 8"
    by (simp_all add: node_columns_def)
  have flags: "Contains (n_Flags n) ''master'' \<or> Contains (n_Flags n) ''slave''"
    using assms(1) by (cases "n_Role n") (auto simp: node_wf_def)
  show ?thesis
    using assms cols flags newClusterNode_columns [OF assms(1)] node_columns_split [OF assms(1)]
    by (auto simp: parse_node_def Let_def node_wf_def reachable_node_def learned_def split: option.splits)
qed

lemma node_line_no_LF:
  assumes "node_wf n"
  shows "LF \<notin> set (node_line n)"
proof -
  have "LF \<notin> set (Join xs '' '')" if "\<forall>x \<in> set xs. LF \<notin> set x" for xs
    using that by (induction xs "'' ''" rule: Join.induct) auto
  moreover have "\<forall>x \<in> set (node_columns n). LF \<notin> set x"
    using assms itoa_no [OF _ not_digits(5)] by (auto simp: node_columns_def node_wf_def small_def fmt_range_def)
  ultimately show ?thesis by (simp add: node_line_def)
qed

lemma cluster_parse_lines:
  assumes "\<forall>n \<in> set ns. node_wf n \<and> reachable_node info n" "3 \<le> length ns"
  shows "cluster_parse hm info c (Join (map node_line ns) [LF]) = Some (map (learned hm info c) ns)"
proof -
  have "Split (Join (map node_line ns) [LF]) [LF] = map node_line ns"
    using assms node_line_no_LF by (intro Split_Join) auto
  moreover have "List.map_filter (parse_node hm info c) (map node_line ns) = map (learned hm info c) ns"
    using assms(1) by (induction ns) (auto simp: map_filter_simps parse_node_line)
  ultimately show ?thesis using assms(2) by (simp add: cluster_parse_def)
qed

lemma learned_simps [simp]:
  "n_Addr (learned hm info c n) = n_Addr n" "n_Role (learned hm info c n) = n_Role n"
  "n_Name (learned hm info c n) = n_Name n" "n_MasterId (learned hm info c n) = n_MasterId n"
  "n_Slots (learned hm info c n) = n_Slots n"
  by (auto simp: learned_def split: option.splits sum.splits)


definition example_map :: "(string \<times> ClusterNode) list hashmap" where
  "example_map = \<lparr>hm_Get = map_of, hm_Insert = (\<lambda>h k v. if map_of h k = None then (k, v) # h else h),
     hm_Del = (\<lambda>h k. AList.delete k h), hm_Iter = AList.clearjunk, hm_Len = (\<lambda>h. int (length (AList.clearjunk h)))\<rparr>"

lemma example_map_ok: "hashmap_ok example_map"
proof -
  have "set (AList.clearjunk h) = {(k, v). map_of h k = Some v}" for h :: "(string \<times> ClusterNode) list"
    using map_of_clearjunk [of h] distinct_clearjunk [of h] by (auto simp flip: map_of_eq_Some_iff)
  then show ?thesis
    by (auto simp: hashmap_ok_def example_map_def delete_conv distinct_clearjunk)
qed

definition example_nodes :: "ClusterNode list" where
  "example_nodes = [example_node,
     example_node\<lparr>n_Name := ''67ed'', n_Ip := ''127.0.0.2'', n_Addr := ''127.0.0.2:30004'', n_Role := Slave, n_Flags := ''slave'',
       n_MasterId := ''e7d1'', n_Slots := []\<rparr>,
     example_node\<lparr>n_Name := ''292f'', n_Ip := ''127.0.0.3'', n_Addr := ''127.0.0.3:30004'', n_Slots := [\<lparr>s_Start = 10000, s_End = 16383\<rparr>]\<rparr>]"

lemma example_nodes_wf: "\<forall>n \<in> set example_nodes. node_wf n"
  using example_node_wf
  by (simp add: example_nodes_def)
    (simp add: node_wf_def example_node_def small_def itoa_def itoa_nat.simps digit_char_def char_of_def bit_0)


end
