(* ===== verification/Hashkit.thy ===== *)
theory Hashkit
  imports Prelude
begin

text \<open>
  The key hashing of \<^verbatim>\<open>src/core/pkg/hashkit/crc16.go\<close>: the table-driven CRC over a 32-bit
  register and the hash-tag rule that selects the part of the key to hash.

  The reference is the definition of the Redis cluster specification: CRC-16/XMODEM
  (polynomial 0x1021, initial value 0, no reflection) one bit at a time over a 16-bit
  register, reduced modulo 16384, on the text between the first opening brace and the first
  closing brace to its right when that text is non-empty. The register of the Go loop is
  never truncated to 16 bits; the main lemma shows that its low 16 bits follow the reference
  all the same.
\<close>

unbundle bit_operations_syntax

section \<open>The table and the loop\<close>

definition RedisClusterSlots :: nat where
  "RedisClusterSlots = 16384"

definition crc16tab :: "32 word list" where
  "crc16tab = [
     0x0000, 0x1021, 0x2042, 0x3063, 0x4084, 0x50a5, 0x60c6, 0x70e7,
     0x8108, 0x9129, 0xa14a, 0xb16b, 0xc18c, 0xd1ad, 0xe1ce, 0xf1ef,
     0x1231, 0x0210, 0x3273, 0x2252, 0x52b5, 0x4294, 0x72f7, 0x62d6,
     0x9339, 0x8318, 0xb37b, 0xa35a, 0xd3bd, 0xc39c, 0xf3ff, 0xe3de,
     0x2462, 0x3443, 0x0420, 0x1401, 0x64e6, 0x74c7, 0x44a4, 0x5485,
     0xa56a, 0xb54b, 0x8528, 0x9509, 0xe5ee, 0xf5cf, 0xc5ac, 0xd58d,
     0x3653, 0x2672, 0x1611, 0x0630, 0x76d7, 0x66f6, 0x5695, 0x46b4,
     0xb75b, 0xa77a, 0x9719, 0x8738, 0xf7df, 0xe7fe, 0xd79d, 0xc7bc,
     0x48c4, 0x58e5, 0x6886, 0x78a7, 0x0840, 0x1861, 0x2802, 0x3823,
     0xc9cc, 0xd9ed, 0xe98e, 0xf9af, 0x8948, 0x9969, 0xa90a, 0xb92b,
     0x5af5, 0x4ad4, 0x7ab7, 0x6a96, 0x1a71, 0x0a50, 0x3a33, 0x2a12,
     0xdbfd, 0xcbdc, 0xfbbf, 0xeb9e, 0x9b79, 0x8b58, 0xbb3b, 0xab1a,
     0x6ca6, 0x7c87, 0x4ce4, 0x5cc5, 0x2c22, 0x3c03, 0x0c60, 0x1c41,
     0xedae, 0xfd8f, 0xcdec, 0xddcd, 0xad2a, 0xbd0b, 0x8d68, 0x9d49,
     0x7e97, 0x6eb6, 0x5ed5, 0x4ef4, 0x3e13, 0x2e32, 0x1e51, 0x0e70,
     0xff9f, 0xefbe, 0xdfdd, 0xcffc, 0xbf1b, 0xaf3a, 0x9f59, 0x8f78,
     0x9188, 0x81a9, 0xb1ca, 0xa1eb, 0xd10c, 0xc12d, 0xf14e, 0xe16f,
     0x1080, 0x00a1, 0x30c2, 0x20e3, 0x5004, 0x4025, 0x7046, 0x6067,
     0x83b9, 0x9398, 0xa3fb, 0xb3da, 0xc33d, 0xd31c, 0xe37f, 0xf35e,
     0x02b1, 0x1290, 0x22f3, 0x32d2, 0x4235, 0x5214, 0x6277, 0x7256,
     0xb5ea, 0xa5cb, 0x95a8, 0x8589, 0xf56e, 0xe54f, 0xd52c, 0xc50d,
     0x34e2, 0x24c3, 0x14a0, 0x0481, 0x7466, 0x6447, 0x5424, 0x4405,
     0xa7db, 0xb7fa, 0x8799, 0x97b8, 0xe75f, 0xf77e, 0xc71d, 0xd73c,
     0x26d3, 0x36f2, 0x0691, 0x16b0, 0x6657, 0x7676, 0x4615, 0x5634,
     0xd94c, 0xc96d, 0xf90e, 0xe92f, 0x99c8, 0x89e9, 0xb98a, 0xa9ab,
     0x5844, 0x4865, 0x7806, 0x6827, 0x18c0, 0x08e1, 0x3882, 0x28a3,
     0xcb7d, 0xdb5c, 0xeb3f, 0xfb1e, 0x8bf9, 0x9bd8, 0xabbb, 0xbb9a,
     0x4a75, 0x5a54, 0x6a37, 0x7a16, 0x0af1, 0x1ad0, 0x2ab3, 0x3a92,
     0xfd2e, 0xed0f, 0xdd6c, 0xcd4d, 0xbdaa, 0xad8b, 0x9de8, 0x8dc9,
     0x7c26, 0x6c07, 0x5c64, 0x4c45, 0x3ca2, 0x2c83, 0x1ce0, 0x0cc1,
     0xef1f, 0xff3e, 0xcf5d, 0xdf7c, 0xaf9b, 0xbfba, 0x8fd9, 0x9ff8,
     0x6e17, 0x7e36, 0x4e55, 0x5e74, 0x2e93, 0x3eb2, 0x0ed1, 0x1ef0]"

definition hash_step :: "32 word \<Rightarrow> byte \<Rightarrow> 32 word" where
  "hash_step crc k =
     push_bit 8 crc XOR (crc16tab ! unat ((drop_bit 8 crc XOR of_char k) AND 0x00ff))"

definition hash :: "string \<Rightarrow> int" where
  "hash key = sint (foldl hash_step 0 key mod of_nat RedisClusterSlots)"

text \<open>\<open>strings.Index\<close> with a one-byte pattern is \<open>IndexByte\<close>; the slice is in range.\<close>

definition Hash :: "string \<Rightarrow> int" where
  "Hash key =
     (if length key < 1 then hash key
      else let s = IndexByte key (CHR ''{'') in
        if s \<ge> 0 then
          (let e = IndexByte key (CHR ''}'') in
           if s + 1 \<ge> e then hash key
           else hash (take (nat (e - (s + 1))) (drop (nat (s + 1)) key)))
        else hash key)"

section \<open>The reference\<close>

definition crc16_bit :: "16 word \<Rightarrow> 16 word" where
  "crc16_bit c = (if bit c 15 then push_bit 1 c XOR 0x1021 else push_bit 1 c)"

definition crc16_byte :: "16 word \<Rightarrow> byte \<Rightarrow> 16 word" where
  "crc16_byte c k = (crc16_bit ^^ 8) (c XOR push_bit 8 (of_char k))"

definition crc16 :: "string \<Rightarrow> 16 word" where
  "crc16 key = foldl crc16_byte 0 key"

section \<open>Linearity of the reference\<close>

lemma crc16_bit_alt: "crc16_bit c = push_bit 1 c XOR (if bit c 15 then 0x1021 else 0)"
  by (simp add: crc16_bit_def)

lemma select_xor:
  "(if a \<noteq> b then k else 0) = (if a then k else 0) XOR (if b then k else (0 :: 'a::len word))"
  by auto

lemma crc16_bit_xor: "crc16_bit (x XOR y) = crc16_bit x XOR crc16_bit y"
proof -
  have "(if bit (x XOR y) 15 then k else 0) = (if bit x 15 then k else 0) XOR (if bit y 15 then k else 0)"
    for k :: "16 word"
    by (simp only: bit_xor_iff select_xor)
  then show ?thesis
    unfolding crc16_bit_alt push_bit_xor by (simp only: xor.assoc xor.left_commute)
qed

definition crc16_8 :: "16 word \<Rightarrow> 16 word" where
  "crc16_8 c = (crc16_bit ^^ 8) c"

lemma crc16_bits_xor: "(crc16_bit ^^ n) (x XOR y) = (crc16_bit ^^ n) x XOR (crc16_bit ^^ n) y"
  by (induction n) (simp_all add: crc16_bit_xor)

lemma crc16_8_xor: "crc16_8 (x XOR y) = crc16_8 x XOR crc16_8 y"
  by (simp only: crc16_8_def crc16_bits_xor)

lemma crc16_bits_low:
  "(\<And>j. 16 - n \<le> j \<Longrightarrow> \<not> bit x j) \<Longrightarrow> n \<le> 16 \<Longrightarrow> (crc16_bit ^^ n) x = push_bit n x"
proof (induction n)
  case (Suc n)
  have "(crc16_bit ^^ n) x = push_bit n x"
    using Suc by simp
  moreover have "\<not> bit (push_bit n x) 15"
    using Suc.prems by (simp add: bit_push_bit_iff)
  ultimately have "(crc16_bit ^^ Suc n) x = push_bit 1 (push_bit n x)"
    by (simp only: funpow.simps comp_apply crc16_bit_def if_False)
  then show ?case
    by (simp only: push_bit_push_bit) simp
qed simp

lemma crc16_8_low: "crc16_8 (x AND mask 8) = push_bit 8 (x AND mask 8)"
  unfolding crc16_8_def
  by (rule crc16_bits_low) (simp_all add: bit_and_iff bit_mask_iff)

section \<open>The table is the reference on one byte\<close>

text \<open>
  The table doubles: its second half of size \<open>2 ^ k\<close> is its first half XORed with the entry
  at \<open>2 ^ k\<close>. Linearity then reduces the 256 entries to the eight at powers of two.
\<close>

definition table_double :: "16 word list \<Rightarrow> 16 word \<Rightarrow> 16 word list" where
  "table_double ts t = ts @ map (\<lambda>x. x XOR t) ts"

definition is_table :: "nat \<Rightarrow> 16 word list \<Rightarrow> bool" where
  "is_table k ts \<longleftrightarrow> length ts = 2 ^ k \<and> (\<forall>i < 2 ^ k. ts ! i = crc16_8 (push_bit 8 (word_of_nat i)))"

lemma word_of_nat_disjoint:
  assumes "i < 2 ^ k"
  shows "word_of_nat (2 ^ k + i) = (word_of_nat (2 ^ k) XOR word_of_nat i :: 'a::len word)"
proof -
  have "2 ^ k AND take_bit k i = 0"
    by (rule bit_eqI) (auto simp: bit_simps)
  with assms have "2 ^ k AND i = 0"
    by (simp add: take_bit_nat_eq_self)
  then have "2 ^ k + i = 2 ^ k XOR i"
    by (rule disjunctive_add_eq_xor)
  then show ?thesis
    by (simp only: of_nat_xor_eq)
qed

lemma is_table_double:
  assumes ts: "is_table k ts" and t: "t = crc16_8 (push_bit 8 (word_of_nat (2 ^ k)))"
  shows "is_table (Suc k) (table_double ts t)"
proof -
  have "table_double ts t ! i = crc16_8 (push_bit 8 (word_of_nat i))" if i: "i < 2 ^ Suc k" for i
  proof (cases "i < 2 ^ k")
    case True
    with ts show ?thesis by (simp add: is_table_def table_double_def nth_append)
  next
    case False
    define j where "j = i - 2 ^ k"
    have j: "i = 2 ^ k + j" "j < 2 ^ k" using False i by (simp_all add: j_def)
    have "table_double ts t ! i = ts ! j XOR t"
      using ts j by (simp add: is_table_def table_double_def nth_append)
    also have "\<dots> = crc16_8 (push_bit 8 (word_of_nat j)) XOR crc16_8 (push_bit 8 (word_of_nat (2 ^ k)))"
      using ts j(2) t by (simp add: is_table_def)
    also have "\<dots> = crc16_8 (push_bit 8 (word_of_nat i))"
      unfolding j(1) word_of_nat_disjoint [OF j(2)] push_bit_xor crc16_8_xor by (rule xor.commute)
    finally show ?thesis .
  qed
  with ts show ?thesis by (simp add: is_table_def table_double_def)
qed

lemma funpow8: "(f ^^ 8) x = f (f (f (f (f (f (f (f x)))))))"
  by (simp add: eval_nat_numeral)

lemma is_table_0: "is_table 0 [0]"
  by (simp add: is_table_def crc16_8_def funpow8) (simp add: crc16_bit_def)

lemma basis_entries:
  "0x1021 = crc16_8 (push_bit 8 (word_of_nat (2 ^ 0)))"
  "0x2042 = crc16_8 (push_bit 8 (word_of_nat (2 ^ 1)))"
  "0x4084 = crc16_8 (push_bit 8 (word_of_nat (2 ^ 2)))"
  "0x8108 = crc16_8 (push_bit 8 (word_of_nat (2 ^ 3)))"
  "0x1231 = crc16_8 (push_bit 8 (word_of_nat (2 ^ 4)))"
  "0x2462 = crc16_8 (push_bit 8 (word_of_nat (2 ^ 5)))"
  "0x48c4 = crc16_8 (push_bit 8 (word_of_nat (2 ^ 6)))"
  "0x9188 = crc16_8 (push_bit 8 (word_of_nat (2 ^ 7)))"
  by (simp add: crc16_8_def funpow8, simp add: crc16_bit_def)+

lemma crc16tab_doubles:
  "map ucast crc16tab =
   foldl table_double [0] [0x1021, 0x2042, 0x4084, 0x8108, 0x1231, 0x2462, 0x48c4, 0x9188]"
  by (simp add: crc16tab_def table_double_def)

lemma is_table_foldl:
  "is_table k ts \<Longrightarrow> (\<And>j. j < length bs \<Longrightarrow> bs ! j = crc16_8 (push_bit 8 (word_of_nat (2 ^ (k + j))))) \<Longrightarrow>
   is_table (k + length bs) (foldl table_double ts bs)"
proof (induction bs arbitrary: k ts)
  case (Cons b bs)
  have "b = crc16_8 (push_bit 8 (word_of_nat (2 ^ k)))"
    using Cons.prems(2) [of 0] by simp
  with Cons.prems(1) have "is_table (Suc k) (table_double ts b)"
    by (rule is_table_double)
  moreover have "bs ! j = crc16_8 (push_bit 8 (word_of_nat (2 ^ (Suc k + j))))" if "j < length bs" for j
    using Cons.prems(2) [of "Suc j"] that by simp
  ultimately show ?case
    using Cons.IH [of "Suc k"] by simp
qed simp

lemma crc16tab_is_table: "is_table 8 (map ucast crc16tab)"
proof -
  let ?bs = "[0x1021, 0x2042, 0x4084, 0x8108, 0x1231, 0x2462, 0x48c4, 0x9188] :: 16 word list"
  have "?bs ! j = crc16_8 (push_bit 8 (word_of_nat (2 ^ (0 + j))))" if "j < length ?bs" for j
  proof -
    from that consider "j = 0" | "j = 1" | "j = 2" | "j = 3" | "j = 4" | "j = 5" | "j = 6" | "j = 7"
      by fastforce
    then show ?thesis
      by cases (simp_all only: basis_entries [symmetric] add_0 nth_Cons_0 nth_Cons_numeral One_nat_def,
          simp_all add: basis_entries [symmetric, simplified])
  qed
  from is_table_foldl [OF is_table_0 this] show ?thesis
    by (simp only: crc16tab_doubles) (simp add: eval_nat_numeral)
qed

text \<open>The entry for a byte is the reference applied to that byte in the high half.\<close>

lemma crc16tab_entry:
  assumes "i < 256"
  shows "ucast (crc16tab ! i) = crc16_8 (push_bit 8 (word_of_nat i))"
  using crc16tab_is_table assms by (auto simp: is_table_def)

section \<open>The loop follows the reference\<close>

lemma ucast_push_8: "(ucast (push_bit 8 (c :: 32 word)) :: 16 word) = push_bit 8 (ucast c AND mask 8)"
  by (rule bit_word_eqI) (auto simp: bit_simps)

lemma split_bytes:
  "(c :: 16 word) XOR push_bit 8 x = (c AND mask 8) XOR push_bit 8 (drop_bit 8 c XOR x)"
proof (rule bit_word_eqI)
  fix n :: nat
  assume "n < LENGTH(16)"
  then show "bit (c XOR push_bit 8 x) n = bit ((c AND mask 8) XOR push_bit 8 (drop_bit 8 c XOR x)) n"
    by (cases "n < 8") (auto simp: bit_simps)
qed

lemma bit_of_char_word:
  "bit (of_char k :: 'a::len word) n \<longleftrightarrow> n < LENGTH('a) \<and> bit (of_char k :: nat) n"
proof -
  have "bit (word_of_nat (of_char k) :: 'a word) n \<longleftrightarrow> n < LENGTH('a) \<and> bit (of_char k :: nat) n"
    by (simp only: bit_of_nat_iff possible_bit_word)
  then show ?thesis
    by (simp only: of_nat_of_char)
qed

lemma byte_index:
  fixes crc :: "32 word" and k :: byte
  defines "i \<equiv> (drop_bit 8 crc XOR of_char k) AND 0xff"
  shows "unat i < 256"
    and "push_bit 8 (drop_bit 8 (ucast crc) XOR of_char k) = push_bit 8 (word_of_nat (unat i) :: 16 word)"
proof -
  have m: "(0xff :: 32 word) = mask 8"
    by (simp add: mask_eq_exp_minus_1)
  have i: "i = take_bit 8 (drop_bit 8 crc XOR of_char k)"
    by (simp only: i_def m take_bit_eq_mask)
  then have "unat i = take_bit 8 (unat (drop_bit 8 crc XOR of_char k))"
    by (simp only: unsigned_take_bit_eq)
  then show "unat i < 256"
    using take_bit_nat_less_exp [of 8] by simp
  have "word_of_nat (unat i) = (ucast i :: 16 word)"
    by (simp add: unsigned_ucast_eq)
  moreover have "push_bit 8 (drop_bit 8 (ucast crc) XOR of_char k) = push_bit 8 (ucast i :: 16 word)"
    unfolding i
    by (rule bit_word_eqI) (auto simp: bit_simps bit_of_char_word)
  ultimately show "push_bit 8 (drop_bit 8 (ucast crc) XOR of_char k) = push_bit 8 (word_of_nat (unat i) :: 16 word)"
    by simp
qed

lemma hash_step_crc16: "ucast (hash_step crc k) = crc16_byte (ucast crc) k"
proof -
  let ?i = "unat ((drop_bit 8 crc XOR of_char k) AND 0xff)"
  have "ucast (hash_step crc k) = (ucast (push_bit 8 crc) XOR ucast (crc16tab ! ?i) :: 16 word)"
    by (simp only: hash_step_def unsigned_xor_eq)
  also have "ucast (crc16tab ! ?i) = crc16_8 (push_bit 8 (drop_bit 8 (ucast crc) XOR of_char k))"
    by (simp only: crc16tab_entry byte_index)
  also have "ucast (push_bit 8 crc) = crc16_8 (ucast crc AND mask 8)"
    by (simp only: ucast_push_8 crc16_8_low)
  also have "\<dots> XOR crc16_8 (push_bit 8 (drop_bit 8 (ucast crc) XOR of_char k)) = crc16_byte (ucast crc) k"
    by (simp only: crc16_8_xor [symmetric] split_bytes [symmetric]) (simp only: crc16_byte_def crc16_8_def)
  finally show ?thesis .
qed

lemma hash_loop_crc16: "ucast (foldl hash_step crc key) = foldl crc16_byte (ucast crc) key"
  by (induction key arbitrary: crc) (simp_all only: foldl.simps hash_step_crc16)

text \<open>The slot of the specification: the CRC modulo 16384.\<close>

definition key_slot :: "string \<Rightarrow> int" where
  "key_slot key = uint (crc16 key) mod 16384"

lemma hash_key_slot: "hash key = key_slot key"
proof -
  let ?c = "foldl hash_step 0 key"
  have "uint (?c mod 16384) = uint ?c mod 16384"
    by (simp add: uint_mod)
  also have "\<dots> = uint ?c mod 2 ^ 16 mod 2 ^ 14"
    by (simp add: mod_mod_cancel)
  also have "uint ?c mod 2 ^ 16 = uint (ucast ?c :: 16 word)"
    by (simp only: uint_up_ucast unsigned_ucast_eq take_bit_eq_mod) simp
  finally have u: "uint (?c mod 16384) = key_slot key"
    using hash_loop_crc16 [of 0 key] by (simp add: key_slot_def crc16_def)
  moreover have "sint (?c mod 16384) = uint (?c mod 16384)"
    by (simp only: sint_uint u) (simp add: key_slot_def signed_take_bit_int_eq_self)
  ultimately show ?thesis
    by (simp add: hash_def RedisClusterSlots_def)
qed

lemma key_slot_range: "0 \<le> key_slot key \<and> key_slot key < 16384"
  by (simp add: key_slot_def)

section \<open>Hash tags\<close>

text \<open>
  The part of the key the specification hashes: what stands between the first opening brace
  and the first closing brace to its right, when there is such text.
\<close>

definition hash_tag :: "string \<Rightarrow> string" where
  "hash_tag key =
     (case dropWhile (\<lambda>c. c \<noteq> CHR ''{'') key of
        [] \<Rightarrow> key
      | _ # rest \<Rightarrow>
          if CHR ''}'' \<in> set rest \<and> hd rest \<noteq> CHR ''}''
          then takeWhile (\<lambda>c. c \<noteq> CHR ''}'') rest else key)"

lemma hash_tag_no_brace: "CHR ''{'' \<notin> set key \<Longrightarrow> hash_tag key = key"
proof -
  assume "CHR ''{'' \<notin> set key"
  then have "dropWhile (\<lambda>c. c \<noteq> CHR ''{'') key = []"
    by (auto simp: dropWhile_eq_Nil_conv)
  then show ?thesis by (simp only: hash_tag_def list.case)
qed

lemma hash_tag_brace:
  "CHR ''{'' \<notin> set p \<Longrightarrow>
   hash_tag (p @ CHR ''{'' # rest) =
     (if CHR ''}'' \<in> set rest \<and> hd rest \<noteq> CHR ''}'' then takeWhile (\<lambda>c. c \<noteq> CHR ''}'') rest
      else p @ CHR ''{'' # rest)"
proof -
  assume "CHR ''{'' \<notin> set p"
  then have "dropWhile (\<lambda>c. c \<noteq> CHR ''{'') (p @ CHR ''{'' # rest) = CHR ''{'' # rest"
    by (induction p) auto
  then show ?thesis by (simp add: hash_tag_def)
qed

lemma Hash_no_brace: "CHR ''{'' \<notin> set key \<Longrightarrow> Hash key = hash key"
  by (simp add: Hash_def IndexByte_none Let_def)

text \<open>
  With an opening brace after \<open>p\<close>, where \<open>p\<close> has no closing brace, the Go code finds the same
  closing brace as the specification.
\<close>

lemma Hash_tag:
  assumes p: "CHR ''{'' \<notin> set p" "CHR ''}'' \<notin> set p"
  shows "Hash (p @ CHR ''{'' # rest) = hash (hash_tag (p @ CHR ''{'' # rest))"
proof -
  let ?key = "p @ CHR ''{'' # rest"
  have s: "IndexByte ?key (CHR ''{'') = int (length p)"
    using p(1) by (rule IndexByte_append)
  show ?thesis
  proof (cases "CHR ''}'' \<in> set rest")
    case False
    with p have "IndexByte ?key (CHR ''}'') = -1"
      by (simp add: IndexByte_none)
    with s False p show ?thesis
      by (simp add: Hash_def Let_def hash_tag_brace)
  next
    case True
    then obtain t q where rest: "rest = t @ CHR ''}'' # q" "CHR ''}'' \<notin> set t"
      by (meson split_list_first)
    have e: "IndexByte ?key (CHR ''}'') = int (length p) + 1 + int (length t)"
      using IndexByte_append [of "CHR ''}''" "p @ CHR ''{'' # t" q] p rest by simp
    have tw: "takeWhile (\<lambda>c. c \<noteq> CHR ''}'') rest = t"
      using rest by (simp add: takeWhile_append takeWhile_eq_all_conv[THEN iffD2])
    show ?thesis
    proof (cases "t = []")
      case True
      with s e rest p show ?thesis
        by (simp add: Hash_def Let_def hash_tag_brace)
    next
      case False
      then have "hd rest \<noteq> CHR ''}''"
        using rest by (cases t) auto
      with False s e rest p tw show ?thesis
        by (simp add: Hash_def Let_def hash_tag_brace) (simp add: nat_add_distrib)
    qed
  qed
qed

lemma Hash_hash_tag:
  assumes "CHR ''{'' \<in> set key \<Longrightarrow> CHR ''}'' \<notin> set (takeWhile (\<lambda>c. c \<noteq> CHR ''{'') key)"
  shows "Hash key = key_slot (hash_tag key)"
proof (cases "CHR ''{'' \<in> set key")
  case True
  then obtain p rest where k: "key = p @ CHR ''{'' # rest" "CHR ''{'' \<notin> set p"
    by (meson split_list_first)
  then have "takeWhile (\<lambda>c. c \<noteq> CHR ''{'') key = p"
    by (simp add: takeWhile_append takeWhile_eq_all_conv[THEN iffD2])
  with assms True k show ?thesis
    by (simp add: Hash_tag hash_key_slot)
qed (simp add: Hash_no_brace hash_tag_no_brace hash_key_slot)

lemma Hash_range: "0 \<le> Hash key \<and> Hash key < int RedisClusterSlots"
proof -
  have "0 \<le> hash k \<and> hash k < 16384" for k
    by (simp add: hash_key_slot key_slot_range)
  then show ?thesis
    by (simp add: Hash_def Let_def RedisClusterSlots_def)
qed

section \<open>Stated properties\<close>

text \<open>
  C30: \<open>Hash\<close> computes the slot of the Redis cluster specification (CRC-16/XMODEM of the hash tag,
  modulo 16384) for every key without a closing brace to the left of its first opening brace.
\<close>

theorem Hash_follows_cluster_spec:
  assumes "CHR ''{'' \<in> set key \<Longrightarrow> CHR ''}'' \<notin> set (takeWhile (\<lambda>c. c \<noteq> CHR ''{'') key)"
  shows "Hash key = key_slot (hash_tag key)"
  using assms by (rule Hash_hash_tag)

theorem Hash_follows_cluster_spec_witness:
  "Hash ''{user1000}.following'' = key_slot ''user1000''"
  using Hash_follows_cluster_spec [of "''{user1000}.following''"] by (simp add: hash_tag_def)

text \<open>Every key is hashed to one of the 16384 slots of the cluster.\<close>

theorem Hash_in_slot_range: "0 \<le> Hash key \<and> Hash key < int RedisClusterSlots"
  by (rule Hash_range)

text \<open>
  Where the hypothesis fails the code leaves the specification: with a closing brace before the
  opening one the whole key is hashed.
\<close>

lemma Hash_ignores_late_tag: "Hash ''}{a}'' = key_slot ''}{a}'' \<and> hash_tag ''}{a}'' = ''a''"
  by (simp add: Hash_def Let_def IndexByte_def hash_key_slot hash_tag_def)

end
