(* ===== verification/Client_Codec.thy ===== *)
theory Client_Codec
  imports Resp Commands Hashkit "HOL-Library.AList"
begin

text \<open>
  The decoder of client requests, \<^verbatim>\<open>src/core/codec_c.go\<close>: one definition per method of
  \<open>CRespCodec\<close>.

  A \<open>Request\<close> holds the fields of the source's \<open>Msg\<close> that the decoder fills; a Go map is an
  association list with one entry per key, in the order the keys were first stored. The order in
  which Go iterates over such a map does not matter here, since every iteration stores under its
  own key. A \<open>Request\<close> body maps a slot to the fragment to be sent to the node of the slot.

  Recognising the command lower-cases its bytes in place, inside the buffer that is forwarded;
  the model writes the lower-case bytes back to their position. Statistics and log lines are left out.

  The lemmas reduce the three argument loops to one (\<open>parse_args\<close>) and show what the decoder does
  on an encoded request followed by anything, on a proper prefix of one, and on arbitrary bytes.
\<close>

section \<open>Requests\<close>

record ReqFrag =
  rf_Key :: string
  rf_Req :: bytes

record Request =
  q_Type :: Command
  q_Keys :: "string list"
  q_Frags :: "(int \<times> string list) list"
  q_Frags2 :: "(int \<times> (string \<times> string) list) list"
  q_Body :: "(int \<times> ReqFrag) list"

text \<open>\<open>if v, ok := m[slot]; ok { m[slot] = append(v, x) } else { m[slot] = []T{x} }\<close>\<close>

definition slot_append :: "int \<Rightarrow> 'a \<Rightarrow> (int \<times> 'a list) list \<Rightarrow> (int \<times> 'a list) list" where
  "slot_append slot x m =
     (case map_of m slot of Some v \<Rightarrow> AList.update slot (v @ [x]) m | None \<Rightarrow> AList.update slot [x] m)"

section \<open>Argument loops\<close>

fun Frag1 :: "nat \<Rightarrow> Buffer \<Rightarrow> Request \<Rightarrow> (Buffer \<times> (err + Request)) go" where
  "Frag1 0 buf resp = Some (buf, Inr resp)"
| "Frag1 (Suc n) buf resp = and_then (parseLine buf) (\<lambda>buf seg.
     Frag1 n buf (resp\<lparr>q_Keys := q_Keys resp @ [seg],
                      q_Frags := slot_append (Hash seg) seg (q_Frags resp)\<rparr>))"

fun Frag2 :: "nat \<Rightarrow> Buffer \<Rightarrow> Request \<Rightarrow> (Buffer \<times> (err + Request)) go" where
  "Frag2 0 buf resp = Some (buf, Inr resp)"
| "Frag2 (Suc n) buf resp = and_then (parseLine buf) (\<lambda>buf seg. and_then (parseLine buf) (\<lambda>buf seg2.
     Frag2 n buf (resp\<lparr>q_Keys := q_Keys resp @ [seg],
                      q_Frags2 := slot_append (Hash seg) (seg, seg2) (q_Frags2 resp)\<rparr>)))"

text \<open>
  The loop of \<open>Default\<close> and \<open>Eval\<close>: it reads \<open>n\<close> more arguments, number \<open>i\<close> next, and keeps the
  argument number \<open>at\<close> as the key.
\<close>

fun key_loop :: "nat \<Rightarrow> nat \<Rightarrow> nat \<Rightarrow> Buffer \<Rightarrow> string \<times> int \<Rightarrow> (Buffer \<times> (err + string \<times> int)) go" where
  "key_loop at i 0 buf ks = Some (buf, Inr ks)"
| "key_loop at i (Suc n) buf ks = and_then (parseLine buf) (\<lambda>buf msg.
     key_loop at (Suc i) n buf (if i = at then (msg, Hash msg) else ks))"

definition C_Default :: "int \<Rightarrow> Buffer \<Rightarrow> Request \<Rightarrow> (Buffer \<times> (err + Request)) go" where
  "C_Default n buf resp =
     and_then (key_loop 0 0 (nat n) buf ([], 0)) (\<lambda>buf (key, slot). do {
       req \<leftarrow> ReadBuf buf;
       Some (buf, Inr (resp\<lparr>q_Body := AList.update slot \<lparr>rf_Key = key, rf_Req = req\<rparr> (q_Body resp)\<rparr>))
     })"

definition C_Eval :: "int \<Rightarrow> Buffer \<Rightarrow> Request \<Rightarrow> (Buffer \<times> (err + Request)) go" where
  "C_Eval n buf resp =
     (let resp = (if n < 3 then resp\<lparr>q_Type := ReqWrongArgumentsNumber\<rparr> else resp) in
      and_then (key_loop 2 0 (nat n) buf ([], 0)) (\<lambda>buf (key, slot). do {
        req \<leftarrow> ReadBuf buf;
        Some (buf, Inr (resp\<lparr>q_Body := AList.update slot \<lparr>rf_Key = key, rf_Req = req\<rparr> (q_Body resp)\<rparr>))
      }))"

section \<open>Building fragments\<close>

definition bulk_of :: "string \<Rightarrow> bytes" where
  "bulk_of k = CHR ''$'' # itoa (int (length k)) @ CRLF @ k @ CRLF"

fun C_MGet_loop :: "(int \<times> string list) list \<Rightarrow> (int \<times> ReqFrag) list \<Rightarrow> (int \<times> ReqFrag) list go" where
  "C_MGet_loop [] body = Some body"
| "C_MGet_loop ((slot, keys) # frags) body = do {
     key \<leftarrow> idx keys 0;
     let req = CHR ''*'' # itoa (int (length keys) + 1) @ CRLF @ ''$4'' @ CRLF @ ''mget'' @ CRLF
               @ concat (map bulk_of keys);
     C_MGet_loop frags (AList.update slot \<lparr>rf_Key = key, rf_Req = req\<rparr> body)
   }"

definition C_MGet :: "Request \<Rightarrow> Request go" where
  "C_MGet resp = do {
     body \<leftarrow> C_MGet_loop (q_Frags resp) (q_Body resp);
     Some (resp\<lparr>q_Body := body\<rparr>)
   }"

fun C_Del_loop :: "(int \<times> string list) list \<Rightarrow> (int \<times> ReqFrag) list \<Rightarrow> (int \<times> ReqFrag) list go" where
  "C_Del_loop [] body = Some body"
| "C_Del_loop ((slot, keys) # frags) body = do {
     key \<leftarrow> idx keys 0;
     let req = CHR ''*'' # itoa (int (length keys) + 1) @ CRLF @ ''$3'' @ CRLF @ ''del'' @ CRLF
               @ concat (map bulk_of keys);
     C_Del_loop frags (AList.update slot \<lparr>rf_Key = key, rf_Req = req\<rparr> body)
   }"

definition C_Del :: "Request \<Rightarrow> Request go" where
  "C_Del resp = do {
     body \<leftarrow> C_Del_loop (q_Frags resp) (q_Body resp);
     Some (resp\<lparr>q_Body := body\<rparr>)
   }"

fun C_MSet_loop :: "(int \<times> (string \<times> string) list) list \<Rightarrow> (int \<times> ReqFrag) list \<Rightarrow> (int \<times> ReqFrag) list go" where
  "C_MSet_loop [] body = Some body"
| "C_MSet_loop ((slot, keys) # frags) body = do {
     (key, _) \<leftarrow> idx keys 0;
     let req = CHR ''*'' # itoa (int (length keys) * 2 + 1) @ CRLF @ ''$4'' @ CRLF @ ''mset'' @ CRLF
               @ concat (map (\<lambda>(k, v). bulk_of k @ bulk_of v) keys);
     C_MSet_loop frags (AList.update slot \<lparr>rf_Key = key, rf_Req = req\<rparr> body)
   }"

definition C_MSet :: "Request \<Rightarrow> Request go" where
  "C_MSet resp = do {
     body \<leftarrow> C_MSet_loop (q_Frags2 resp) (q_Body resp);
     Some (resp\<lparr>q_Body := body\<rparr>)
   }"

section \<open>Decoding a request\<close>

definition C_sizeTooLarge :: "int \<Rightarrow> int \<Rightarrow> bool" where
  "C_sizeTooLarge MsgMaxLength sz = (if sz > MsgMaxLength then True else False)"

text \<open>The write of \<open>toLower\<close> into the slice \<open>msg\<close> that \<open>parseLine\<close> has just returned from \<open>buf\<close>.\<close>

definition store_back :: "Buffer \<Rightarrow> bytes \<Rightarrow> Buffer go" where
  "store_back buf msg = do {
     bs \<leftarrow> copy_at (b_buf buf) (b_r buf - 2 - int (length msg)) msg;
     Some (buf\<lparr>b_buf := bs\<rparr>)
   }"

text \<open>The switch of \<open>Decode\<close> over the command type, on the message it has just allocated.\<close>

definition C_switch :: "int \<Rightarrow> Command \<Rightarrow> Buffer \<Rightarrow> (Buffer \<times> (err + Request option)) go" where
  "C_switch n ty buf =
     (let resp = \<lparr>q_Type = ty, q_Keys = [], q_Frags = [], q_Frags2 = [], q_Body = []\<rparr> in
      if ty = ReqMget then
        and_then (Frag1 (nat n) buf resp) (\<lambda>buf resp. do {
          resp \<leftarrow> C_MGet resp; Some (buf, Inr (Some resp)) })
      else if ty = ReqDel then
        and_then (Frag1 (nat n) buf resp) (\<lambda>buf resp. do {
          resp \<leftarrow> C_Del resp; Some (buf, Inr (Some resp)) })
      else if ty = ReqMset then
        and_then (Frag2 (nat ((n + 1) div 2)) buf resp) (\<lambda>buf resp. do {
          resp \<leftarrow> C_MSet resp; Some (buf, Inr (Some resp)) })
      else if ty = ReqEval \<or> ty = ReqEvalsha then
        and_then (C_Eval n buf resp) (\<lambda>buf resp. Some (buf, Inr (Some resp)))
      else
        and_then (C_Default n buf resp) (\<lambda>buf resp. Some (buf, Inr (Some resp))))"

text \<open>
  \<open>Decode\<close> on the bytes that \<open>c.Peek(0)\<close> returned. The result is an error, or the pair
  \<open>(nil, nil)\<close> as \<open>Inr None\<close>, or a message; after a message the caller discards the \<open>ReadSize\<close>
  of the returned buffer.
\<close>

definition C_Decode :: "int \<Rightarrow> bytes \<Rightarrow> (Buffer \<times> (err + Request option)) go" where
  "C_Decode MsgMaxLength bs =
     (let buf = NewBuffer bs in
      if Empty buf then Some (buf, Inl ErrIncompletePacket)
      else do {
        (buf, line) \<leftarrow> ReadLine buf;
        (case line of
           Inl _ \<Rightarrow> Some (buf, Inl ErrIncompletePacket)
         | Inr line \<Rightarrow> do {
             c \<leftarrow> idx line 0;
             (if c = CHR ''*'' then
                (case parseLen (drop 1 line) of (n, e) \<Rightarrow>
                   if n < 1 \<or> e \<noteq> None then Some (buf, case e of Some e \<Rightarrow> Inl e | None \<Rightarrow> Inr None)
                   else and_then (parseLine buf) (\<lambda>buf msg.
                     let n = n - 1; (msg, ty) = Transform2Type msg n in do {
                       buf \<leftarrow> store_back buf msg;
                       let ty = (if C_sizeTooLarge MsgMaxLength (TotalSize buf) then ReqTooLarge else ty);
                       C_switch n ty buf
                     }))
              else Some (buf, Inl ErrInvalidResp))
           })
      })"

section \<open>One loop for all arguments\<close>

fun parse_args :: "nat \<Rightarrow> Buffer \<Rightarrow> (Buffer \<times> (err + bytes list)) go" where
  "parse_args 0 buf = Some (buf, Inr [])"
| "parse_args (Suc n) buf = and_then (parseLine buf) (\<lambda>buf x.
     and_then (parse_args n buf) (\<lambda>buf xs. Some (buf, Inr (x # xs))))"

definition group_by :: "('a \<Rightarrow> int) \<Rightarrow> (int \<times> 'a list) list \<Rightarrow> 'a list \<Rightarrow> (int \<times> 'a list) list" where
  "group_by f m xs = foldl (\<lambda>m x. slot_append (f x) x m) m xs"

lemma group_by_simps [simp]:
  "group_by f m [] = m"
  "group_by f m (x # xs) = group_by f (slot_append (f x) x m) xs"
  by (simp_all add: group_by_def)

fun pairs_of :: "'a list \<Rightarrow> ('a \<times> 'a) list" where
  "pairs_of (x # y # zs) = (x, y) # pairs_of zs"
| "pairs_of _ = []"

lemma and_then_assoc:
  "and_then (and_then m f) g = and_then m (\<lambda>b x. and_then (f b x) g)"
  by (cases m) (auto simp: and_then_def split: sum.splits)

lemma Frag1_parse_args:
  "Frag1 n buf resp = and_then (parse_args n buf) (\<lambda>buf xs.
     Some (buf, Inr (resp\<lparr>q_Keys := q_Keys resp @ xs, q_Frags := group_by Hash (q_Frags resp) xs\<rparr>)))"
  by (induction n arbitrary: buf resp) (simp_all add: and_then_assoc)

lemma Frag2_parse_args:
  "Frag2 n buf resp = and_then (parse_args (2 * n) buf) (\<lambda>buf xs.
     Some (buf, Inr (resp\<lparr>q_Keys := q_Keys resp @ map fst (pairs_of xs),
       q_Frags2 := group_by (Hash \<circ> fst) (q_Frags2 resp) (pairs_of xs)\<rparr>)))"
  by (induction n arbitrary: buf resp) (simp_all add: and_then_assoc)

definition key_at :: "nat \<Rightarrow> string list \<Rightarrow> string \<times> int \<Rightarrow> string \<times> int" where
  "key_at k xs d = (if k < length xs then (xs ! k, Hash (xs ! k)) else d)"

lemma key_loop_parse_args:
  "key_loop k i n buf d = and_then (parse_args n buf) (\<lambda>buf xs.
     Some (buf, Inr (if i \<le> k then key_at (k - i) xs d else d)))"
proof (induction n arbitrary: i buf d)
  case (Suc n)
  have "(if Suc i \<le> k then key_at (k - Suc i) xs (if i = k then (x, Hash x) else d)
      else (if i = k then (x, Hash x) else d)) = (if i \<le> k then key_at (k - i) (x # xs) d else d)" for x xs
    by (cases "i < k") (auto simp: key_at_def Suc_diff_Suc [symmetric])
  with Suc show ?case by (simp add: and_then_assoc)
qed (simp add: key_at_def)

lemma parse_args_enc:
  "\<forall>x \<in> set xs. int (length x) < 2 ^ 63 \<Longrightarrow>
   parse_args (length xs) (cursor pre (enc_args xs @ rest)) = Some (cursor (pre @ enc_args xs) rest, Inr xs)"
proof (induction xs arbitrary: pre)
  case (Cons x xs)
  then have "parseLine (cursor pre (enc_bulk x @ enc_args xs @ rest)) =
      Some (cursor (pre @ enc_bulk x) (enc_args xs @ rest), Inr x)"
    by (intro parseLine_bulk) simp
  with Cons show ?case by simp
qed simp

lemma parse_args_total:
  obtains pre' rest' res where "parse_args n (cursor pre rest) = Some (cursor pre' rest', res)"
    "pre' @ rest' = pre @ rest" "length pre \<le> length pre'"
proof (induction n arbitrary: pre rest thesis)
  case 0
  show ?case by (rule 0 [of pre rest "Inr []"]) simp_all
next
  case (Suc n)
  obtain pre1 rest1 res1 where 1: "parseLine (cursor pre rest) = Some (cursor pre1 rest1, res1)"
    "pre1 @ rest1 = pre @ rest" "length pre \<le> length pre1" by (rule parseLine_total)
  show ?case
  proof (cases res1)
    case (Inl e)
    show ?thesis by (rule Suc.prems [of pre1 rest1 "Inl e"]) (use 1 Inl in simp_all)
  next
    case (Inr x)
    obtain pre2 rest2 res2 where 2: "parse_args n (cursor pre1 rest1) = Some (cursor pre2 rest2, res2)"
      "pre2 @ rest2 = pre1 @ rest1" "length pre1 \<le> length pre2" by (rule Suc.IH)
    have "parse_args (Suc n) (cursor pre rest) =
        Some (cursor pre2 rest2, case res2 of Inl e \<Rightarrow> Inl e | Inr xs \<Rightarrow> Inr (x # xs))"
      using 1 2 Inr by (cases res2) simp_all
    then show ?thesis by (rule Suc.prems) (use 1 2 in simp_all)
  qed
qed

text \<open>A proper prefix of the encoded arguments is reported as incomplete.\<close>

lemma parse_args_prefix:
  "strict_prefix p (enc_args xs) \<Longrightarrow> \<forall>x \<in> set xs. int (length x) < 2 ^ 63 \<Longrightarrow>
   \<exists>buf e. parse_args (length xs) (cursor pre p) = Some (buf, Inl e) \<and> waits e"
proof (induction xs arbitrary: p pre)
  case (Cons x xs)
  have len: "int (length x) < 2 ^ 63" using Cons.prems(2) by simp
  from Cons.prems(1) have "strict_prefix p (enc_bulk x @ enc_args xs)" by simp
  then show ?case
  proof (cases rule: strict_prefix_append_cases)
    case 1
    obtain pre' rest' e where "parseLine (cursor pre p) = Some (cursor pre' rest', Inl e)"
      "e \<in> {EmptyLine, ErrLFNotFound, ShortLine}" by (rule parseLine_prefix [OF 1 len])
    then show ?thesis by (auto simp: waits_def)
  next
    case (2 q)
    have "parseLine (cursor pre p) = Some (cursor (pre @ enc_bulk x) q, Inr x)"
      using parseLine_bulk [OF len, of pre q] 2(1) by simp
    with Cons.IH [OF 2(2), of "pre @ enc_bulk x"] Cons.prems(2) show ?thesis by auto
  qed
qed simp

section \<open>Grouping keys by slot\<close>

lemma map_of_slot_append:
  "map_of (slot_append s x m) = (map_of m)(s \<mapsto> (case map_of m s of None \<Rightarrow> [] | Some v \<Rightarrow> v) @ [x])"
  by (auto simp: slot_append_def update_conv' split: option.splits)

lemma distinct_slot_append: "distinct (map fst m) \<Longrightarrow> distinct (map fst (slot_append s x m))"
  by (auto simp: slot_append_def distinct_update split: option.splits)

lemma distinct_group_by: "distinct (map fst m) \<Longrightarrow> distinct (map fst (group_by f m xs))"
  by (induction xs arbitrary: m) (simp_all add: distinct_slot_append)

lemma map_of_group_by_gen:
  "map_of (group_by f m xs) s =
   (if filter (\<lambda>x. f x = s) xs = [] then map_of m s
    else Some ((case map_of m s of None \<Rightarrow> [] | Some v \<Rightarrow> v) @ filter (\<lambda>x. f x = s) xs))"
  by (induction xs arbitrary: m) (auto simp: map_of_slot_append)

text \<open>The keys of a slot, in the order of the request.\<close>

lemma map_of_group_by:
  "map_of (group_by f [] xs) s =
   (if filter (\<lambda>x. f x = s) xs = [] then None else Some (filter (\<lambda>x. f x = s) xs))"
  by (simp add: map_of_group_by_gen)

lemma group_by_nonempty: "(s, v) \<in> set (group_by f [] xs) \<Longrightarrow> v \<noteq> []"
proof -
  assume "(s, v) \<in> set (group_by f [] xs)"
  then have "map_of (group_by f [] xs) s = Some v"
    by (simp add: map_of_is_SomeI distinct_group_by)
  then show ?thesis by (auto simp: map_of_group_by split: if_splits)
qed

section \<open>Fragments are requests\<close>

lemma bulk_of_enc: "bulk_of = enc_bulk"
  by (simp add: fun_eq_iff bulk_of_def enc_bulk_def itoa_def)

lemma itoa_nat_digit: "n < 10 \<Longrightarrow> itoa_nat n = [digit_char n]"
  by (subst itoa_nat.simps) simp

lemma digit_chars:
  "digit_char (Suc (Suc (Suc 0))) = CHR ''3''" "digit_char (Suc (Suc (Suc (Suc 0)))) = CHR ''4''"
  by code_simp+

lemma enc_bulk_literals:
  "enc_bulk ''mget'' = ''$4'' @ CRLF @ ''mget'' @ CRLF"
  "enc_bulk ''mset'' = ''$4'' @ CRLF @ ''mset'' @ CRLF"
  "enc_bulk ''del'' = ''$3'' @ CRLF @ ''del'' @ CRLF"
  by (simp_all add: enc_bulk_def itoa_nat_digit digit_chars)

lemma itoa_of_nat: "itoa (int n) = itoa_nat n" "itoa (int n + 1) = itoa_nat (Suc n)"
  "itoa (int n * 2 + 1) = itoa_nat (Suc (2 * n))"
  by (simp_all add: itoa_def nat_add_distrib nat_mult_distrib mult.commute)

text \<open>The fragment of a slot: the same command on the keys (and values) of the slot.\<close>

definition keys_frag :: "string \<Rightarrow> string list \<Rightarrow> ReqFrag" where
  "keys_frag name ks = \<lparr>rf_Key = hd ks, rf_Req = enc_request (name # ks)\<rparr>"

definition pairs_frag :: "string \<Rightarrow> (string \<times> string) list \<Rightarrow> ReqFrag" where
  "pairs_frag name ps = \<lparr>rf_Key = fst (hd ps), rf_Req = enc_request (name # concat (map (\<lambda>(k, v). [k, v]) ps))\<rparr>"

definition put_frags :: "('a \<Rightarrow> ReqFrag) \<Rightarrow> (int \<times> 'a) list \<Rightarrow> (int \<times> ReqFrag) list \<Rightarrow> (int \<times> ReqFrag) list" where
  "put_frags f frags body = foldl (\<lambda>b (s, x). AList.update s (f x) b) body frags"

lemma C_MGet_loop_frags:
  "\<forall>(s, ks) \<in> set frags. ks \<noteq> [] \<Longrightarrow>
   C_MGet_loop frags body = Some (put_frags (keys_frag ''mget'') frags body)"
  by (induction frags body rule: C_MGet_loop.induct)
    (auto simp: put_frags_def idx_0 keys_frag_def enc_request_def enc_header_def enc_bulk_literals
      bulk_of_enc enc_args_def itoa_of_nat Let_def)

lemma C_Del_loop_frags:
  "\<forall>(s, ks) \<in> set frags. ks \<noteq> [] \<Longrightarrow>
   C_Del_loop frags body = Some (put_frags (keys_frag ''del'') frags body)"
  by (induction frags body rule: C_Del_loop.induct)
    (auto simp: put_frags_def idx_0 keys_frag_def enc_request_def enc_header_def enc_bulk_literals
      bulk_of_enc enc_args_def itoa_of_nat Let_def)

lemma pairs_enc_args:
  "concat (map (\<lambda>(k, v). enc_bulk k @ enc_bulk v) ps) = enc_args (concat (map (\<lambda>(k, v). [k, v]) ps))"
  "length (concat (map (\<lambda>(k, v). [k, v]) ps)) = 2 * length ps"
  by (induction ps) auto

lemma C_MSet_loop_frags:
  "\<forall>(s, ps) \<in> set frags. ps \<noteq> [] \<Longrightarrow>
   C_MSet_loop frags body = Some (put_frags (pairs_frag ''mset'') frags body)"
proof (induction frags body rule: C_MSet_loop.induct)
  case (2 slot keys frags body)
  then have "idx keys 0 = Some (hd keys)" by (simp add: idx_0)
  with 2 show ?case
    by (cases "hd keys")
      (auto simp: put_frags_def pairs_frag_def enc_request_def enc_header_def
        enc_bulk_literals bulk_of_enc itoa_of_nat Let_def pairs_enc_args)
qed (simp add: put_frags_def)

lemma map_of_put_frags:
  "distinct (map fst frags) \<Longrightarrow>
   map_of (put_frags f frags body) s =
     (case map_of frags s of None \<Rightarrow> map_of body s | Some x \<Rightarrow> Some (f x))"
proof (induction frags arbitrary: body)
  case (Cons a frags)
  obtain t x where a: "a = (t, x)" by fastforce
  from Cons.prems a have "map_of frags t = None" by (simp add: map_of_eq_None_iff)
  with Cons a show ?case by (auto simp: put_frags_def update_conv' split: option.splits)
qed (simp add: put_frags_def)

lemma fst_update: "fst ` set (AList.update k v al) = insert k (fst ` set al)"
  using dom_update [of k v al] by (simp add: dom_map_of_conv_image_fst)

lemma put_frags_keys:
  "set (map fst (put_frags f frags body)) = set (map fst frags) \<union> set (map fst body)"
  by (induction frags arbitrary: body) (simp_all add: put_frags_def fst_update split_beta)

section \<open>Decoding after the command\<close>

text \<open>The request built from the argument list \<open>xs\<close> and the raw bytes \<open>raw\<close> read so far.\<close>

definition built :: "Command \<Rightarrow> bytes \<Rightarrow> bytes list \<Rightarrow> Request" where
  "built ty raw xs =
     (let r = \<lparr>q_Type = ty, q_Keys = [], q_Frags = [], q_Frags2 = [], q_Body = []\<rparr>;
          g = group_by Hash [] xs; g2 = group_by (Hash \<circ> fst) [] (pairs_of xs) in
      if ty = ReqMget then
        r\<lparr>q_Keys := xs, q_Frags := g, q_Body := put_frags (keys_frag ''mget'') g []\<rparr>
      else if ty = ReqDel then
        r\<lparr>q_Keys := xs, q_Frags := g, q_Body := put_frags (keys_frag ''del'') g []\<rparr>
      else if ty = ReqMset then
        r\<lparr>q_Keys := map fst (pairs_of xs), q_Frags2 := g2, q_Body := put_frags (pairs_frag ''mset'') g2 []\<rparr>
      else if ty = ReqEval \<or> ty = ReqEvalsha then
        (case key_at 2 xs ([], 0) of (k, s) \<Rightarrow>
           r\<lparr>q_Type := (if length xs < 3 then ReqWrongArgumentsNumber else ty),
             q_Body := [(s, \<lparr>rf_Key = k, rf_Req = raw\<rparr>)]\<rparr>)
      else
        (case key_at 0 xs ([], 0) of (k, s) \<Rightarrow> r\<lparr>q_Body := [(s, \<lparr>rf_Key = k, rf_Req = raw\<rparr>)]\<rparr>))"

lemma parse_args_length: "parse_args n buf = Some (buf', Inr xs) \<Longrightarrow> length xs = n"
proof (induction n arbitrary: buf xs)
  case (Suc n)
  then show ?case
    by (auto simp: and_then_def split: bind_splits sum.splits prod.splits)
qed simp

lemma group_by_values:
  "\<forall>(s, v) \<in> set (group_by f [] xs). v \<noteq> []"
  using group_by_nonempty by fast

lemma mset_count: "even n \<Longrightarrow> 2 * nat (int n div 2) = n"
  by (auto elim!: evenE)

lemma C_switch_ok:
  assumes args: "parse_args n (cursor pre rest) = Some (cursor pre' rest', Inr xs)"
    and even: "ty = ReqMset \<Longrightarrow> even n"
  shows "C_switch (int n) ty (cursor pre rest) = Some (cursor pre' rest', Inr (Some (built ty pre' xs)))"
proof -
  have len: "length xs = n" using args by (rule parse_args_length)
  note g = group_by_values [of Hash xs] group_by_values [of "Hash \<circ> fst" "pairs_of xs"]
  show ?thesis
  proof (cases "ty = ReqMset")
    case True
    with args even g show ?thesis
      by (simp add: C_switch_def Let_def Frag2_parse_args mset_count C_MSet_def C_MSet_loop_frags built_def)
  next
    case False
    with args g len show ?thesis
      by (auto simp: C_switch_def Let_def Frag1_parse_args C_MGet_def C_MGet_loop_frags
          C_Del_def C_Del_loop_frags C_Eval_def C_Default_def key_loop_parse_args built_def
          split: prod.splits)
  qed
qed

lemma C_switch_fail:
  assumes args: "parse_args n buf = Some (buf', Inl e)"
    and even: "ty = ReqMset \<Longrightarrow> even n"
  shows "C_switch (int n) ty buf = Some (buf', Inl e)"
  using assms
  by (auto simp: C_switch_def Let_def Frag1_parse_args Frag2_parse_args mset_count
      C_Eval_def C_Default_def key_loop_parse_args)

section \<open>Decoding a whole request\<close>

lemma store_back_bulk:
  assumes "length msg = length cmd"
  shows "store_back (cursor (pre @ enc_bulk cmd) rest) msg = Some (cursor (pre @ enc_bulk msg) rest)"
proof -
  let ?h = "pre @ CHR ''$'' # itoa_nat (length cmd) @ CRLF"
  have b: "b_buf (cursor (pre @ enc_bulk cmd) rest) = ?h @ cmd @ CRLF @ rest"
    and r: "b_r (cursor (pre @ enc_bulk cmd) rest) - 2 - int (length msg) = int (length ?h)"
    using assms by (simp_all add: enc_bulk_def)
  have "copy_at (?h @ cmd @ CRLF @ rest) (int (length ?h)) msg = Some (?h @ msg @ CRLF @ rest)"
    using copy_at_fits [of msg "cmd @ CRLF @ rest" ?h] assms by simp
  then show ?thesis
    unfolding store_back_def b r using assms by (simp add: enc_bulk_def cursor_def)
qed

definition type_of :: "int \<Rightarrow> bytes \<Rightarrow> nat \<Rightarrow> bytes \<Rightarrow> Command" where
  "type_of MsgMaxLength cmd n whole =
     (if int (length whole) > MsgMaxLength then ReqTooLarge else snd (Transform2Type cmd (int n)))"

lemma C_Decode_command:
  assumes "int (Suc k) < 2 ^ 63" "int (length cmd) < 2 ^ 63"
    and whole: "whole = enc_header (Suc k) @ enc_bulk cmd @ rest"
  shows "C_Decode MsgMaxLength whole = C_switch (int k) (type_of MsgMaxLength cmd k whole)
      (cursor (enc_header (Suc k) @ enc_bulk (toLower cmd)) rest)"
proof -
  let ?h = "CHR ''*'' # itoa_nat (Suc k)"
  let ?buf = "cursor ((?h @ CRLF) @ enc_bulk (toLower cmd)) rest"
  have "ReadLine (cursor [] (?h @ CRLF @ enc_bulk cmd @ rest)) =
      Some (cursor (?h @ CRLF) (enc_bulk cmd @ rest), Inr ?h)"
    using ReadLine_line [of ?h "[]" "enc_bulk cmd @ rest"] itoa_nat_no_LF by simp
  moreover have "idx ?h 0 = Some CHR ''*''" by (simp add: idx_def)
  moreover have "parseLen (drop 1 ?h) = (int (Suc k), None)"
    using parseLen_itoa [OF assms(1)] by simp
  moreover have "parseLine (cursor (?h @ CRLF) (enc_bulk cmd @ rest)) =
      Some (cursor ((?h @ CRLF) @ enc_bulk cmd) rest, Inr cmd)"
    by (rule parseLine_bulk [OF assms(2)])
  moreover have "fst (Transform2Type cmd (int k)) = toLower cmd"
    by (simp add: Transform2Type_def Let_def)
  moreover have "store_back (cursor ((?h @ CRLF) @ enc_bulk cmd) rest) (toLower cmd) = Some ?buf"
    by (rule store_back_bulk) simp
  moreover have "TotalSize ?buf = int (length whole)"
    by (simp add: TotalSize_def whole enc_header_def enc_bulk_def)
  ultimately show ?thesis
    by (simp add: C_Decode_def Let_def NewBuffer_cursor enc_header_def Empty_def split_beta
        type_of_def C_sizeTooLarge_def whole)
qed

lemma Transform2Type_mset:
  assumes "snd (Transform2Type cmd (int n)) = ReqMset"
  shows "even n"
proof -
  from assms obtain v where v: "checkArgs v (int n) = ReqMset"
    by (auto simp: Transform2Type_def Let_def split: option.splits)
  then have "v = ReqMset" by (auto simp: checkArgs_def split: option.splits if_splits)
  moreover have "map_of CommandType2ArgsNumber ReqMset = Some NargsEvenInf" by code_simp
  ultimately have "\<not> int n mod 2 = 1" using v by (auto simp: checkArgs_def split: if_splits)
  then show ?thesis by presburger
qed

lemma type_of_mset: "type_of MsgMaxLength cmd n whole = ReqMset \<Longrightarrow> even n"
  by (auto simp: type_of_def Transform2Type_mset split: if_splits)

text \<open>
  Sizes of a request that Go can hold: fewer than \<open>2\<^sup>6\<^sup>3\<close> arguments, each of fewer than \<open>2\<^sup>6\<^sup>3\<close> bytes.
\<close>

definition go_sized :: "bytes list \<Rightarrow> bool" where
  "go_sized xs \<longleftrightarrow> int (length xs) < 2 ^ 63 \<and> (\<forall>x \<in> set xs. int (length x) < 2 ^ 63)"

lemma enc_request_Cons: "enc_request (cmd # xs) = enc_header (Suc (length xs)) @ enc_bulk cmd @ enc_args xs"
  by (simp add: enc_request_def)

lemma C_Decode_request:
  assumes "go_sized (cmd # xs)"
  shows "C_Decode MsgMaxLength (enc_request (cmd # xs) @ rest) =
    Some (cursor (enc_request (toLower cmd # xs)) rest,
      Inr (Some (built (type_of MsgMaxLength cmd (length xs) (enc_request (cmd # xs) @ rest))
                 (enc_request (toLower cmd # xs)) xs)))"
proof -
  let ?whole = "enc_request (cmd # xs) @ rest"
  let ?pre = "enc_header (Suc (length xs)) @ enc_bulk (toLower cmd)"
  have len: "int (Suc (length xs)) < 2 ^ 63" "int (length cmd) < 2 ^ 63"
    "\<forall>x \<in> set xs. int (length x) < 2 ^ 63"
    using assms by (simp_all add: go_sized_def)
  have "C_Decode MsgMaxLength ?whole = C_switch (int (length xs))
      (type_of MsgMaxLength cmd (length xs) ?whole) (cursor ?pre (enc_args xs @ rest))"
    by (rule C_Decode_command [OF len(1,2)]) (simp add: enc_request_Cons)
  also have "\<dots> = Some (cursor (?pre @ enc_args xs) rest,
      Inr (Some (built (type_of MsgMaxLength cmd (length xs) ?whole) (?pre @ enc_args xs) xs)))"
    by (rule C_switch_ok [OF parse_args_enc [OF len(3)]]) (rule type_of_mset)
  finally show ?thesis by (simp add: enc_request_Cons)
qed

lemma C_Decode_prefix:
  assumes sized: "go_sized (cmd # xs)" and p: "strict_prefix p (enc_request (cmd # xs))"
  shows "\<exists>buf e. C_Decode MsgMaxLength p = Some (buf, Inl e) \<and> waits e"
proof -
  have len: "int (Suc (length xs)) < 2 ^ 63" "int (length cmd) < 2 ^ 63"
    "\<forall>x \<in> set xs. int (length x) < 2 ^ 63"
    using sized by (simp_all add: go_sized_def)
  define h where "h = CHR ''*'' # itoa_nat (Suc (length xs))"
  have h: "LF \<notin> set h" "h \<noteq> []" "idx h 0 = Some CHR ''*''" "parseLen (drop 1 h) = (int (Suc (length xs)), None)"
    using itoa_nat_no_LF parseLen_itoa [OF len(1)] by (auto simp: h_def idx_def)
  have "strict_prefix p ((h @ [CR]) @ [LF] @ enc_bulk cmd @ enc_args xs)"
    using p by (simp add: enc_request_Cons enc_header_def h_def)
  then show ?thesis
  proof (cases rule: strict_prefix_append_cases)
    case 1
    then have "LF \<notin> set p" using set_mono_prefix [of p "h @ [CR]"] h(1) by (auto simp: strict_prefix_def)
    then show ?thesis
      using ReadLine_no_LF [of p "[]"]
      by (cases "p = []") (simp_all add: C_Decode_def Let_def NewBuffer_cursor Empty_def waits_def)
  next
    case (2 q)
    then consider "q = []" | q' where "q = LF # q'" "strict_prefix q' (enc_bulk cmd @ enc_args xs)"
      by (cases q) auto
    then show ?thesis
    proof cases
      case 1
      then have "LF \<notin> set p" "p \<noteq> []" using 2 h(1) by auto
      then show ?thesis
        using ReadLine_no_LF [of p "[]"]
        by (simp add: C_Decode_def Let_def NewBuffer_cursor Empty_def waits_def)
    next
      case (2 q')
      note q' = this
      from q'(2) show ?thesis
      proof (cases rule: strict_prefix_append_cases)
        case 1
        obtain pre' rest' e where e: "parseLine (cursor (h @ CRLF) q') = Some (cursor pre' rest', Inl e)"
          "e \<in> {EmptyLine, ErrLFNotFound, ShortLine}" by (rule parseLine_prefix [OF 1 len(2)])
        have "ReadLine (cursor [] p) = Some (cursor (h @ CRLF) q', Inr h)"
          using ReadLine_line [OF h(1,2), of "[]" q'] \<open>p = (h @ [CR]) @ q\<close> q'(1) by simp
        with e h \<open>p = (h @ [CR]) @ q\<close> show ?thesis
          by (auto simp: C_Decode_def Let_def NewBuffer_cursor Empty_def waits_def)
      next
        case (2 q2)
        have "p = enc_header (Suc (length xs)) @ enc_bulk cmd @ q2"
          using \<open>p = (h @ [CR]) @ q\<close> q'(1) 2(1) by (simp add: enc_header_def h_def)
        note dec = C_Decode_command [OF len(1,2) this, of MsgMaxLength]
        from parse_args_prefix [OF 2(2) len(3)] obtain buf e where
          "parse_args (length xs) (cursor (enc_header (Suc (length xs)) @ enc_bulk (toLower cmd)) q2)
            = Some (buf, Inl e)" "waits e" by blast
        with C_switch_fail [OF this(1) type_of_mset] dec show ?thesis by auto
      qed
    qed
  qed
qed

text \<open>On arbitrary bytes.\<close>

lemma store_back_total:
  assumes "length pre0 + 2 + length msg \<le> length pre"
  shows "\<exists>pre'. store_back (cursor pre rest) msg = Some (cursor pre' rest) \<and> length pre' = length pre"
proof -
  define a where "a = take (length pre - 2 - length msg) pre"
  define z where "z = drop (length pre - 2 - length msg) pre"
  have pre: "pre = a @ z" by (simp add: a_def z_def)
  have la: "b_r (cursor pre rest) - 2 - int (length msg) = int (length a)"
    and lz: "length msg \<le> length z" using assms by (simp_all add: a_def z_def)
  have "copy_at (a @ z @ rest) (int (length a)) msg = Some (a @ msg @ drop (length msg) (z @ rest))"
    by (rule copy_at_fits) (use lz in simp)
  then have "store_back (cursor pre rest) msg =
      Some (cursor (a @ msg @ drop (length msg) z) rest)"
    unfolding store_back_def la using lz by (simp add: pre cursor_def)
  moreover have "length (a @ msg @ drop (length msg) z) = length pre" using pre lz by simp
  ultimately show ?thesis by blast
qed

lemma C_switch_total:
  assumes "ty = ReqMset \<Longrightarrow> even n"
  shows "\<exists>pre' rest' res. C_switch (int n) ty (cursor pre rest) = Some (cursor pre' rest', res) \<and>
    length pre \<le> length pre' \<and> pre' @ rest' = pre @ rest \<and> res \<noteq> Inr None"
proof -
  obtain pre' rest' res where 1: "parse_args n (cursor pre rest) = Some (cursor pre' rest', res)"
    "pre' @ rest' = pre @ rest" "length pre \<le> length pre'" by (rule parse_args_total)
  show ?thesis
  proof (cases res)
    case (Inl e)
    with C_switch_fail [OF _ assms] 1 show ?thesis by blast
  next
    case (Inr xs)
    with C_switch_ok [OF _ assms] 1 show ?thesis by blast
  qed
qed

lemma C_Decode_line:
  assumes "ReadLine (cursor [] bs) = Some (buf, Inr l)" "l \<noteq> []" "bs \<noteq> []" "parseLen (drop 1 l) = (n, e)"
  shows "C_Decode MsgMaxLength bs =
    (if hd l = CHR ''*'' then
       if n < 1 \<or> e \<noteq> None then Some (buf, case e of Some e \<Rightarrow> Inl e | None \<Rightarrow> Inr None)
       else and_then (parseLine buf) (\<lambda>buf msg. do {
         buf \<leftarrow> store_back buf (toLower msg);
         C_switch (n - 1) (if C_sizeTooLarge MsgMaxLength (TotalSize buf) then ReqTooLarge
                           else snd (Transform2Type msg (n - 1))) buf })
     else Some (buf, Inl ErrInvalidResp))"
proof -
  have "fst (Transform2Type msg k) = toLower msg" for msg k
    by (simp add: Transform2Type_def Let_def)
  then show ?thesis
    using assms by (simp add: C_Decode_def Let_def NewBuffer_cursor Empty_def idx_0 split_beta)
qed

lemma C_Decode_total:
  "\<exists>pre rest res. C_Decode MsgMaxLength bs = Some (cursor pre rest, res) \<and>
     length pre + length rest = length bs \<and> (\<forall>r. res = Inr r \<longrightarrow> pre \<noteq> [])"
proof (cases rule: ReadLine_cases [of bs "[]"])
  case (line l rest)
  obtain n e where ne: "parseLen (drop 1 l) = (n, e)" by fastforce
  have "bs \<noteq> []" using line(1) by simp
  note dec = C_Decode_line [OF line(4,3) this ne]
  show ?thesis
  proof (cases "hd l = CHR ''*'' \<and> \<not> (n < 1 \<or> e \<noteq> None)")
    case False
    then have "C_Decode MsgMaxLength bs = Some (cursor (l @ CRLF) rest,
        if hd l = CHR ''*'' then (case e of Some e \<Rightarrow> Inl e | None \<Rightarrow> Inr None) else Inl ErrInvalidResp)"
      by (auto simp: dec)
    then show ?thesis using line(1) by (intro exI [of _ "l @ CRLF"] exI [of _ rest] exI conjI) auto
  next
    case True
    then obtain k where k: "n = int (Suc k)"
      by (metis int_one_le_iff_zero_less not_less gr0_implies_Suc zero_less_imp_eq_int)
    obtain pre1 rest1 res1 where 1: "parseLine (cursor (l @ CRLF) rest) = Some (cursor pre1 rest1, res1)"
      "pre1 @ rest1 = (l @ CRLF) @ rest" "length (l @ CRLF) \<le> length pre1"
      "\<forall>x. res1 = Inr x \<longrightarrow> length (l @ CRLF) + 2 + length x \<le> length pre1"
      by (rule parseLine_total)
    have len1: "length pre1 + length rest1 = length bs"
      using arg_cong [OF 1(2), of length] line(1) by simp
    show ?thesis
    proof (cases res1)
      case (Inl e1)
      then have "C_Decode MsgMaxLength bs = Some (cursor pre1 rest1, Inl e1)"
        using True 1(1) by (auto simp: dec)
      with len1 show ?thesis by blast
    next
      case (Inr msg)
      have "length (l @ CRLF) + 2 + length (toLower msg) \<le> length pre1" using 1(4) Inr by simp
      from store_back_total [OF this, of rest1] obtain pre2 where
        2: "store_back (cursor pre1 rest1) (toLower msg) = Some (cursor pre2 rest1)"
        "length pre2 = length pre1" by blast
      define ty where "ty = type_of MsgMaxLength msg k bs"
      have "C_Decode MsgMaxLength bs = C_switch (int k) ty (cursor pre2 rest1)"
      proof -
        have "TotalSize (cursor pre2 rest1) = int (length bs)"
          using len1 2(2) by (simp add: TotalSize_def flip: of_nat_add)
        then show ?thesis
          using True 1(1) Inr 2(1) k by (auto simp: dec ty_def type_of_def C_sizeTooLarge_def)
      qed
      moreover obtain pre3 rest3 res3 where
        "C_switch (int k) ty (cursor pre2 rest1) = Some (cursor pre3 rest3, res3)"
        "length pre2 \<le> length pre3" "pre3 @ rest3 = pre2 @ rest1"
        using C_switch_total [OF type_of_mset [of MsgMaxLength msg k bs, folded ty_def]] by blast
      moreover have "length pre3 + length rest3 = length bs"
        using arg_cong [OF calculation(4), of length] len1 2(2) by simp
      moreover have "pre3 \<noteq> []" using calculation(3) 2(2) 1(3) by auto
      ultimately show ?thesis by auto
    qed
  qed
qed (auto simp: C_Decode_def Let_def NewBuffer_cursor Empty_def cursor_inject)

section \<open>Stated properties\<close>

lemma built_default:
  assumes "ty \<notin> {ReqMget, ReqDel, ReqMset, ReqEval, ReqEvalsha}" "xs \<noteq> []"
  shows "built ty raw xs = \<lparr>q_Type = ty, q_Keys = [], q_Frags = [], q_Frags2 = [],
    q_Body = [(Hash (hd xs), \<lparr>rf_Key = hd xs, rf_Req = raw\<rparr>)]\<rparr>"
  using assms by (simp add: built_def Let_def key_at_def hd_conv_nth)

text \<open>
  C11: an encoded request of a command on one key, whatever bytes follow it, is decoded to a message
  with a single fragment: the slot of the first argument, that argument as the key, and the request
  itself with the command name in lower case. Exactly the bytes of the request are consumed.
\<close>

theorem request_decoded:
  assumes "go_sized (cmd # xs)" "xs \<noteq> []"
    and ty: "ty = snd (Transform2Type cmd (int (length xs)))"
      "ty \<notin> {ReqMget, ReqDel, ReqMset, ReqEval, ReqEvalsha}"
    and fits: "int (length (enc_request (cmd # xs) @ rest)) \<le> MsgMaxLength"
  shows "C_Decode MsgMaxLength (enc_request (cmd # xs) @ rest) =
    Some (cursor (enc_request (toLower cmd # xs)) rest, Inr (Some
      \<lparr>q_Type = ty, q_Keys = [], q_Frags = [], q_Frags2 = [],
       q_Body = [(Hash (hd xs), \<lparr>rf_Key = hd xs, rf_Req = enc_request (toLower cmd # xs)\<rparr>)]\<rparr>))"
proof -
  have "type_of MsgMaxLength cmd (length xs) (enc_request (cmd # xs) @ rest) = ty"
    using fits ty(1) by (simp add: type_of_def)
  with C_Decode_request [OF assms(1), of MsgMaxLength rest] built_default [OF ty(2) assms(2)]
  show ?thesis by simp
qed

lemma map_of_named:
  "map_of CommandStr2Type ''mget'' = Some ReqMget" "map_of CommandStr2Type ''del'' = Some ReqDel"
  "map_of CommandStr2Type ''mset'' = Some ReqMset" "map_of CommandStr2Type ''get'' = Some ReqGet"
  "map_of CommandType2ArgsNumber ReqMget = Some NargsInf" "map_of CommandType2ArgsNumber ReqDel = Some NargsInf"
  "map_of CommandType2ArgsNumber ReqMset = Some NargsEvenInf" "map_of CommandType2ArgsNumber ReqGet = Some Nargs0"
  by code_simp+

theorem request_decoded_witness:
  "C_Decode 64 (enc_request [''GET'', ''k''] @ ''*'') =
    Some (cursor (enc_request [''get'', ''k'']) ''*'', Inr (Some
      \<lparr>q_Type = ReqGet, q_Keys = [], q_Frags = [], q_Frags2 = [],
       q_Body = [(Hash ''k'', \<lparr>rf_Key = ''k'', rf_Req = enc_request [''get'', ''k'']\<rparr>)]\<rparr>))"
proof -
  have low: "toLower ''GET'' = ''get''" by code_simp
  have "ReqGet = snd (Transform2Type ''GET'' (int (length [''k''])))"
    by (simp add: Transform2Type_def Let_def low map_of_named checkArgs_def)
  moreover have "int (length (enc_request [''GET'', ''k''] @ ''*'')) \<le> 64" by code_simp
  moreover have "go_sized [''GET'', ''k'']" by (simp add: go_sized_def)
  ultimately show ?thesis
    using request_decoded [of "''GET''" "[''k'']" ReqGet "''*''" 64] low by simp
qed

text \<open>
  C1: an encoded \<open>mget\<close> or \<open>del\<close> request is split by slot. The fragment of a slot is the same
  command on exactly the keys of the request with that slot, in their order; a slot without a key
  gets no fragment; the message remembers all keys in their order.
\<close>

theorem keys_request_split:
  assumes sized: "go_sized (cmd # ks)" and ks: "ks \<noteq> []"
    and cmd: "(toLower cmd, ty) \<in> {(''mget'', ReqMget), (''del'', ReqDel)}"
    and fits: "int (length (enc_request (cmd # ks) @ rest)) \<le> MsgMaxLength"
  shows "\<exists>r. C_Decode MsgMaxLength (enc_request (cmd # ks) @ rest) =
      Some (cursor (enc_request (toLower cmd # ks)) rest, Inr (Some r)) \<and>
    q_Type r = ty \<and> q_Keys r = ks \<and>
    (\<forall>s. map_of (q_Frags r) s = (let here = filter (\<lambda>k. Hash k = s) ks in
           if here = [] then None else Some here)) \<and>
    (\<forall>s. map_of (q_Body r) s = (let here = filter (\<lambda>k. Hash k = s) ks in
           if here = [] then None
           else Some \<lparr>rf_Key = hd here, rf_Req = enc_request (toLower cmd # here)\<rparr>))"
proof -
  have "snd (Transform2Type cmd (int (length ks))) = ty"
    using cmd ks by (cases ks) (auto simp: Transform2Type_def Let_def map_of_named checkArgs_def)
  then have "type_of MsgMaxLength cmd (length ks) (enc_request (cmd # ks) @ rest) = ty"
    using fits by (simp add: type_of_def)
  with C_Decode_request [OF sized, of MsgMaxLength rest] cmd show ?thesis
    by (auto simp: built_def Let_def map_of_put_frags distinct_group_by map_of_group_by keys_frag_def)
qed

theorem keys_request_split_witness:
  "\<exists>r. C_Decode 64 (enc_request [''MGET'', ''a'', ''b''] @ ''*'') =
      Some (cursor (enc_request [''mget'', ''a'', ''b'']) ''*'', Inr (Some r)) \<and>
    q_Type r = ReqMget \<and> q_Keys r = [''a'', ''b''] \<and>
    (\<forall>s. map_of (q_Frags r) s = (let here = filter (\<lambda>k. Hash k = s) [''a'', ''b''] in
           if here = [] then None else Some here)) \<and>
    (\<forall>s. map_of (q_Body r) s = (let here = filter (\<lambda>k. Hash k = s) [''a'', ''b''] in
           if here = [] then None
           else Some \<lparr>rf_Key = hd here, rf_Req = enc_request (''mget'' # here)\<rparr>))"
proof -
  have low: "toLower ''MGET'' = ''mget''" by code_simp
  moreover have "int (length (enc_request [''MGET'', ''a'', ''b''] @ ''*'')) \<le> 64" by code_simp
  moreover have "go_sized [''MGET'', ''a'', ''b'']" by (simp add: go_sized_def)
  ultimately show ?thesis
    using keys_request_split [of "''MGET''" "[''a'', ''b'']" ReqMget "''*''" 64] by (simp only: low) simp
qed

text \<open>
  C12: an encoded \<open>mset\<close> request is split by slot. The fragment of a slot is an \<open>mset\<close> of exactly
  the pairs of the request whose key has that slot, in their order.
\<close>

lemma pairs_of_concat: "pairs_of (concat (map (\<lambda>(k, v). [k, v]) ps)) = ps"
  by (induction ps) auto

theorem mset_request_split:
  assumes sized: "go_sized (cmd # concat (map (\<lambda>(k, v). [k, v]) ps))" and ps: "ps \<noteq> []"
    and cmd: "toLower cmd = ''mset''"
    and fits: "int (length (enc_request (cmd # concat (map (\<lambda>(k, v). [k, v]) ps)) @ rest)) \<le> MsgMaxLength"
  shows "\<exists>r. C_Decode MsgMaxLength (enc_request (cmd # concat (map (\<lambda>(k, v). [k, v]) ps)) @ rest) =
      Some (cursor (enc_request (''mset'' # concat (map (\<lambda>(k, v). [k, v]) ps))) rest, Inr (Some r)) \<and>
    q_Type r = ReqMset \<and> q_Keys r = map fst ps \<and>
    (\<forall>s. map_of (q_Body r) s = (let here = filter (\<lambda>p. Hash (fst p) = s) ps in
           if here = [] then None
           else Some \<lparr>rf_Key = fst (hd here),
                      rf_Req = enc_request (''mset'' # concat (map (\<lambda>(k, v). [k, v]) here))\<rparr>))"
proof -
  let ?xs = "concat (map (\<lambda>(k, v). [k, v]) ps)"
  have "snd (Transform2Type cmd (int (length ?xs))) = ReqMset"
    using cmd ps by (simp add: Transform2Type_def Let_def map_of_named checkArgs_def pairs_enc_args(2))
  then have "type_of MsgMaxLength cmd (length ?xs) (enc_request (cmd # ?xs) @ rest) = ReqMset"
    using fits by (simp add: type_of_def)
  with C_Decode_request [OF sized, of MsgMaxLength rest] cmd show ?thesis
    by (simp add: built_def Let_def map_of_put_frags distinct_group_by map_of_group_by pairs_frag_def
        pairs_of_concat)
qed

theorem mset_request_split_witness:
  "\<exists>r. C_Decode 64 (enc_request [''mset'', ''a'', ''1'', ''b'', ''2''] @ []) =
      Some (cursor (enc_request [''mset'', ''a'', ''1'', ''b'', ''2'']) [], Inr (Some r)) \<and>
    q_Type r = ReqMset \<and> q_Keys r = [''a'', ''b''] \<and>
    (\<forall>s. map_of (q_Body r) s = (let here = filter (\<lambda>p. Hash (fst p) = s) [(''a'', ''1''), (''b'', ''2'')] in
           if here = [] then None
           else Some \<lparr>rf_Key = fst (hd here),
                      rf_Req = enc_request (''mset'' # concat (map (\<lambda>(k, v). [k, v]) here))\<rparr>))"
proof -
  have low: "toLower ''mset'' = ''mset''" by code_simp
  have "int (length (enc_request [''mset'', ''a'', ''1'', ''b'', ''2''] @ [])) \<le> 64" by code_simp
  moreover have "go_sized [''mset'', ''a'', ''1'', ''b'', ''2'']" by (simp add: go_sized_def)
  ultimately show ?thesis
    using mset_request_split [of "''mset''" "[(''a'', ''1''), (''b'', ''2'')]" "[]" 64] low by simp
qed

text \<open>
  C13: a proper prefix of an encoded request, of any command, is never taken for an illegal packet:
  the decoder returns an error that makes the event loop wait for more bytes.
\<close>

theorem partial_request_waits:
  assumes "go_sized (cmd # xs)" "strict_prefix p (enc_request (cmd # xs))"
  shows "\<exists>buf e. C_Decode MsgMaxLength p = Some (buf, Inl e) \<and> e \<noteq> ErrInvalidResp"
  using C_Decode_prefix [OF assms, of MsgMaxLength] by (auto simp: waits_def)

theorem partial_request_waits_witness:
  "\<exists>buf e. C_Decode 64 (enc_header 2 @ ''$3'') = Some (buf, Inl e) \<and> e \<noteq> ErrInvalidResp"
proof -
  have "enc_request [''GET'', ''k''] = (enc_header 2 @ ''$3'') @ drop 6 (enc_request [''GET'', ''k''])"
    by code_simp
  then have "strict_prefix (enc_header 2 @ ''$3'') (enc_request [''GET'', ''k''])"
    by (intro strict_prefixI' [of _ _ CR "tl (drop 6 (enc_request [''GET'', ''k'']))"]) code_simp
  moreover have "go_sized [''GET'', ''k'']" by (simp add: go_sized_def)
  ultimately show ?thesis using partial_request_waits [of "''GET''" "[''k'']" "enc_header 2 @ ''$3''" 64] by simp
qed

text \<open>
  C14: on every sequence of bytes the decoder returns without a panic, and whenever it returns no
  error it has consumed at least one byte and no more than there are.
\<close>

theorem decode_never_panics:
  "\<exists>buf res. C_Decode MsgMaxLength bs = Some (buf, res) \<and>
     (\<forall>r. res = Inr r \<longrightarrow> 0 < ReadSize buf \<and> ReadSize buf \<le> int (length bs))"
proof -
  obtain pre rest res where "C_Decode MsgMaxLength bs = Some (cursor pre rest, res)"
    "length pre + length rest = length bs" "\<forall>r. res = Inr r \<longrightarrow> pre \<noteq> []"
    using C_Decode_total by blast
  then show ?thesis by (auto simp: ReadSize_def)
qed

theorem decode_never_panics_witness:
  "\<exists>buf res. C_Decode 64 ''*x'' = Some (buf, res) \<and>
     (\<forall>r. res = Inr r \<longrightarrow> 0 < ReadSize buf \<and> ReadSize buf \<le> 2)"
  using decode_never_panics [of 64 "''*x''"] by simp

text \<open>
  A header with no argument makes \<open>Decode\<close> return neither a message nor an error.
\<close>

lemma empty_request_nil: "C_Decode MsgMaxLength (''*0'' @ CRLF @ rest) = Some (cursor (''*0'' @ CRLF) rest, Inr None)"
proof -
  have "ReadLine (cursor [] (''*0'' @ CRLF @ rest)) = Some (cursor (''*0'' @ CRLF) rest, Inr ''*0'')"
    using ReadLine_line [of "''*0''" "[]" rest] by simp
  moreover have "parseLen (drop 1 ''*0'') = (0, None)" by code_simp
  ultimately show ?thesis by (simp add: C_Decode_line)
qed

end
