(* ===== verification/Linked_Queue.thy ===== *)
theory Linked_Queue
  imports Prelude
begin

text \<open>
  The doubly linked queues of the proxy: \<open>MsgQueue\<close> and \<open>FragQueue\<close> of \<^verbatim>\<open>src/core/message.go\<close> and
  \<open>activeList\<close> of \<^verbatim>\<open>src/core/redis_pool.go\<close>.

  Elements are addresses. The \<open>prev\<close> and \<open>next\<close> pointers of the elements form two fields of a store,
  one store per element type, and a queue holds the two ends and a counter. Following a nil pointer is
  a panic. The three types in the source are the same structure under different names, so the
  operations are written once on a store and a queue, and each type has its own definitions on top.

  The abstraction is the list of elements in the order in which they leave the queue. The locale
  \<open>fifo\<close> is the contract the connections rely on; all three types are instances.
\<close>

section \<open>Pointers and queues\<close>

record links =
  l_prev :: "nat \<Rightarrow> nat option"
  l_next :: "nat \<Rightarrow> nat option"

record dqueue =
  dq_tail :: "nat option"
  dq_head :: "nat option"
  dq_count :: int

definition dq_Reset :: "dqueue \<Rightarrow> dqueue" where
  "dq_Reset l = \<lparr>dq_tail = None, dq_head = None, dq_count = 0\<rparr>"

definition dq_Empty :: "dqueue \<Rightarrow> bool" where
  "dq_Empty l \<longleftrightarrow> dq_count l < 1"

definition dq_PushTail :: "links \<times> dqueue \<Rightarrow> nat \<Rightarrow> (links \<times> dqueue) go" where
  "dq_PushTail = (\<lambda>(h, l) m. do {
     let h = h\<lparr>l_next := (l_next h)(m := dq_tail l)\<rparr>;
     let h = h\<lparr>l_prev := (l_prev h)(m := None)\<rparr>;
     (h, l) \<leftarrow> (if dq_count l = 0 then Some (h, l\<lparr>dq_head := Some m\<rparr>)
               else do {
                 t \<leftarrow> dq_tail l;
                 Some (h\<lparr>l_prev := (l_prev h)(t := Some m)\<rparr>, l)
               });
     Some (h, l\<lparr>dq_tail := Some m, dq_count := dq_count l + 1\<rparr>)
   })"

text \<open>The common part of \<open>PopHead\<close> and \<open>popBack\<close>: unlink the first element.\<close>

definition dq_unlink_head :: "links \<times> dqueue \<Rightarrow> (links \<times> dqueue) go" where
  "dq_unlink_head = (\<lambda>(h, l). do {
     let l' = l\<lparr>dq_count := dq_count l - 1\<rparr>;
     m \<leftarrow> dq_head l;
     (h, l') \<leftarrow> (if dq_count l' = 0 then Some (h, l'\<lparr>dq_tail := None, dq_head := None\<rparr>)
                else do {
                  p \<leftarrow> l_prev h m;
                  Some (h\<lparr>l_next := (l_next h)(p := None)\<rparr>, l'\<lparr>dq_head := Some p\<rparr>)
                });
     Some (h\<lparr>l_next := (l_next h)(m := None), l_prev := (l_prev h)(m := None)\<rparr>, l')
   })"

definition dq_PopHead :: "links \<times> dqueue \<Rightarrow> (links \<times> dqueue) go" where
  "dq_PopHead s = (if dq_count (snd s) = 0 then Some s else dq_unlink_head s)"

definition dq_PopTail :: "links \<times> dqueue \<Rightarrow> (links \<times> dqueue) go" where
  "dq_PopTail = (\<lambda>(h, l).
     if dq_count l = 0 then Some (h, l)
     else do {
       let l' = l\<lparr>dq_count := dq_count l - 1\<rparr>;
       m \<leftarrow> dq_tail l;
       (h, l') \<leftarrow> (if dq_count l' = 0 then Some (h, l'\<lparr>dq_tail := None, dq_head := None\<rparr>)
                  else do {
                    n \<leftarrow> l_next h m;
                    Some (h\<lparr>l_prev := (l_prev h)(n := None)\<rparr>, l'\<lparr>dq_tail := Some n\<rparr>)
                  });
       Some (h\<lparr>l_next := (l_next h)(m := None), l_prev := (l_prev h)(m := None)\<rparr>, l')
     })"

section \<open>The three types\<close>

type_synonym MsgQueue = dqueue
type_synonym FragQueue = dqueue
type_synonym activeList = dqueue

definition MsgQueue_Reset :: "MsgQueue \<Rightarrow> MsgQueue" where "MsgQueue_Reset = dq_Reset"
definition MsgQueue_Empty :: "MsgQueue \<Rightarrow> bool" where "MsgQueue_Empty = dq_Empty"
definition MsgQueue_PushTail :: "links \<times> MsgQueue \<Rightarrow> nat \<Rightarrow> (links \<times> MsgQueue) go" where
  "MsgQueue_PushTail = dq_PushTail"
definition MsgQueue_PopHead :: "links \<times> MsgQueue \<Rightarrow> (links \<times> MsgQueue) go" where
  "MsgQueue_PopHead = dq_PopHead"
definition MsgQueue_PopTail :: "links \<times> MsgQueue \<Rightarrow> (links \<times> MsgQueue) go" where
  "MsgQueue_PopTail = dq_PopTail"

text \<open>\<open>AllDone\<close> follows the \<open>prev\<close> pointers from the head; \<open>done\<close> reads the flag of a message.\<close>

partial_function (option) all_done_from :: "(nat \<Rightarrow> bool) \<Rightarrow> links \<Rightarrow> nat option \<Rightarrow> bool option" where
  "all_done_from is_done h cur =
     (case cur of
        None \<Rightarrow> Some True
      | Some m \<Rightarrow> if \<not> is_done m then Some False else all_done_from is_done h (l_prev h m))"

definition MsgQueue_AllDone :: "(nat \<Rightarrow> bool) \<Rightarrow> links \<times> MsgQueue \<Rightarrow> bool go" where
  "MsgQueue_AllDone is_done = (\<lambda>(h, l). all_done_from is_done h (dq_head l))"

definition FragQueue_Reset :: "FragQueue \<Rightarrow> FragQueue" where "FragQueue_Reset = dq_Reset"
definition FragQueue_Empty :: "FragQueue \<Rightarrow> bool" where "FragQueue_Empty = dq_Empty"
definition FragQueue_PushTail :: "links \<times> FragQueue \<Rightarrow> nat \<Rightarrow> (links \<times> FragQueue) go" where
  "FragQueue_PushTail = dq_PushTail"
definition FragQueue_PopHead :: "links \<times> FragQueue \<Rightarrow> (links \<times> FragQueue) go" where
  "FragQueue_PopHead = dq_PopHead"

text \<open>In \<open>activeList\<close> the source calls the tail \<open>front\<close> and the head \<open>back\<close>; \<open>popBack\<close> does not
  check for an empty list.\<close>

definition activeList_pushFront :: "links \<times> activeList \<Rightarrow> nat \<Rightarrow> (links \<times> activeList) go" where
  "activeList_pushFront = dq_PushTail"
definition activeList_popBack :: "links \<times> activeList \<Rightarrow> (links \<times> activeList) go" where
  "activeList_popBack = dq_unlink_head"

section \<open>Abstraction\<close>

definition dq_linked :: "links \<Rightarrow> nat list \<Rightarrow> bool" where
  "dq_linked h xs \<longleftrightarrow> (\<forall>i < length xs.
     l_prev h (xs ! i) = (if Suc i < length xs then Some (xs ! Suc i) else None) \<and>
     l_next h (xs ! i) = (if i = 0 then None else Some (xs ! (i - 1))))"

definition dq_rep :: "links \<times> dqueue \<Rightarrow> nat list \<Rightarrow> bool" where
  "dq_rep = (\<lambda>(h, l) xs. distinct xs \<and> dq_count l = int (length xs) \<and>
     dq_head l = (if xs = [] then None else Some (hd xs)) \<and>
     dq_tail l = (if xs = [] then None else Some (last xs)) \<and> dq_linked h xs)"

text \<open>The contract of a queue: elements leave it in the order in which they entered.\<close>

locale fifo =
  fixes rep :: "'s \<Rightarrow> nat list \<Rightarrow> bool"
    and front :: "'s \<Rightarrow> nat option"
    and push :: "'s \<Rightarrow> nat \<Rightarrow> 's option"
    and pop :: "'s \<Rightarrow> 's option"
  assumes rep_front: "rep s xs \<Longrightarrow> front s = (if xs = [] then None else Some (hd xs))"
    and rep_push: "rep s xs \<Longrightarrow> m \<notin> set xs \<Longrightarrow> \<exists>s'. push s m = Some s' \<and> rep s' (xs @ [m])"
    and rep_pop: "rep s xs \<Longrightarrow> xs \<noteq> [] \<Longrightarrow> \<exists>s'. pop s = Some s' \<and> rep s' (tl xs)"

fun push_all :: "('s \<Rightarrow> nat \<Rightarrow> 's option) \<Rightarrow> 's \<Rightarrow> nat list \<Rightarrow> 's option" where
  "push_all push s [] = Some s"
| "push_all push s (m # ms) = do { s \<leftarrow> push s m; push_all push s ms }"

fun take_out :: "('s \<Rightarrow> nat option) \<Rightarrow> ('s \<Rightarrow> 's option) \<Rightarrow> nat \<Rightarrow> 's \<Rightarrow> (nat list \<times> 's) option" where
  "take_out front pop 0 s = Some ([], s)"
| "take_out front pop (Suc n) s = do {
     m \<leftarrow> front s;
     s \<leftarrow> pop s;
     (ms, s) \<leftarrow> take_out front pop n s;
     Some (m # ms, s)
   }"

context fifo
begin

lemma push_all_rep:
  "rep s xs \<Longrightarrow> distinct (xs @ ms) \<Longrightarrow> \<exists>s'. push_all push s ms = Some s' \<and> rep s' (xs @ ms)"
proof (induction ms arbitrary: s xs)
  case (Cons m ms)
  then obtain s1 where "push s m = Some s1" "rep s1 (xs @ [m])" using rep_push [of s xs m] by auto
  with Cons.IH [of s1 "xs @ [m]"] Cons.prems(2) show ?case by auto
qed auto

lemma take_out_rep:
  "rep s xs \<Longrightarrow> n \<le> length xs \<Longrightarrow>
   \<exists>s'. take_out front pop n s = Some (take n xs, s') \<and> rep s' (drop n xs)"
proof (induction n arbitrary: s xs)
  case (Suc n)
  then obtain x xs' where xs: "xs = x # xs'" by (cases xs) auto
  with Suc.prems rep_pop [of s xs] obtain s1 where "pop s = Some s1" "rep s1 xs'" by auto
  with Suc.IH [of s1 xs'] Suc.prems xs rep_front [OF Suc.prems(1)] show ?case by auto
qed auto

lemma fifo_order:
  assumes "rep s xs" "distinct (xs @ ms)"
  shows "\<exists>s1 s2. push_all push s ms = Some s1 \<and>
    take_out front pop (length (xs @ ms)) s1 = Some (xs @ ms, s2) \<and> rep s2 []"
  using push_all_rep [OF assms] take_out_rep [of _ "xs @ ms" "length (xs @ ms)"] by fastforce

end

section \<open>The operations on the abstraction\<close>

lemma dq_rep_new: "dq_rep (h, \<lparr>dq_tail = None, dq_head = None, dq_count = 0\<rparr>) []"
  by (simp add: dq_rep_def dq_linked_def)

lemma dq_Reset_rep: "dq_rep (h, dq_Reset l) []"
  by (simp add: dq_Reset_def dq_rep_new)

lemma dq_Empty_rep: "dq_rep (h, l) xs \<Longrightarrow> dq_Empty l \<longleftrightarrow> xs = []"
  by (cases xs) (auto simp: dq_rep_def dq_Empty_def)

lemma dq_linked_frame:
  "dq_linked h xs \<Longrightarrow> (\<And>x. x \<in> set xs \<Longrightarrow> l_prev h' x = l_prev h x \<and> l_next h' x = l_next h x) \<Longrightarrow>
   dq_linked h' xs"
  by (auto simp: dq_linked_def)

lemma dq_linked_tl:
  assumes "dq_linked h (x # y # zs)" "distinct (x # y # zs)"
  shows "l_prev h x = Some y" "dq_linked (h\<lparr>l_next := (l_next h)(y := None)\<rparr>) (y # zs)"
proof -
  have at: "l_prev h ((x # y # zs) ! i) = (if Suc i < length (x # y # zs) then Some ((x # y # zs) ! Suc i) else None)"
    "l_next h ((x # y # zs) ! i) = (if i = 0 then None else Some ((x # y # zs) ! (i - 1)))"
    if "i < length (x # y # zs)" for i
    using assms(1) that unfolding dq_linked_def by blast+
  from at(1) [of 0] show "l_prev h x = Some y" by simp
  show "dq_linked (h\<lparr>l_next := (l_next h)(y := None)\<rparr>) (y # zs)"
    unfolding dq_linked_def
  proof (intro allI impI)
    fix i
    assume i: "i < length (y # zs)"
    have "0 < i \<Longrightarrow> (y # zs) ! i \<noteq> y" using assms(2) i by (cases i) auto
    with at [of "Suc i"] i show "l_prev (h\<lparr>l_next := (l_next h)(y := None)\<rparr>) ((y # zs) ! i) =
        (if Suc i < length (y # zs) then Some ((y # zs) ! Suc i) else None) \<and>
      l_next (h\<lparr>l_next := (l_next h)(y := None)\<rparr>) ((y # zs) ! i) =
        (if i = 0 then None else Some ((y # zs) ! (i - 1)))"
      by (cases i) simp_all
  qed
qed

lemma dq_unlink_head_rep:
  assumes rep: "dq_rep s xs" and "xs \<noteq> []"
  shows "\<exists>s'. dq_unlink_head s = Some s' \<and> dq_rep s' (tl xs)"
proof -
  obtain h l where s: "s = (h, l)" by fastforce
  obtain x xs' where xs: "xs = x # xs'" using assms(2) by (cases xs) auto
  show ?thesis
  proof (cases xs')
    case Nil
    with rep s xs show ?thesis
      by (auto simp: dq_rep_def dq_unlink_head_def dq_linked_def Let_def)
  next
    case (Cons y zs)
    have d: "distinct (x # y # zs)" using rep s xs Cons by (simp add: dq_rep_def)
    have lk: "l_prev h x = Some y" "dq_linked (h\<lparr>l_next := (l_next h)(y := None)\<rparr>) (y # zs)"
      using rep s xs Cons dq_linked_tl [OF _ d, of h] by (auto simp: dq_rep_def)
    let ?h = "h\<lparr>l_next := (l_next h)(y := None, x := None), l_prev := (l_prev h)(x := None)\<rparr>"
    have "dq_linked ?h (y # zs)"
      by (rule dq_linked_frame [OF lk(2)]) (use d in auto)
    then show ?thesis
      using rep s xs Cons lk(1) by (auto simp: dq_rep_def dq_unlink_head_def Let_def)
  qed
qed

lemma dq_PopHead_rep:
  assumes "dq_rep s xs"
  shows "\<exists>s'. dq_PopHead s = Some s' \<and> dq_rep s' (tl xs)"
proof (cases "xs = []")
  case True
  with assms show ?thesis by (cases s) (auto simp: dq_PopHead_def dq_rep_def)
next
  case False
  with assms have "dq_count (snd s) \<noteq> 0" by (cases s) (auto simp: dq_rep_def)
  with dq_unlink_head_rep [OF assms False] show ?thesis by (simp add: dq_PopHead_def)
qed

lemma dq_linked_snoc:
  assumes "dq_linked h xs" "m \<notin> set xs" "distinct xs"
    and "h' = (if xs = [] then h\<lparr>l_next := (l_next h)(m := None), l_prev := (l_prev h)(m := None)\<rparr>
      else h\<lparr>l_next := (l_next h)(m := Some (last xs)), l_prev := (l_prev h)(m := None, last xs := Some m)\<rparr>)"
  shows "dq_linked h' (xs @ [m])"
  unfolding dq_linked_def
proof (intro allI impI)
  fix i
  assume i: "i < length (xs @ [m])"
  let ?k = "length xs - 1"
  have last: "xs \<noteq> [] \<Longrightarrow> last xs = xs ! ?k" by (simp add: last_conv_nth)
  have m: "\<And>j. j < length xs \<Longrightarrow> xs ! j \<noteq> m" using assms(2) nth_mem by blast
  have eq: "\<And>j. j < length xs \<Longrightarrow> xs ! j = last xs \<longleftrightarrow> j = ?k"
    using last assms(3) nth_eq_iff_index_eq [of xs _ ?k] by (cases "xs = []") auto
  show "l_prev h' ((xs @ [m]) ! i) = (if Suc i < length (xs @ [m]) then Some ((xs @ [m]) ! Suc i) else None) \<and>
    l_next h' ((xs @ [m]) ! i) = (if i = 0 then None else Some ((xs @ [m]) ! (i - 1)))"
  proof (cases "i < length xs")
    case True
    then have ne: "xs \<noteq> []" by auto
    then obtain k where k: "length xs = Suc k" by (cases xs) auto
    have "l_prev h (xs ! i) = (if Suc i < length xs then Some (xs ! Suc i) else None)"
      "l_next h (xs ! i) = (if i = 0 then None else Some (xs ! (i - 1)))"
      using assms(1) True by (simp_all add: dq_linked_def)
    then show ?thesis
      using True ne m [OF True] eq [OF True] k by (cases "i = 0") (auto simp: assms(4) nth_append)
  next
    case False
    with i have "i = length xs" by simp
    then show ?thesis
      using assms(2) last by (cases "xs = []") (auto simp: assms(4) nth_append)
  qed
qed

lemma dq_PushTail_rep:
  assumes rep: "dq_rep s xs" and m: "m \<notin> set xs"
  shows "\<exists>s'. dq_PushTail s m = Some s' \<and> dq_rep s' (xs @ [m])"
proof -
  obtain h l where s: "s = (h, l)" by fastforce
  have r: "distinct xs" "dq_linked h xs" "dq_count l = int (length xs)"
    "dq_head l = (if xs = [] then None else Some (hd xs))"
    "dq_tail l = (if xs = [] then None else Some (last xs))"
    using rep s by (auto simp: dq_rep_def)
  note lk = dq_linked_snoc [OF r(2) m r(1) refl]
  show ?thesis
    using r m s lk by (cases "xs = []") (auto simp: dq_PushTail_def dq_rep_def Let_def)
qed

lemma dq_linked_butlast:
  assumes "dq_linked h (zs @ [y, m])" "distinct (zs @ [y, m])"
  shows "l_next h m = Some y" "dq_linked (h\<lparr>l_prev := (l_prev h)(y := None)\<rparr>) (zs @ [y])"
proof -
  let ?xs = "zs @ [y, m]"
  have at: "l_prev h (?xs ! i) = (if Suc i < length ?xs then Some (?xs ! Suc i) else None)"
    "l_next h (?xs ! i) = (if i = 0 then None else Some (?xs ! (i - 1)))"
    if "i < length ?xs" for i
    using assms(1) that unfolding dq_linked_def by blast+
  from at(2) [of "Suc (length zs)"] show "l_next h m = Some y" by (simp add: nth_append)
  show "dq_linked (h\<lparr>l_prev := (l_prev h)(y := None)\<rparr>) (zs @ [y])"
    unfolding dq_linked_def
  proof (intro allI impI)
    fix i
    assume i: "i < length (zs @ [y])"
    have "i < length zs \<Longrightarrow> zs ! i \<noteq> y" using assms(2) nth_mem by fastforce
    with at [of i] i show "l_prev (h\<lparr>l_prev := (l_prev h)(y := None)\<rparr>) ((zs @ [y]) ! i) =
        (if Suc i < length (zs @ [y]) then Some ((zs @ [y]) ! Suc i) else None) \<and>
      l_next (h\<lparr>l_prev := (l_prev h)(y := None)\<rparr>) ((zs @ [y]) ! i) =
        (if i = 0 then None else Some ((zs @ [y]) ! (i - 1)))"
      by (cases "i < length zs") (auto simp: nth_append less_Suc_eq)
  qed
qed

lemma dq_PopTail_rep:
  assumes rep: "dq_rep s xs"
  shows "\<exists>s'. dq_PopTail s = Some s' \<and> dq_rep s' (butlast xs)"
proof -
  obtain h l where s: "s = (h, l)" by fastforce
  consider "xs = []" | m where "xs = [m]" | zs y m where "xs = zs @ [y, m]"
    by (cases xs rule: rev_cases; cases "butlast xs" rule: rev_cases) auto
  then show ?thesis
  proof cases
    case 3
    have d: "distinct (zs @ [y, m])" using rep s 3 by (simp add: dq_rep_def)
    have lk: "l_next h m = Some y" "dq_linked (h\<lparr>l_prev := (l_prev h)(y := None)\<rparr>) (zs @ [y])"
      using rep s 3 dq_linked_butlast [OF _ d, of h] by (auto simp: dq_rep_def)
    let ?h = "h\<lparr>l_next := (l_next h)(m := None), l_prev := (l_prev h)(y := None, m := None)\<rparr>"
    have "dq_linked ?h (zs @ [y])"
      by (rule dq_linked_frame [OF lk(2)]) (use d in auto)
    then show ?thesis
      using rep s 3 lk(1) d by (auto simp: dq_rep_def dq_PopTail_def Let_def butlast_append hd_append)
  qed (use rep s in \<open>auto simp: dq_rep_def dq_PopTail_def dq_linked_def Let_def\<close>)
qed

lemma all_done_from_rep:
  assumes "dq_linked h xs" "i \<le> length xs"
  shows "all_done_from is_done h (if i < length xs then Some (xs ! i) else None) =
    Some (\<forall>m \<in> set (drop i xs). is_done m)"
  using assms(2)
proof (induction "length xs - i" arbitrary: i)
  case 0
  then show ?case by (subst all_done_from.simps) simp
next
  case (Suc k)
  then have i: "i < length xs" by simp
  have "l_prev h (xs ! i) = (if Suc i < length xs then Some (xs ! Suc i) else None)"
    using assms(1) i by (simp add: dq_linked_def)
  moreover have "all_done_from is_done h (if Suc i < length xs then Some (xs ! Suc i) else None) =
      Some (\<forall>m \<in> set (drop (Suc i) xs). is_done m)"
    using Suc i by simp
  moreover have "drop i xs = xs ! i # drop (Suc i) xs" using i by (simp add: Cons_nth_drop_Suc)
  ultimately show ?case using i by (subst all_done_from.simps) auto
qed

lemma MsgQueue_AllDone_rep:
  assumes "dq_rep s xs"
  shows "MsgQueue_AllDone is_done s = Some (\<forall>m \<in> set xs. is_done m)"
proof -
  obtain h l where s: "s = (h, l)" by fastforce
  have "dq_head l = (if 0 < length xs then Some (xs ! 0) else None)"
    using assms s by (auto simp: dq_rep_def hd_conv_nth)
  then show ?thesis
    using all_done_from_rep [of h xs 0 is_done] assms s by (simp add: MsgQueue_AllDone_def dq_rep_def)
qed

text \<open>Queues over disjoint elements of one store do not disturb each other.\<close>

lemma dq_PushTail_other:
  assumes "dq_rep (h, l) xs" "dq_rep (h, l2) ys" "set ys \<inter> set (m # xs) = {}"
    and "dq_PushTail (h, l) m = Some (h', l')"
  shows "dq_rep (h', l2) ys"
proof -
  have "dq_linked h ys" using assms(2) by (simp add: dq_rep_def)
  then have "dq_linked h' ys"
    by (rule dq_linked_frame) (use assms in \<open>auto simp: dq_PushTail_def dq_rep_def Let_def split: if_splits bind_splits\<close>)
  with assms(2) show ?thesis by (simp add: dq_rep_def)
qed

section \<open>Instances of the contract\<close>

lemma dq_head_rep: "dq_rep s xs \<Longrightarrow> dq_head (snd s) = (if xs = [] then None else Some (hd xs))"
  by (cases s) (simp add: dq_rep_def)

interpretation msgq: fifo dq_rep "\<lambda>s. dq_head (snd s)" MsgQueue_PushTail MsgQueue_PopHead
  unfolding MsgQueue_PushTail_def MsgQueue_PopHead_def
  by unfold_locales (erule dq_head_rep, erule (1) dq_PushTail_rep, erule dq_PopHead_rep)

interpretation fragq: fifo dq_rep "\<lambda>s. dq_head (snd s)" FragQueue_PushTail FragQueue_PopHead
  unfolding FragQueue_PushTail_def FragQueue_PopHead_def
  by unfold_locales (erule dq_head_rep, erule (1) dq_PushTail_rep, erule dq_PopHead_rep)

interpretation active: fifo dq_rep "\<lambda>s. dq_head (snd s)" activeList_pushFront activeList_popBack
  unfolding activeList_pushFront_def activeList_popBack_def
  by unfold_locales (erule dq_head_rep, erule (1) dq_PushTail_rep, erule (1) dq_unlink_head_rep)

section \<open>Stated properties\<close>

text \<open>
  C33: messages put into the queue of a connection leave it in the order in which they were put, after
  those that were there before, and the queue is then empty; no pointer on the way is nil.
\<close>

theorem message_queue_order:
  assumes "dq_rep s xs" "distinct (xs @ ms)"
  shows "\<exists>s1 s2. push_all MsgQueue_PushTail s ms = Some s1 \<and>
    take_out (\<lambda>s. dq_head (snd s)) MsgQueue_PopHead (length (xs @ ms)) s1 = Some (xs @ ms, s2) \<and>
    dq_rep s2 []"
  using assms by (rule msgq.fifo_order)

theorem message_queue_order_witness:
  "\<exists>s1 s2. push_all MsgQueue_PushTail
      (\<lparr>l_prev = (\<lambda>_. None), l_next = (\<lambda>_. None)\<rparr>, \<lparr>dq_tail = None, dq_head = None, dq_count = 0\<rparr>) [4, 2, 7]
      = Some s1 \<and>
    take_out (\<lambda>s. dq_head (snd s)) MsgQueue_PopHead 3 s1 = Some ([4, 2, 7], s2) \<and> dq_rep s2 []"
  using message_queue_order [OF dq_rep_new, of "[4, 2, 7]" "\<lparr>l_prev = (\<lambda>_. None), l_next = (\<lambda>_. None)\<rparr>"]
  by (simp add: numeral_3_eq_3 del: push_all.simps take_out.simps split_paired_Ex)

text \<open>
  C34: \<open>AllDone\<close> ends on every well-formed queue and tells whether all its messages are done.
\<close>

theorem AllDone_correct:
  assumes "dq_rep s xs"
  shows "MsgQueue_AllDone is_done s = Some (\<forall>m \<in> set xs. is_done m)"
  using assms by (rule MsgQueue_AllDone_rep)

theorem AllDone_correct_witness:
  "MsgQueue_AllDone (\<lambda>m. m < 3)
     (\<lparr>l_prev = (\<lambda>_. None), l_next = (\<lambda>_. None)\<rparr>, \<lparr>dq_tail = Some 2, dq_head = Some 2, dq_count = 1\<rparr>) = Some True"
proof -
  have "dq_rep (\<lparr>l_prev = (\<lambda>_. None), l_next = (\<lambda>_. None)\<rparr>,
      \<lparr>dq_tail = Some 2, dq_head = Some 2, dq_count = 1\<rparr>) [2]"
    by (simp add: dq_rep_def dq_linked_def)
  from AllDone_correct [OF this, of "\<lambda>m. m < 3"] show ?thesis by simp
qed

end
