(* ===== verification/Toolkit.thy ===== *)
theory Toolkit
  imports Prelude
begin

text \<open>
  The power-of-two arithmetic of \<^verbatim>\<open>src/core/internal/toolkit/math.go\<close>, used to size ring
  buffers. The functions work on 64-bit \<open>int\<close>s; inside the range that \<open>CeilToPowerOfTwo\<close>
  accepts no step overflows, so the model is over \<^typ>\<open>int\<close> with its bit operations
  (\<open>n >> k\<close> is \<open>drop_bit k n\<close>).

  The lemmas show that \<open>fillBits\<close> smears the highest bit downwards and that the two rounding
  functions return the least power of two above and the greatest power of two below their
  argument.
\<close>

unbundle bit_operations_syntax

definition maxintHeadBit :: int where
  "maxintHeadBit = push_bit 62 1"

definition IsPowerOfTwo :: "int \<Rightarrow> bool" where
  "IsPowerOfTwo n \<longleftrightarrow> n AND (n - 1) = 0"

definition fillBits :: "int \<Rightarrow> int" where
  "fillBits n =
     (let n = n OR drop_bit 1 n;
          n = n OR drop_bit 2 n;
          n = n OR drop_bit 4 n;
          n = n OR drop_bit 8 n;
          n = n OR drop_bit 16 n;
          n = n OR drop_bit 32 n
      in n)"

definition CeilToPowerOfTwo :: "int \<Rightarrow> int go" where
  "CeilToPowerOfTwo n =
     (if n AND maxintHeadBit \<noteq> 0 \<and> n > maxintHeadBit then None
      else if n \<le> 2 then Some 2
      else (let n = n - 1; n = fillBits n; n = n + 1 in Some n))"

definition FloorToPowerOfTwo :: "int \<Rightarrow> int" where
  "FloorToPowerOfTwo n =
     (if n \<le> 2 then 2
      else (let n = fillBits n; n = drop_bit 1 n; n = n + 1 in n))"

section \<open>Bit smearing\<close>

definition smeared :: "nat \<Rightarrow> int \<Rightarrow> int \<Rightarrow> bool" where
  "smeared m n x \<longleftrightarrow> (\<forall>i. bit x i \<longleftrightarrow> (\<exists>j < m. bit n (i + j)))"

lemma smeared_1: "smeared 1 n n"
  by (simp add: smeared_def)

lemma smeared_double:
  assumes "smeared m n x"
  shows "smeared (2 * m) n (x OR drop_bit m x)"
proof -
  have "(\<exists>j < 2 * m. bit n (i + j)) \<longleftrightarrow> (\<exists>j < m. bit n (i + j)) \<or> (\<exists>j < m. bit n (m + i + j))" for i
  proof
    assume "\<exists>j < 2 * m. bit n (i + j)"
    then obtain j where j: "j < 2 * m" "bit n (i + j)" by blast
    show "(\<exists>j < m. bit n (i + j)) \<or> (\<exists>j < m. bit n (m + i + j))"
    proof (cases "j < m")
      case False
      with j have "j - m < m" "bit n (m + i + (j - m))" by (auto simp: ac_simps)
      then show ?thesis by blast
    qed (use j in blast)
  next
    assume "(\<exists>j < m. bit n (i + j)) \<or> (\<exists>j < m. bit n (m + i + j))"
    then show "\<exists>j < 2 * m. bit n (i + j)"
    proof
      assume "\<exists>j < m. bit n (m + i + j)"
      then obtain j where "j < m" "bit n (m + i + j)" by blast
      then have "m + j < 2 * m" "bit n (i + (m + j))" by (auto simp: ac_simps)
      then show ?thesis by blast
    next
      assume "\<exists>j < m. bit n (i + j)"
      then obtain j where "j < m" "bit n (i + j)" by blast
      then have "j < 2 * m" "bit n (i + j)" by auto
      then show ?thesis by blast
    qed
  qed
  with assms show ?thesis
    by (simp add: smeared_def bit_or_iff bit_drop_bit_eq ac_simps)
qed

lemma smeared_fillBits: "smeared 64 n (fillBits n)"
proof -
  note d = smeared_double [of _ n]
  from d [OF smeared_1] have "smeared 2 n (n OR drop_bit 1 n)" by simp
  from d [OF d [OF d [OF d [OF d [OF this]]]]] show ?thesis
    by (simp add: fillBits_def Let_def)
qed

text \<open>On a number of \<open>l\<close> significant bits the result is the mask of \<open>l\<close> bits.\<close>

lemma fillBits_mask:
  assumes "2 ^ l \<le> n" "n < 2 ^ Suc l" "l < 64"
  shows "fillBits n = mask (Suc l)"
proof (rule bit_eqI)
  fix i
  have top: "bit n l"
  proof -
    have "n div 2 ^ l = 1"
      using assms(1,2) by (intro int_div_pos_eq [where r = "n - 2 ^ l"]) auto
    then show ?thesis by (simp add: bit_iff_odd)
  qed
  have high: "\<not> bit n j" if "Suc l \<le> j" for j
  proof -
    have "n < 2 ^ j"
      using assms(2) that by (meson less_le_trans one_le_numeral power_increasing)
    moreover have "0 \<le> n" using assms(1) by (meson dual_order.trans zero_le_numeral zero_le_power)
    ultimately show ?thesis by (simp add: bit_iff_odd)
  qed
  have "bit (fillBits n) i \<longleftrightarrow> (\<exists>j < 64. bit n (i + j))"
    using smeared_fillBits by (simp add: smeared_def)
  also have "\<dots> \<longleftrightarrow> i < Suc l"
  proof
    assume "i < Suc l"
    then have "l - i < 64" "bit n (i + (l - i))" using assms(3) top by auto
    then show "\<exists>j < 64. bit n (i + j)" by blast
  next
    assume "\<exists>j < 64. bit n (i + j)"
    then obtain j where "bit n (i + j)" by blast
    then show "i < Suc l" using high [of "i + j"] by (meson not_less trans_le_add1)
  qed
  finally show "bit (fillBits n) i \<longleftrightarrow> bit (mask (Suc l) :: int) i"
    by (simp add: bit_mask_iff)
qed

lemma bit_length:
  assumes "1 \<le> (n :: int)"
  obtains l where "2 ^ l \<le> n" "n < 2 ^ Suc l"
proof -
  have "\<exists>l. 2 ^ l \<le> nat n \<and> nat n < 2 ^ Suc l"
    using assms ex_power_ivl1 [of 2 "nat n"] by simp
  then obtain l where l: "2 ^ l \<le> nat n" "nat n < 2 ^ Suc l" by blast
  from l(1) have "int (2 ^ l) \<le> int (nat n)" by (rule of_nat_mono)
  moreover from l(2) have "int (nat n) < int (2 ^ Suc l)" by (rule of_nat_less_iff [THEN iffD2])
  ultimately have "2 ^ l \<le> n" "n < 2 ^ Suc l"
    using assms by simp_all
  then show ?thesis by (rule that)
qed

lemma maxintHeadBit: "maxintHeadBit = 2 ^ 62"
  by (simp add: maxintHeadBit_def push_bit_eq_mult)

lemma CeilToPowerOfTwo_spec:
  assumes "2 < n" "n \<le> 2 ^ 62"
  obtains l where "CeilToPowerOfTwo n = Some (2 ^ Suc l)" "n \<le> 2 ^ Suc l" "2 ^ l < n"
proof -
  from assms(1) have "1 \<le> n - 1" by simp
  then obtain l where l: "2 ^ l \<le> n - 1" "n - 1 < 2 ^ Suc l"
    by (rule bit_length)
  have "(2::int) ^ l < 2 ^ 62" using l(1) assms(2) by linarith
  from power_less_imp_less_exp [OF _ this] have "l < 64" by simp
  with l have "fillBits (n - 1) = mask (Suc l)" by (rule fillBits_mask)
  with assms have "CeilToPowerOfTwo n = Some (2 ^ Suc l)"
    by (simp add: CeilToPowerOfTwo_def Let_def maxintHeadBit mask_eq_exp_minus_1)
  moreover have "n \<le> 2 ^ Suc l" "2 ^ l < n" using l by simp_all
  ultimately show ?thesis by (rule that)
qed

lemma CeilToPowerOfTwo_small: "n \<le> 2 \<Longrightarrow> CeilToPowerOfTwo n = Some 2"
  by (simp add: CeilToPowerOfTwo_def maxintHeadBit)

lemma FloorToPowerOfTwo_spec:
  assumes "2 < n" "n < 2 ^ 63"
  obtains l where "FloorToPowerOfTwo n = 2 ^ l" "2 ^ l \<le> n" "n < 2 ^ Suc l"
proof -
  from assms(1) have "1 \<le> n" by simp
  then obtain l where l: "2 ^ l \<le> n" "n < 2 ^ Suc l"
    by (rule bit_length)
  have "(2::int) ^ l < 2 ^ 63" using l(1) assms(2) by linarith
  from power_less_imp_less_exp [OF _ this] have "l < 64" by simp
  with l have "fillBits n = mask (Suc l)" by (rule fillBits_mask)
  with assms have "FloorToPowerOfTwo n = 2 ^ l"
    by (simp add: FloorToPowerOfTwo_def Let_def mask_eq_exp_minus_1 drop_bit_eq_div)
  with l show ?thesis by (intro that)
qed

section \<open>Stated properties\<close>

text \<open>\<open>CeilToPowerOfTwo\<close> returns the least power of two that is not below its argument.\<close>

theorem CeilToPowerOfTwo_least:
  assumes "2 < n" "n \<le> 2 ^ 62"
  shows "\<exists>l. CeilToPowerOfTwo n = Some (2 ^ l) \<and> n \<le> 2 ^ l \<and> (\<forall>m. n \<le> 2 ^ m \<longrightarrow> l \<le> m)"
proof -
  obtain l where l: "CeilToPowerOfTwo n = Some (2 ^ Suc l)" "n \<le> 2 ^ Suc l" "2 ^ l < n"
    using assms by (rule CeilToPowerOfTwo_spec)
  have "Suc l \<le> m" if "n \<le> 2 ^ m" for m
  proof -
    have "(2::int) ^ l < 2 ^ m" using l(3) that by linarith
    from power_less_imp_less_exp [OF _ this] show ?thesis by simp
  qed
  with l show ?thesis by blast
qed

theorem CeilToPowerOfTwo_least_witness:
  "\<exists>l. CeilToPowerOfTwo 1025 = Some (2 ^ l) \<and> 1025 \<le> (2::int) ^ l \<and> (\<forall>m. (1025::int) \<le> 2 ^ m \<longrightarrow> l \<le> m)"
  using CeilToPowerOfTwo_least [of 1025] by simp

end
