(* ===== verification/Byte_Queue.thy ===== *)
theory Byte_Queue
  imports Prelude
begin

text \<open>
  The contract of a byte buffer, as the connections use it: bytes written are read, or discarded, in
  the order in which they were written. The ring buffer, its elastic wrapper, the linked list of
  slices and the combination of the two are instances.

  Inside the locale one lemma covers every sequence of operations: a buffer and a plain list of bytes
  answer each of them alike.
\<close>

datatype buf_op = OpWrite bytes | OpRead nat | OpDiscard nat | OpBuffered

datatype buf_out = OutCount int | OutBytes bytes

text \<open>The plain list.\<close>

fun list_op :: "bytes \<Rightarrow> buf_op \<Rightarrow> bytes \<times> buf_out" where
  "list_op q (OpWrite p) = (q @ p, OutCount (int (length p)))"
| "list_op q (OpRead n) = (drop n q, OutBytes (take n q))"
| "list_op q (OpDiscard n) = (drop n q, OutCount (int (min n (length q))))"
| "list_op q OpBuffered = (q, OutCount (int (length q)))"

fun list_run :: "bytes \<Rightarrow> buf_op list \<Rightarrow> buf_out list" where
  "list_run q [] = []"
| "list_run q (x # xs) = (case list_op q x of (q, out) \<Rightarrow> out # list_run q xs)"

text \<open>A buffer given by its operations; \<open>None\<close> is a panic.\<close>

fun buf_run ::
  "('s \<Rightarrow> bytes \<Rightarrow> ('s \<times> int) option) \<Rightarrow> ('s \<Rightarrow> int \<Rightarrow> ('s \<times> bytes) option) \<Rightarrow>
   ('s \<Rightarrow> int \<Rightarrow> ('s \<times> int) option) \<Rightarrow> ('s \<Rightarrow> int) \<Rightarrow> 's \<Rightarrow> buf_op list \<Rightarrow> buf_out list option" where
  "buf_run put get skip buffered s [] = Some []"
| "buf_run put get skip buffered s (x # xs) = do {
     (s, out) \<leftarrow> (case x of
         OpWrite p \<Rightarrow> map_option (map_prod id OutCount) (put s p)
       | OpRead n \<Rightarrow> map_option (map_prod id OutBytes) (get s (int n))
       | OpDiscard n \<Rightarrow> map_option (map_prod id OutCount) (skip s (int n))
       | OpBuffered \<Rightarrow> Some (s, OutCount (buffered s)));
     outs \<leftarrow> buf_run put get skip buffered s xs;
     Some (out # outs)
   }"

text \<open>The number of bytes a sequence writes.\<close>

fun written :: "buf_op list \<Rightarrow> nat" where
  "written [] = 0"
| "written (OpWrite p # xs) = length p + written xs"
| "written (_ # xs) = written xs"

locale byte_queue =
  fixes inv :: "'s \<Rightarrow> bool"
    and abs :: "'s \<Rightarrow> bytes"
    and put :: "'s \<Rightarrow> bytes \<Rightarrow> ('s \<times> int) option"
    and get :: "'s \<Rightarrow> int \<Rightarrow> ('s \<times> bytes) option"
    and skip :: "'s \<Rightarrow> int \<Rightarrow> ('s \<times> int) option"
    and buffered :: "'s \<Rightarrow> int"
  assumes put_abs: "inv s \<Longrightarrow> int (length (abs s @ p)) \<le> 2 ^ 62 \<Longrightarrow>
      \<exists>s'. put s p = Some (s', int (length p)) \<and> inv s' \<and> abs s' = abs s @ p"
    and get_abs: "inv s \<Longrightarrow>
      \<exists>s'. get s (int n) = Some (s', take n (abs s)) \<and> inv s' \<and> abs s' = drop n (abs s)"
    and skip_abs: "inv s \<Longrightarrow>
      \<exists>s'. skip s (int n) = Some (s', int (min n (length (abs s)))) \<and> inv s' \<and> abs s' = drop n (abs s)"
    and buffered_abs: "inv s \<Longrightarrow> buffered s = int (length (abs s))"
begin

lemma op_refines:
  assumes "inv s" "int (length (abs s) + written [x]) \<le> 2 ^ 62"
  shows "\<exists>s'. (case x of
         OpWrite p \<Rightarrow> map_option (map_prod id OutCount) (put s p)
       | OpRead n \<Rightarrow> map_option (map_prod id OutBytes) (get s (int n))
       | OpDiscard n \<Rightarrow> map_option (map_prod id OutCount) (skip s (int n))
       | OpBuffered \<Rightarrow> Some (s, OutCount (buffered s))) = Some (s', snd (list_op (abs s) x)) \<and>
    inv s' \<and> abs s' = fst (list_op (abs s) x) \<and> length (abs s') \<le> length (abs s) + written [x]"
proof (cases x)
  case (OpWrite p)
  with put_abs [OF assms(1), of p] assms(2) show ?thesis by auto
next
  case (OpRead n)
  with get_abs [OF assms(1), of n] show ?thesis by auto
next
  case (OpDiscard n)
  with skip_abs [OF assms(1), of n] show ?thesis by auto
next
  case OpBuffered
  with buffered_abs [OF assms(1)] assms(1) show ?thesis by auto
qed

lemma written_Cons: "written (x # xs) = written [x] + written xs"
  by (cases x) simp_all

lemma run_refines:
  "inv s \<Longrightarrow> int (length (abs s) + written xs) \<le> 2 ^ 62 \<Longrightarrow>
   buf_run put get skip buffered s xs = Some (list_run (abs s) xs)"
proof (induction xs arbitrary: s)
  case (Cons x xs)
  have "int (length (abs s) + written [x]) \<le> 2 ^ 62"
    using Cons.prems(2) written_Cons [of x xs] by simp
  from op_refines [OF Cons.prems(1) this] obtain s' where s':
    "(case x of
         OpWrite p \<Rightarrow> map_option (map_prod id OutCount) (put s p)
       | OpRead n \<Rightarrow> map_option (map_prod id OutBytes) (get s (int n))
       | OpDiscard n \<Rightarrow> map_option (map_prod id OutCount) (skip s (int n))
       | OpBuffered \<Rightarrow> Some (s, OutCount (buffered s))) = Some (s', snd (list_op (abs s) x))"
    "inv s'" "abs s' = fst (list_op (abs s) x)" "length (abs s') \<le> length (abs s) + written [x]" by blast
  have "int (length (abs s') + written xs) \<le> 2 ^ 62"
    using s'(4) Cons.prems(2) written_Cons [of x xs] by simp
  from Cons.IH [OF s'(2) this] s'(1,3) show ?case by (simp add: split_beta)
qed simp

end

end
