(* ===== verification/Ring_Buffer.thy ===== *)
theory Ring_Buffer
  imports Toolkit Byte_Queue "HOL-Library.While_Combinator"
begin

text \<open>
  The circular buffer of \<^verbatim>\<open>src/core/pkg/buffer/ring/ring_buffer.go\<close> and its platform part
  \<^verbatim>\<open>ring_buffer_unix.go\<close>, with every method as one definition.

  A buffer holds an array, its size, a read and a write position and a flag that tells an
  empty buffer from a full one when the positions meet. The scratch field \<open>bs\<close> of the source
  only carries the two slices of one \<open>readv\<close> call and is not kept. Growing takes a slice from
  the byte-slice pool, whose old contents are arbitrary: they are the argument \<open>dirty\<close>.

  The abstraction is the queue of bytes \<open>ring_Bytes\<close>. Under the invariant \<open>ring_inv\<close> a buffer
  has one of three shapes (empty, flat, wrapped), and every operation is described on the
  shapes: writing appends at the end of the queue, reading and discarding remove from its
  front, growing changes nothing.
\<close>

section \<open>State\<close>

datatype ring_err = ErrIsEmpty | ErrShortWrite | EOF | IOError

record ring =
  rb_buf :: bytes
  rb_size :: int
  rb_r :: int
  rb_w :: int
  rb_isEmpty :: bool

definition DefaultBufferSize :: int where "DefaultBufferSize = 1024"
definition bufferGrowThreshold :: int where "bufferGrowThreshold = 4 * 1024"
definition MinRead :: int where "MinRead = 512"

section \<open>Operations\<close>

definition ring_New :: "int \<Rightarrow> ring go" where
  "ring_New sz =
     (if sz = 0 then Some \<lparr>rb_buf = [], rb_size = 0, rb_r = 0, rb_w = 0, rb_isEmpty = True\<rparr>
      else do {
        sz \<leftarrow> CeilToPowerOfTwo sz;
        Some \<lparr>rb_buf = replicate (nat sz) (CHR 0x00), rb_size = sz,
              rb_r = 0, rb_w = 0, rb_isEmpty = True\<rparr>
      })"

definition ring_Reset :: "ring \<Rightarrow> ring" where
  "ring_Reset rb = rb\<lparr>rb_isEmpty := True, rb_r := 0, rb_w := 0\<rparr>"

definition ring_IsFull :: "ring \<Rightarrow> bool" where
  "ring_IsFull rb \<longleftrightarrow> rb_r rb = rb_w rb \<and> \<not> rb_isEmpty rb"

definition ring_IsEmpty :: "ring \<Rightarrow> bool" where
  "ring_IsEmpty rb \<longleftrightarrow> rb_isEmpty rb"

definition ring_Buffered :: "ring \<Rightarrow> int" where
  "ring_Buffered rb =
     (if rb_r rb = rb_w rb then (if rb_isEmpty rb then 0 else rb_size rb)
      else if rb_w rb > rb_r rb then rb_w rb - rb_r rb
      else rb_size rb - rb_r rb + rb_w rb)"

definition ring_Len :: "ring \<Rightarrow> int" where
  "ring_Len rb = int (length (rb_buf rb))"

definition ring_Cap :: "ring \<Rightarrow> int" where
  "ring_Cap rb = rb_size rb"

definition ring_Available :: "ring \<Rightarrow> int" where
  "ring_Available rb =
     (if rb_r rb = rb_w rb then (if rb_isEmpty rb then rb_size rb else 0)
      else if rb_w rb < rb_r rb then rb_r rb - rb_w rb
      else rb_size rb - rb_w rb + rb_r rb)"

definition ring_peekAll :: "ring \<Rightarrow> (bytes \<times> bytes) go" where
  "ring_peekAll rb =
     (if rb_isEmpty rb then Some ([], [])
      else if rb_w rb > rb_r rb then do {
        head \<leftarrow> slice (rb_buf rb) (rb_r rb) (rb_w rb);
        Some (head, [])
      }
      else do {
        head \<leftarrow> slice (rb_buf rb) (rb_r rb) (int (length (rb_buf rb)));
        tail \<leftarrow> (if rb_w rb \<noteq> 0 then slice (rb_buf rb) 0 (rb_w rb) else Some []);
        Some (head, tail)
      })"

definition ring_Peek :: "ring \<Rightarrow> int \<Rightarrow> (bytes \<times> bytes) go" where
  "ring_Peek rb n =
     (if rb_isEmpty rb then Some ([], [])
      else if n \<le> 0 then ring_peekAll rb
      else if rb_w rb > rb_r rb then
        (let m = rb_w rb - rb_r rb; m = (if m > n then n else m) in do {
           head \<leftarrow> slice (rb_buf rb) (rb_r rb) (rb_r rb + m);
           Some (head, [])
         })
      else
        (let m = rb_size rb - rb_r rb + rb_w rb; m = (if m > n then n else m) in
         if rb_r rb + m \<le> rb_size rb then do {
           head \<leftarrow> slice (rb_buf rb) (rb_r rb) (rb_r rb + m);
           Some (head, [])
         }
         else
           (let c1 = rb_size rb - rb_r rb; c2 = m - c1 in do {
              head \<leftarrow> slice (rb_buf rb) (rb_r rb) (int (length (rb_buf rb)));
              tail \<leftarrow> slice (rb_buf rb) 0 c2;
              Some (head, tail)
            })))"

definition ring_Discard :: "ring \<Rightarrow> int \<Rightarrow> (ring \<times> int) go" where
  "ring_Discard rb n =
     (if n \<le> 0 then Some (rb, 0)
      else
        (let discarded = ring_Buffered rb in
         if n < discarded then do {
           r' \<leftarrow> go_rem (rb_r rb + n) (rb_size rb);
           Some (rb\<lparr>rb_r := r'\<rparr>, n)
         }
         else Some (ring_Reset rb, discarded)))"

text \<open>
  \<open>Read(p)\<close> only uses the length of \<open>p\<close> and fills its first \<open>n\<close> bytes: the model takes the
  length and returns those bytes.
\<close>

definition ring_Read :: "ring \<Rightarrow> int \<Rightarrow> (ring \<times> bytes \<times> ring_err option) go" where
  "ring_Read rb plen =
     (if plen = 0 then Some (rb, [], None)
      else if rb_isEmpty rb then Some (rb, [], Some ErrIsEmpty)
      else if rb_w rb > rb_r rb then
        (let n = rb_w rb - rb_r rb; n = (if n > plen then plen else n) in do {
           p \<leftarrow> slice (rb_buf rb) (rb_r rb) (rb_r rb + n);
           let rb = rb\<lparr>rb_r := rb_r rb + n\<rparr>;
           Some (if rb_r rb = rb_w rb then ring_Reset rb else rb, p, None)
         })
      else
        (let n = rb_size rb - rb_r rb + rb_w rb; n = (if n > plen then plen else n) in do {
           p \<leftarrow> (if rb_r rb + n \<le> rb_size rb then slice (rb_buf rb) (rb_r rb) (rb_r rb + n)
                else (let c1 = rb_size rb - rb_r rb; c2 = n - c1 in do {
                  p1 \<leftarrow> slice (rb_buf rb) (rb_r rb) (int (length (rb_buf rb)));
                  p2 \<leftarrow> slice (rb_buf rb) 0 c2;
                  Some (p1 @ p2)
                }));
           r' \<leftarrow> go_rem (rb_r rb + n) (rb_size rb);
           let rb = rb\<lparr>rb_r := r'\<rparr>;
           Some (if rb_r rb = rb_w rb then ring_Reset rb else rb, p, None)
         }))"

definition ring_ReadByte :: "ring \<Rightarrow> (ring \<times> (ring_err + byte)) go" where
  "ring_ReadByte rb =
     (if rb_isEmpty rb then Some (rb, Inl ErrIsEmpty)
      else do {
        b \<leftarrow> idx (rb_buf rb) (rb_r rb);
        let rb = rb\<lparr>rb_r := rb_r rb + 1\<rparr>;
        let rb = (if rb_r rb = rb_size rb then rb\<lparr>rb_r := 0\<rparr> else rb);
        Some (if rb_r rb = rb_w rb then ring_Reset rb else rb, Inr b)
      })"

text \<open>
  The growth loop \<open>for 0 < n && n < newCap { n += n / 4 }\<close> with the wrap-around its comment
  guards against. It does not end for \<open>0 < n < 4\<close>, hence the option.
\<close>

definition grow_loop :: "int \<Rightarrow> int \<Rightarrow> int go" where
  "grow_loop newCap n = while_option (\<lambda>n. 0 < n \<and> n < newCap) (\<lambda>n. wrap64 (n + n div 4)) n"

definition grow_cap :: "int \<Rightarrow> int \<Rightarrow> int go" where
  "grow_cap n newCap =
     (if n = 0 then
        (if newCap \<le> DefaultBufferSize then Some DefaultBufferSize else CeilToPowerOfTwo newCap)
      else
        (let doubleCap = wrap64 (n + n) in
         if newCap \<le> doubleCap then
           (if n < bufferGrowThreshold then Some doubleCap
            else do {
              n \<leftarrow> grow_loop newCap n;
              Some (if n > 0 then n else newCap)
            })
         else Some newCap))"

definition ring_grow :: "bytes \<Rightarrow> ring \<Rightarrow> int \<Rightarrow> ring go" where
  "ring_grow dirty rb newCap = do {
     newCap \<leftarrow> grow_cap (rb_size rb) newCap;
     let newBuf = alloc dirty newCap;
     let oldLen = ring_Buffered rb;
     (rb, p, _) \<leftarrow> ring_Read rb (int (length newBuf));
     newBuf \<leftarrow> copy_at newBuf 0 p;
     let rb = rb\<lparr>rb_buf := newBuf, rb_r := 0, rb_w := oldLen, rb_size := newCap\<rparr>;
     Some (if rb_w rb > 0 then rb\<lparr>rb_isEmpty := False\<rparr> else rb)
   }"

definition ring_Write :: "bytes \<Rightarrow> ring \<Rightarrow> bytes \<Rightarrow> (ring \<times> int) go" where
  "ring_Write dirty rb p =
     (let n = int (length p) in
      if n = 0 then Some (rb, n)
      else do {
        let free = ring_Available rb;
        rb \<leftarrow> (if n > free then ring_grow dirty rb (rb_size rb + n - free) else Some rb);
        rb \<leftarrow> (if rb_w rb \<ge> rb_r rb then
                (let c1 = rb_size rb - rb_w rb in
                 if c1 \<ge> n then do {
                   buf \<leftarrow> copy_at (rb_buf rb) (rb_w rb) p;
                   Some (rb\<lparr>rb_buf := buf, rb_w := rb_w rb + n\<rparr>)
                 }
                 else do {
                   p1 \<leftarrow> slice p 0 c1;
                   buf \<leftarrow> copy_at (rb_buf rb) (rb_w rb) p1;
                   let c2 = n - c1;
                   p2 \<leftarrow> slice p c1 n;
                   buf \<leftarrow> copy_at buf 0 p2;
                   Some (rb\<lparr>rb_buf := buf, rb_w := c2\<rparr>)
                 })
              else do {
                buf \<leftarrow> copy_at (rb_buf rb) (rb_w rb) p;
                Some (rb\<lparr>rb_buf := buf, rb_w := rb_w rb + n\<rparr>)
              });
        let rb = (if rb_w rb = rb_size rb then rb\<lparr>rb_w := 0\<rparr> else rb);
        Some (rb\<lparr>rb_isEmpty := False\<rparr>, n)
      })"

definition ring_WriteByte :: "bytes \<Rightarrow> ring \<Rightarrow> byte \<Rightarrow> ring go" where
  "ring_WriteByte dirty rb c = do {
     rb \<leftarrow> (if ring_Available rb < 1 then ring_grow dirty rb 1 else Some rb);
     _ \<leftarrow> idx (rb_buf rb) (rb_w rb);
     let rb = rb\<lparr>rb_buf := (rb_buf rb)[nat (rb_w rb) := c], rb_w := rb_w rb + 1\<rparr>;
     let rb = (if rb_w rb = rb_size rb then rb\<lparr>rb_w := 0\<rparr> else rb);
     Some (rb\<lparr>rb_isEmpty := False\<rparr>)
   }"

definition ring_WriteString :: "bytes \<Rightarrow> ring \<Rightarrow> string \<Rightarrow> (ring \<times> int) go" where
  "ring_WriteString dirty rb s = ring_Write dirty rb s"

definition ring_Bytes :: "ring \<Rightarrow> bytes go" where
  "ring_Bytes rb =
     (if rb_isEmpty rb then Some []
      else if rb_w rb = rb_r rb then do {
        b1 \<leftarrow> slice (rb_buf rb) (rb_r rb) (int (length (rb_buf rb)));
        b2 \<leftarrow> slice (rb_buf rb) 0 (rb_w rb);
        Some (b1 @ b2)
      }
      else if rb_w rb > rb_r rb then slice (rb_buf rb) (rb_r rb) (rb_w rb)
      else do {
        b1 \<leftarrow> slice (rb_buf rb) (rb_r rb) (int (length (rb_buf rb)));
        b2 \<leftarrow> (if rb_w rb \<noteq> 0 then slice (rb_buf rb) 0 (rb_w rb) else Some []);
        Some (b1 @ b2)
      })"

text \<open>
  \<open>CopyFromSocket(fd)\<close>: one read system call into the free space. \<open>rd k\<close> is what the kernel
  delivers for a request of \<open>k\<close> bytes (for \<open>readv\<close>, of the two slices together): the bytes, or
  an error with no bytes.
\<close>

definition ring_CopyFromSocket ::
  "bytes \<Rightarrow> (int \<Rightarrow> bytes \<times> ring_err option) \<Rightarrow> ring \<Rightarrow> (ring \<times> int \<times> ring_err option) go" where
  "ring_CopyFromSocket dirty rd rb =
     (if rb_r rb = rb_w rb then
        (if \<not> rb_isEmpty rb then do {
           rb \<leftarrow> ring_grow dirty rb (rb_size rb + rb_size rb div 2);
           let (d, e) = rd (int (length (rb_buf rb)) - rb_w rb);
           let n = int (length d);
           buf \<leftarrow> copy_at (rb_buf rb) (rb_w rb) d;
           w' \<leftarrow> (if n > 0 then go_rem (rb_w rb + n) (rb_size rb) else Some (rb_w rb));
           Some (rb\<lparr>rb_buf := buf, rb_w := w'\<rparr>, n, e)
         }
         else do {
           let rb = rb\<lparr>rb_r := 0, rb_w := 0\<rparr>;
           let (d, e) = rd (int (length (rb_buf rb)));
           let n = int (length d);
           buf \<leftarrow> copy_at (rb_buf rb) 0 d;
           (if n > 0 then do {
              w' \<leftarrow> go_rem (rb_w rb + n) (rb_size rb);
              Some (rb\<lparr>rb_buf := buf, rb_w := w', rb_isEmpty := False\<rparr>, n, e)
            }
            else Some (rb, n, e))
         })
      else if rb_w rb < rb_r rb then do {
        let (d, e) = rd (rb_r rb - rb_w rb);
        let n = int (length d);
        buf \<leftarrow> copy_at (rb_buf rb) (rb_w rb) d;
        w' \<leftarrow> (if n > 0 then go_rem (rb_w rb + n) (rb_size rb) else Some (rb_w rb));
        Some (rb\<lparr>rb_buf := buf, rb_w := w'\<rparr>, n, e)
      }
      else do {
        let c1 = int (length (rb_buf rb)) - rb_w rb;
        let (d, e) = rd (c1 + rb_r rb);
        let n = int (length d);
        buf \<leftarrow> copy_at (rb_buf rb) (rb_w rb) (take (nat c1) d);
        buf \<leftarrow> copy_at buf 0 (drop (nat c1) d);
        w' \<leftarrow> (if n > 0 then go_rem (rb_w rb + n) (rb_size rb) else Some (rb_w rb));
        Some (rb\<lparr>rb_buf := buf, rb_w := w'\<rparr>, n, e)
      })"

definition ring_Rewind :: "bytes \<Rightarrow> ring \<Rightarrow> (ring \<times> int) go" where
  "ring_Rewind dirty rb =
     (if ring_IsEmpty rb then Some (ring_Reset rb, 0)
      else if rb_w rb = 0 then
        (if rb_r rb < rb_size rb - rb_r rb then do {
           rb \<leftarrow> ring_grow dirty rb (rb_size rb + rb_size rb - rb_r rb);
           Some (rb, rb_size rb - rb_r rb)
         }
         else do {
           d \<leftarrow> slice (rb_buf rb) (rb_r rb) (int (length (rb_buf rb)));
           buf \<leftarrow> copy_at (rb_buf rb) 0 d;
           Some (rb\<lparr>rb_buf := buf, rb_r := 0, rb_w := int (length d)\<rparr>, int (length d))
         })
      else if rb_size rb - rb_w rb < DefaultBufferSize then
        (if rb_r rb < rb_w rb - rb_r rb then do {
           rb \<leftarrow> ring_grow dirty rb (rb_size rb + rb_w rb - rb_r rb);
           Some (rb, rb_w rb - rb_r rb)
         }
         else do {
           d \<leftarrow> slice (rb_buf rb) (rb_r rb) (rb_w rb);
           buf \<leftarrow> copy_at (rb_buf rb) 0 d;
           Some (rb\<lparr>rb_buf := buf, rb_r := 0, rb_w := int (length d)\<rparr>, int (length d))
         })
      else Some (rb, 0))"

text \<open>
  \<open>WriteTo(w)\<close>: \<open>wr\<close> is the writer's \<open>Write\<close>, which takes the writer's state and some bytes and
  returns the state, the number of bytes it took and an error. A count beyond the slice is a panic.
\<close>

definition ring_WriteTo ::
  "('w \<Rightarrow> bytes \<Rightarrow> 'w \<times> int \<times> ring_err option) \<Rightarrow> 'w \<Rightarrow> ring \<Rightarrow> ('w \<times> ring \<times> int \<times> ring_err option) go" where
  "ring_WriteTo wr w rb =
     (if rb_isEmpty rb then Some (w, rb, 0, Some ErrIsEmpty)
      else if rb_w rb > rb_r rb then do {
        let n = rb_w rb - rb_r rb;
        b \<leftarrow> slice (rb_buf rb) (rb_r rb) (rb_r rb + n);
        let (w, m, e) = wr w b;
        (if m > n then None
         else do {
           let rb = rb\<lparr>rb_r := rb_r rb + m\<rparr>;
           let rb = (if rb_r rb = rb_w rb then ring_Reset rb else rb);
           Some (w, rb, m, if e \<noteq> None then e else if \<not> rb_isEmpty rb then Some ErrShortWrite else None)
         })
      }
      else do {
        let n = rb_size rb - rb_r rb + rb_w rb;
        (if rb_r rb + n \<le> rb_size rb then do {
           b \<leftarrow> slice (rb_buf rb) (rb_r rb) (rb_r rb + n);
           let (w, m, e) = wr w b;
           (if m > n then None
            else do {
              r' \<leftarrow> go_rem (rb_r rb + m) (rb_size rb);
              let rb = rb\<lparr>rb_r := r'\<rparr>;
              let rb = (if rb_r rb = rb_w rb then ring_Reset rb else rb);
              Some (w, rb, m, if e \<noteq> None then e else if \<not> rb_isEmpty rb then Some ErrShortWrite else None)
            })
         }
         else do {
           let c1 = rb_size rb - rb_r rb;
           b \<leftarrow> slice (rb_buf rb) (rb_r rb) (int (length (rb_buf rb)));
           let (w, m, e) = wr w b;
           (if m > c1 then None
            else do {
              r' \<leftarrow> go_rem (rb_r rb + m) (rb_size rb);
              let rb = rb\<lparr>rb_r := r'\<rparr>;
              (if e \<noteq> None then Some (w, rb, m, e)
               else if m < c1 then Some (w, rb, m, Some ErrShortWrite)
               else do {
                 let cum = m;
                 let c2 = n - c1;
                 b \<leftarrow> slice (rb_buf rb) 0 c2;
                 let (w, m, e) = wr w b;
                 (if m > c2 then None
                  else do {
                    let rb = rb\<lparr>rb_r := m\<rparr>;
                    let cum = cum + m;
                    let rb = (if rb_r rb = rb_w rb then ring_Reset rb else rb);
                    Some (w, rb, cum, if e \<noteq> None then e else if \<not> rb_isEmpty rb then Some ErrShortWrite else None)
                  })
               })
            })
         })
      })"

text \<open>
  \<open>ReadFrom(r)\<close>: \<open>rd\<close> is the reader's \<open>Read\<close>, which takes the reader's state and the length of the
  slice it may fill and returns the state, the bytes and an error. The loop ends when the reader
  reports an error or the end of its input.
\<close>

partial_function (option) ring_ReadFrom ::
  "('r \<Rightarrow> int \<Rightarrow> 'r \<times> bytes \<times> ring_err option) \<Rightarrow> bytes \<Rightarrow> 'r \<Rightarrow> ring \<Rightarrow> int \<Rightarrow>
   ('r \<times> ring \<times> int \<times> ring_err option) option" where
  "ring_ReadFrom rd dirty st rb n = do {
     rb \<leftarrow> (if ring_Available rb < MinRead then ring_grow dirty rb (ring_Buffered rb + MinRead) else Some rb);
     (if rb_w rb \<ge> rb_r rb then do {
        let (st, d, e) = rd st (int (length (rb_buf rb)) - rb_w rb);
        buf \<leftarrow> copy_at (rb_buf rb) (rb_w rb) d;
        w' \<leftarrow> go_rem (rb_w rb + int (length d)) (rb_size rb);
        let rb = rb\<lparr>rb_buf := buf, rb_isEmpty := False, rb_w := w'\<rparr>;
        let n = n + int (length d);
        (if e = Some EOF then Some (st, rb, n, None)
         else if e \<noteq> None then Some (st, rb, n, e)
         else do {
           let (st, d, e) = rd st (rb_r rb);
           buf \<leftarrow> copy_at (rb_buf rb) 0 d;
           w' \<leftarrow> go_rem (rb_w rb + int (length d)) (rb_size rb);
           let rb = rb\<lparr>rb_buf := buf, rb_w := w'\<rparr>;
           let n = n + int (length d);
           (if e = Some EOF then Some (st, rb, n, None)
            else if e \<noteq> None then Some (st, rb, n, e)
            else ring_ReadFrom rd dirty st rb n)
         })
      }
      else do {
        let (st, d, e) = rd st (rb_r rb - rb_w rb);
        buf \<leftarrow> copy_at (rb_buf rb) (rb_w rb) d;
        w' \<leftarrow> go_rem (rb_w rb + int (length d)) (rb_size rb);
        let rb = rb\<lparr>rb_buf := buf, rb_isEmpty := False, rb_w := w'\<rparr>;
        let n = n + int (length d);
        (if e = Some EOF then Some (st, rb, n, None)
         else if e \<noteq> None then Some (st, rb, n, e)
         else ring_ReadFrom rd dirty st rb n)
      })
   }"

section \<open>Invariant and shapes\<close>

definition ring_inv :: "ring \<Rightarrow> bool" where
  "ring_inv rb \<longleftrightarrow>
     rb_size rb = int (length (rb_buf rb)) \<and> 0 \<le> rb_r rb \<and> 0 \<le> rb_w rb \<and>
     (if rb_isEmpty rb then rb_r rb = 0 \<and> rb_w rb = 0
      else rb_r rb < rb_size rb \<and> rb_w rb < rb_size rb)"

text \<open>The queue of bytes a buffer stands for.\<close>

definition ring_abs :: "ring \<Rightarrow> bytes" where
  "ring_abs rb =
     (if rb_isEmpty rb then []
      else if rb_w rb > rb_r rb then take (nat (rb_w rb - rb_r rb)) (drop (nat (rb_r rb)) (rb_buf rb))
      else drop (nat (rb_r rb)) (rb_buf rb) @ take (nat (rb_w rb)) (rb_buf rb))"

definition mk_ring :: "bytes \<Rightarrow> nat \<Rightarrow> nat \<Rightarrow> bool \<Rightarrow> ring" where
  "mk_ring b i j e =
     \<lparr>rb_buf = b, rb_size = int (length b), rb_r = int i, rb_w = int j, rb_isEmpty = e\<rparr>"

lemma mk_ring_sel [simp]:
  "rb_buf (mk_ring b i j e) = b" "rb_size (mk_ring b i j e) = int (length b)"
  "rb_r (mk_ring b i j e) = int i" "rb_w (mk_ring b i j e) = int j"
  "rb_isEmpty (mk_ring b i j e) = e"
  by (simp_all add: mk_ring_def)

lemma mk_ring_upd:
  "length b' = length b \<Longrightarrow> (mk_ring b i j e)\<lparr>rb_buf := b'\<rparr> = mk_ring b' i j e"
  "(mk_ring b i j e)\<lparr>rb_r := int i'\<rparr> = mk_ring b i' j e"
  "(mk_ring b i j e)\<lparr>rb_w := int j'\<rparr> = mk_ring b i j' e"
  "(mk_ring b i j e)\<lparr>rb_isEmpty := e'\<rparr> = mk_ring b i j e'"
  "(mk_ring b i j e)\<lparr>rb_r := 0\<rparr> = mk_ring b 0 j e"
  "(mk_ring b i j e)\<lparr>rb_w := 0\<rparr> = mk_ring b i 0 e"
  by (simp_all add: mk_ring_def)

text \<open>The three shapes: empty, flat (\<open>a @ c @ d\<close>) and wrapped (\<open>c2 @ f @ c1\<close>).\<close>

definition ring_empty :: "bytes \<Rightarrow> ring" where
  "ring_empty b = mk_ring b 0 0 True"

definition ring_flat :: "bytes \<Rightarrow> bytes \<Rightarrow> bytes \<Rightarrow> ring" where
  "ring_flat a c d = mk_ring (a @ c @ d) (length a) (length a + length c) False"

definition ring_wrap :: "bytes \<Rightarrow> bytes \<Rightarrow> bytes \<Rightarrow> ring" where
  "ring_wrap c2 f c1 = mk_ring (c2 @ f @ c1) (length c2 + length f) (length c2) False"

lemmas ring_shape_defs = ring_empty_def ring_flat_def ring_wrap_def

lemma ring_shape:
  assumes "ring_inv rb"
  obtains (empty) b where "rb = ring_empty b" "ring_abs rb = []"
  | (flat) a c d where "rb = ring_flat a c d" "c \<noteq> []" "d \<noteq> []" "ring_abs rb = c"
  | (wrap) c2 f c1 where "rb = ring_wrap c2 f c1" "c1 \<noteq> []" "ring_abs rb = c1 @ c2"
proof -
  obtain b i j e where rb: "rb = mk_ring b i j e"
    using assms
    by (metis (full_types) mk_ring_def ring.surjective old.unit.exhaust ring_inv_def zero_le_imp_eq_int)
  consider "e" | "\<not> e" "i < j" | "\<not> e" "j \<le> i" by linarith
  then show ?thesis
  proof cases
    case 1
    with assms rb show ?thesis
      by (intro empty [of b]) (auto simp: ring_inv_def ring_empty_def ring_abs_def)
  next
    case 2
    define a c d where "a = take i b" "c = take (j - i) (drop i b)" "d = drop j b"
    have j: "j < length b" using assms rb 2 by (simp add: ring_inv_def)
    have "b = a @ c @ d"
      unfolding a_c_d_def using 2 j
      by (metis append_take_drop_id drop_drop le_add_diff_inverse2 less_imp_le)
    moreover have "length a = i" "length c = j - i" "d \<noteq> []"
      using 2 j by (simp_all add: a_c_d_def)
    ultimately show ?thesis
      using 2 rb by (intro flat [of a c d]) (auto simp: ring_flat_def ring_abs_def)
  next
    case 3
    define c2 f c1 where "c2 = take j b" "f = take (i - j) (drop j b)" "c1 = drop i b"
    have i: "i < length b" using assms rb 3 by (simp add: ring_inv_def)
    have "b = c2 @ f @ c1"
      unfolding c2_f_c1_def using 3 i
      by (metis append_take_drop_id drop_drop le_add_diff_inverse2)
    moreover have "length c2 = j" "length f = i - j" "c1 \<noteq> []"
      using 3 i by (simp_all add: c2_f_c1_def)
    ultimately show ?thesis
      using 3 rb by (intro wrap [of c2 f c1]) (auto simp: ring_wrap_def ring_abs_def)
  qed
qed

lemma ring_inv_shapes [simp, intro]:
  "ring_inv (ring_empty b)"
  "c \<noteq> [] \<Longrightarrow> d \<noteq> [] \<Longrightarrow> ring_inv (ring_flat a c d)"
  "c1 \<noteq> [] \<Longrightarrow> ring_inv (ring_wrap c2 f c1)"
  by (auto simp: ring_inv_def ring_shape_defs add_pos_nonneg add_nonneg_pos)

lemma ring_abs_shapes [simp]:
  "ring_abs (ring_empty b) = []"
  "c \<noteq> [] \<Longrightarrow> ring_abs (ring_flat a c d) = c"
  "c1 \<noteq> [] \<Longrightarrow> ring_abs (ring_wrap c2 f c1) = c1 @ c2"
  by (auto simp: ring_abs_def ring_shape_defs)

lemma ring_size_shapes [simp]:
  "rb_size (ring_empty b) = int (length b)"
  "rb_size (ring_flat a c d) = int (length a + length c + length d)"
  "rb_size (ring_wrap c2 f c1) = int (length c2 + length f + length c1)"
  by (simp_all add: ring_shape_defs)

section \<open>Queries\<close>

lemma ring_Buffered_abs:
  assumes "ring_inv rb"
  shows "ring_Buffered rb = int (length (ring_abs rb))"
  using assms by (cases rule: ring_shape) (auto simp: ring_Buffered_def ring_shape_defs)

lemma ring_Available_abs:
  assumes "ring_inv rb"
  shows "ring_Available rb = rb_size rb - int (length (ring_abs rb))"
  using assms by (cases rule: ring_shape) (auto simp: ring_Available_def ring_shape_defs)

lemma ring_IsEmpty_abs:
  assumes "ring_inv rb"
  shows "ring_IsEmpty rb \<longleftrightarrow> ring_abs rb = []"
  using assms by (cases rule: ring_shape) (auto simp: ring_IsEmpty_def ring_shape_defs)

lemma ring_abs_le_size:
  assumes "ring_inv rb"
  shows "int (length (ring_abs rb)) \<le> rb_size rb"
  using assms by (cases rule: ring_shape) (auto simp: ring_shape_defs)

lemma ring_Bytes_abs:
  assumes "ring_inv rb"
  shows "ring_Bytes rb = Some (ring_abs rb)"
  using assms
proof (cases rule: ring_shape)
  case (wrap c2 f c1)
  then show ?thesis
    by (cases "c2 = []") (auto simp: ring_Bytes_def ring_wrap_def slice_def nat_add_distrib)
qed (auto simp: ring_Bytes_def ring_empty_def ring_flat_def slice_def)

lemma ring_peekAll_abs:
  assumes "ring_inv rb"
  shows "\<exists>head tail. ring_peekAll rb = Some (head, tail) \<and> head @ tail = ring_abs rb"
  using assms
proof (cases rule: ring_shape)
  case (wrap c2 f c1)
  then show ?thesis
    by (cases "c2 = []") (auto simp: ring_peekAll_def ring_wrap_def slice_def nat_add_distrib)
qed (auto simp: ring_peekAll_def ring_empty_def ring_flat_def slice_def)

lemma ring_Peek_abs:
  assumes "ring_inv rb"
  shows "\<exists>head tail. ring_Peek rb n = Some (head, tail) \<and>
    head @ tail = (if n \<le> 0 then ring_abs rb else take (nat n) (ring_abs rb))"
proof (cases "n \<le> 0")
  case True
  with ring_peekAll_abs [OF assms] show ?thesis
    using assms by (auto simp: ring_Peek_def ring_abs_def)
next
  case False
  from assms show ?thesis
  proof (cases rule: ring_shape)
    case (wrap c2 f c1)
    show ?thesis
    proof (cases "n \<le> int (length c1)")
      case True
      with False wrap show ?thesis
        by (cases c2) (auto simp: ring_Peek_def ring_wrap_def slice_def nat_add_distrib Let_def nat_le_iff)
    next
      case n: False
      with False wrap show ?thesis
        by (auto simp: ring_Peek_def ring_wrap_def slice_def nat_add_distrib nat_diff_distrib Let_def)
    qed
  qed (use False in \<open>auto simp: ring_Peek_def ring_empty_def ring_flat_def slice_def Let_def\<close>)
qed

section \<open>Removing from the front\<close>

text \<open>Moving the read position forward by \<open>n\<close>, fewer than are buffered.\<close>

lemma ring_advance:
  assumes "ring_inv rb" "n < length (ring_abs rb)"
  shows "\<exists>r'. go_rem (rb_r rb + int n) (rb_size rb) = Some r' \<and> ring_inv (rb\<lparr>rb_r := r'\<rparr>) \<and>
    ring_abs (rb\<lparr>rb_r := r'\<rparr>) = drop n (ring_abs rb) \<and> (rb_w rb > rb_r rb \<longrightarrow> r' = rb_r rb + int n) \<and>
    (r' = rb_w rb \<longleftrightarrow> n = 0 \<and> rb_r rb = rb_w rb)"
  using assms(1)
proof (cases rule: ring_shape)
  case (empty b)
  with assms(2) show ?thesis by simp
next
  case (flat a c d)
  have n: "n < length c" using assms(2) flat by simp
  have g: "go_rem (rb_r rb + int n) (rb_size rb) = Some (int (length a + n))"
    using n flat by (subst go_rem_nonneg) (auto simp: ring_flat_def)
  have e: "rb\<lparr>rb_r := int (length a + n)\<rparr> = ring_flat (a @ take n c) (drop n c) d"
    using n flat by (simp add: ring_flat_def mk_ring_def)
  show ?thesis
  proof (intro exI conjI, rule g)
    show "ring_inv (rb\<lparr>rb_r := int (length a + n)\<rparr>)"
      "ring_abs (rb\<lparr>rb_r := int (length a + n)\<rparr>) = drop n (ring_abs rb)"
      unfolding e using n flat by auto
  qed (use n flat in \<open>auto simp: ring_flat_def\<close>)
next
  case (wrap c2 f c1)
  show ?thesis
  proof (cases "n < length c1")
    case True
    have g: "go_rem (rb_r rb + int n) (rb_size rb) = Some (int (length c2 + length f + n))"
      using True wrap by (subst go_rem_nonneg) (auto simp: ring_wrap_def)
    have e: "rb\<lparr>rb_r := int (length c2 + length f + n)\<rparr> = ring_wrap c2 (f @ take n c1) (drop n c1)"
      using True wrap by (simp add: ring_wrap_def mk_ring_def)
    show ?thesis
    proof (intro exI conjI, rule g)
      show "ring_inv (rb\<lparr>rb_r := int (length c2 + length f + n)\<rparr>)"
        "ring_abs (rb\<lparr>rb_r := int (length c2 + length f + n)\<rparr>) = drop n (ring_abs rb)"
        unfolding e using True wrap by auto
    qed (use True wrap in \<open>auto simp: ring_wrap_def add_nonneg_eq_0_iff\<close>)
  next
    case False
    define m where "m = n - length c1"
    have m: "n = length c1 + m" "m < length c2" using False assms(2) wrap by (auto simp: m_def)
    have "(int (length c2) + int (length f) + (int (length c1) + int m)) mod
        (int (length c2) + (int (length f) + int (length c1))) = int m"
      using m(2) mod_add_self1 [of "int (length c2) + (int (length f) + int (length c1))" "int m"]
      by (simp add: add.assoc)
    then have g: "go_rem (rb_r rb + int n) (rb_size rb) = Some (int m)"
      using m wrap by (subst go_rem_nonneg) (auto simp: ring_wrap_def add_pos_nonneg)
    have e: "rb\<lparr>rb_r := int m\<rparr> = ring_flat (take m c2) (drop m c2) (f @ c1)"
      using m wrap by (simp add: ring_wrap_def ring_flat_def mk_ring_def)
    show ?thesis
    proof (intro exI conjI, rule g)
      show "ring_inv (rb\<lparr>rb_r := int m\<rparr>)" "ring_abs (rb\<lparr>rb_r := int m\<rparr>) = drop n (ring_abs rb)"
        unfolding e using m wrap by auto
    qed (use m wrap in \<open>auto simp: ring_wrap_def\<close>)
  qed
qed

lemma ring_Reset_inv:
  assumes "ring_inv rb"
  shows "ring_inv (ring_Reset rb)" "ring_abs (ring_Reset rb) = []"
  using assms by (auto simp: ring_inv_def ring_Reset_def ring_abs_def)

lemma ring_Reset_keeps: "rb_size (ring_Reset rb) = rb_size rb" "rb_buf (ring_Reset rb) = rb_buf rb"
  by (simp_all add: ring_Reset_def)

lemma ring_Discard_abs:
  assumes "ring_inv rb"
  shows "\<exists>rb'. ring_Discard rb n = Some (rb', max 0 (min n (int (length (ring_abs rb))))) \<and>
    ring_inv rb' \<and> ring_abs rb' = drop (nat n) (ring_abs rb) \<and> rb_size rb' = rb_size rb"
proof -
  consider "n \<le> 0" | "0 < n" "n < int (length (ring_abs rb))" | "0 < n" "int (length (ring_abs rb)) \<le> n"
    by linarith
  then show ?thesis
  proof cases
    case 1
    with assms show ?thesis by (simp add: ring_Discard_def)
  next
    case 2
    then have "nat n < length (ring_abs rb)" by linarith
    from ring_advance [OF assms this] 2 assms show ?thesis
      by (auto simp: ring_Discard_def ring_Buffered_abs)
  next
    case 3
    with assms show ?thesis
      by (auto simp: ring_Discard_def ring_Buffered_abs ring_Reset_inv ring_Reset_keeps)
  qed
qed

text \<open>The bytes \<open>Read\<close> copies out of a wrapped buffer.\<close>

lemma ring_wrap_copy:
  assumes "rb = ring_wrap c2 f c1" and "n \<le> length c1 + length c2"
  shows "(if rb_r rb + int n \<le> rb_size rb then slice (rb_buf rb) (rb_r rb) (rb_r rb + int n)
      else do {
        p1 \<leftarrow> slice (rb_buf rb) (rb_r rb) (int (length (rb_buf rb)));
        p2 \<leftarrow> slice (rb_buf rb) 0 (int n - (rb_size rb - rb_r rb));
        Some (p1 @ p2)
      }) = Some (take n (c1 @ c2))"
  using assms by (auto simp: ring_wrap_def slice_def nat_add_distrib nat_diff_distrib)

lemma ring_Read_abs:
  assumes inv: "ring_inv rb" and "0 \<le> plen"
  shows "\<exists>rb'. ring_Read rb plen = Some (rb', take (nat plen) (ring_abs rb),
      if plen \<noteq> 0 \<and> ring_abs rb = [] then Some ErrIsEmpty else None) \<and>
    ring_inv rb' \<and> ring_abs rb' = drop (nat plen) (ring_abs rb) \<and>
    rb_size rb' = rb_size rb \<and> rb_buf rb' = rb_buf rb"
proof (cases "plen = 0")
  case True
  with inv show ?thesis by (simp add: ring_Read_def)
next
  case False
  define n where "n = min (nat plen) (length (ring_abs rb))"
  have m: "(if int k > plen then plen else int k) = int (min (nat plen) k)" for k
    using assms(2) by auto
  have tk: "take (nat plen) (ring_abs rb) = take n (ring_abs rb)"
    and dr: "drop (nat plen) (ring_abs rb) = drop n (ring_abs rb)"
    by (simp_all add: n_def min_def)
  from inv show ?thesis
  proof (cases rule: ring_shape)
    case (empty b)
    with False inv show ?thesis by (simp add: ring_Read_def ring_empty_def)
  next
    case (flat a c d)
    have n: "0 < n" "n \<le> length c" using False assms(2) flat by (auto simp: n_def)
    have rd: "ring_Read rb plen = Some (let rb = rb\<lparr>rb_r := rb_r rb + int n\<rparr> in
        if rb_r rb = rb_w rb then ring_Reset rb else rb, take n c, None)"
      using False flat n m [of "length c"]
      by (simp add: ring_Read_def ring_flat_def Let_def slice_def n_def)
    show ?thesis
    proof (cases "n = length c")
      case True
      with flat inv dr tk rd show ?thesis
        by (auto simp: ring_flat_def Let_def ring_Reset_def ring_inv_def ring_abs_def)
    next
      case lt: False
      then have "n < length (ring_abs rb)" using n flat by simp
      from ring_advance [OF inv this] flat lt n dr tk rd show ?thesis
        by (auto simp: ring_flat_def Let_def)
    qed
  next
    case (wrap c2 f c1)
    have n: "0 < n" "n \<le> length c1 + length c2" using False assms(2) wrap by (auto simp: n_def)
    have len: "rb_size rb - rb_r rb + rb_w rb = int (length c1 + length c2)"
      using wrap by (simp add: ring_wrap_def)
    have rd: "ring_Read rb plen = do {
        r' \<leftarrow> go_rem (rb_r rb + int n) (rb_size rb);
        let rb = rb\<lparr>rb_r := r'\<rparr>;
        Some (if rb_r rb = rb_w rb then ring_Reset rb else rb, take n (c1 @ c2), None)}"
    proof -
      have "(if int (length c1 + length c2) > plen then plen else int (length c1 + length c2)) = int n"
        using m [of "length c1 + length c2"] wrap by (simp add: n_def)
      moreover have "\<not> rb_isEmpty rb" "\<not> rb_r rb < rb_w rb" using wrap by (auto simp: ring_wrap_def)
      ultimately show ?thesis
        using False
        by (simp only: ring_Read_def Let_def len ring_wrap_copy [OF wrap(1) n(2)] if_False
            bind.bind_lunit)
    qed
    show ?thesis
    proof (cases "n = length c1 + length c2")
      case True
      have "go_rem (rb_r rb + int n) (rb_size rb) = Some (rb_w rb)"
      proof -
        have "rb_r rb + int n = rb_w rb + rb_size rb" using True wrap by (simp add: ring_wrap_def)
        moreover have "0 \<le> rb_w rb" "rb_w rb < rb_size rb"
          using wrap inv by (auto simp: ring_inv_def ring_wrap_def)
        ultimately show ?thesis by (simp add: go_rem_nonneg)
      qed
      with True wrap inv dr tk rd show ?thesis
        by (auto simp: ring_wrap_def Let_def ring_Reset_def ring_inv_def ring_abs_def)
    next
      case lt: False
      then have "n < length (ring_abs rb)" using n wrap by simp
      from ring_advance [OF inv this] wrap lt n dr tk rd show ?thesis
        by (auto simp: Let_def)
    qed
  qed
qed

lemma ring_ReadByte_abs:
  assumes inv: "ring_inv rb"
  shows "\<exists>rb'. ring_ReadByte rb = Some (rb', case ring_abs rb of [] \<Rightarrow> Inl ErrIsEmpty | b # _ \<Rightarrow> Inr b) \<and>
    ring_inv rb' \<and> ring_abs rb' = tl (ring_abs rb)"
  using inv
proof (cases rule: ring_shape)
  case (empty b)
  with inv show ?thesis by (simp add: ring_ReadByte_def ring_empty_def)
next
  case (flat a c d)
  then obtain x c' where c: "c = x # c'" by (cases c) auto
  show ?thesis
  proof (cases c')
    case Nil
    have "ring_ReadByte rb = Some (ring_empty (a @ [x] @ d), Inr x)"
      using flat c Nil
      by (simp add: ring_ReadByte_def ring_shape_defs mk_ring_def idx_def nth_append ring_Reset_def)
    with flat c Nil show ?thesis by simp
  next
    case (Cons y ys)
    have "ring_ReadByte rb = Some (ring_flat (a @ [x]) c' d, Inr x)"
      using flat c Cons
      by (simp add: ring_ReadByte_def ring_shape_defs mk_ring_def idx_def nth_append)
    with flat c Cons show ?thesis by simp
  qed
next
  case (wrap c2 f c1)
  then obtain x c' where c: "c1 = x # c'" by (cases c1) auto
  have rd: "ring_ReadByte rb = Some (let rb = rb\<lparr>rb_r := if c' = [] then 0 else rb_r rb + 1\<rparr> in
      if rb_r rb = rb_w rb then ring_Reset rb else rb, Inr x)"
    using wrap c
    by (cases c') (auto simp: ring_ReadByte_def ring_wrap_def idx_def nth_append Let_def nat_add_distrib)
  consider "c' = []" "c2 = []" | "c' = []" "c2 \<noteq> []" | "c' \<noteq> []" by blast
  then show ?thesis
  proof cases
    case 1
    have "ring_ReadByte rb = Some (ring_empty (f @ [x]), Inr x)"
      using rd wrap c 1 by (simp add: ring_shape_defs mk_ring_def ring_Reset_def)
    with wrap c 1 show ?thesis by simp
  next
    case 2
    have "ring_ReadByte rb = Some (ring_flat [] c2 (f @ [x]), Inr x)"
      using rd wrap c 2 by (simp add: ring_shape_defs mk_ring_def)
    with wrap c 2 show ?thesis by simp
  next
    case 3
    have "ring_ReadByte rb = Some (ring_wrap c2 (f @ [x]) c', Inr x)"
      using rd wrap c 3 by (simp add: ring_shape_defs mk_ring_def)
    with wrap c 3 show ?thesis by simp
  qed
qed

section \<open>Growing\<close>

text \<open>The loop ends, and without overflow, for the capacities it is called with.\<close>

lemma grow_loop_ends:
  assumes "4 \<le> n" "newCap \<le> 2 ^ 62"
  shows "\<exists>m. grow_loop newCap n = Some m \<and> newCap \<le> m \<and> n \<le> m"
proof -
  define b where "b = (\<lambda>n::int. 0 < n \<and> n < newCap)"
  define c where "c = (\<lambda>n::int. wrap64 (n + n div 4))"
  have step: "n \<le> c k \<and> nat (newCap - c k) < nat (newCap - k)" if "n \<le> k" "b k" for k
  proof -
    have "c k = k + k div 4"
      using that assms unfolding c_def b_def by (intro wrap64_id) auto
    moreover have "0 < k div 4" using that assms by simp
    ultimately show ?thesis using that by (simp add: b_def)
  qed
  have "\<exists>m. while_option b c n = Some m"
    by (rule measure_while_option_Some [where P = "\<lambda>k. n \<le> k" and f = "\<lambda>k. nat (newCap - k)"])
      (use step in auto)
  then obtain m where m: "while_option b c n = Some m" ..
  have "n \<le> m"
    by (rule while_option_rule [OF _ m, where P = "\<lambda>k. n \<le> k"]) (use step in auto)
  moreover have "\<not> b m" using while_option_stop [OF m] .
  ultimately show ?thesis
    using m assms(1) unfolding grow_loop_def b_def c_def by auto
qed

lemma grow_cap_enough:
  assumes "0 \<le> n" "n < newCap" "newCap \<le> 2 ^ 62"
  shows "\<exists>cap. grow_cap n newCap = Some cap \<and> newCap \<le> cap"
proof (cases "n = 0")
  case True
  show ?thesis
  proof (cases "newCap \<le> DefaultBufferSize")
    case False
    then have "2 < newCap" by (simp add: DefaultBufferSize_def)
    then obtain l where "CeilToPowerOfTwo newCap = Some (2 ^ Suc l)" "newCap \<le> 2 ^ Suc l"
      using assms(3) by (rule CeilToPowerOfTwo_spec)
    with True False show ?thesis by (simp add: grow_cap_def)
  qed (simp add: True grow_cap_def)
next
  case False
  have "wrap64 (n + n) = n + n" using assms by (intro wrap64_id) auto
  with False show ?thesis
    using assms grow_loop_ends [of n newCap]
    by (auto simp: grow_cap_def Let_def bufferGrowThreshold_def)
qed

lemma grow_cap_half:
  assumes "1 \<le> n" "n \<le> 2 ^ 61"
  shows "\<exists>cap. grow_cap n (n + n div 2) = Some cap \<and> n < cap"
proof (cases "n = 1")
  case True
  then show ?thesis by (simp add: grow_cap_def Let_def bufferGrowThreshold_def wrap64_id)
next
  case False
  then have "1 \<le> n div 2" using assms(1) by simp
  then have "\<exists>cap. grow_cap n (n + n div 2) = Some cap \<and> n + n div 2 \<le> cap"
    using assms by (intro grow_cap_enough) auto
  with \<open>1 \<le> n div 2\<close> show ?thesis by auto
qed

lemma ring_grow_to:
  assumes inv: "ring_inv rb" and cp: "grow_cap (rb_size rb) newCap = Some cp" "rb_size rb < cp"
  shows "\<exists>d. d \<noteq> [] \<and> cp = int (length (ring_abs rb)) + int (length d) \<and>
    ring_grow dirty rb newCap =
      Some (if ring_abs rb = [] then ring_empty d else ring_flat [] (ring_abs rb) d)"
proof -
  have le: "int (length (ring_abs rb)) \<le> rb_size rb" by (rule ring_abs_le_size [OF inv])
  from ring_Read_abs [OF inv, of "int (length (alloc dirty cp))"]
  obtain rb1 e where rd: "ring_Read rb (int (length (alloc dirty cp))) = Some (rb1, ring_abs rb, e)"
    and rb1: "ring_inv rb1" "ring_abs rb1 = []"
    using le cp by force
  have e1: "rb_isEmpty rb1"
    using ring_IsEmpty_abs [OF rb1(1)] rb1(2) by (simp add: ring_IsEmpty_def)
  define d where "d = drop (length (ring_abs rb)) (alloc dirty cp)"
  have d: "d \<noteq> []" using le cp by (simp add: d_def)
  have len: "cp = int (length (ring_abs rb)) + int (length d)"
    using le cp by (simp add: d_def)
  have "copy_at (alloc dirty cp) 0 (ring_abs rb) = Some (ring_abs rb @ d)"
    using le cp by (subst copy_at_start) (auto simp: d_def)
  then have "ring_grow dirty rb newCap =
      Some (if ring_abs rb = [] then ring_empty d else ring_flat [] (ring_abs rb) d)"
    using cp rd rb1 e1 len
    by (auto simp: ring_grow_def ring_Buffered_abs [OF inv] ring_shape_defs mk_ring_def Let_def
        ring_inv_def)
  with d len show ?thesis by blast
qed

lemma ring_grow_abs:
  assumes inv: "ring_inv rb" and cap: "rb_size rb < newCap" "newCap \<le> 2 ^ 62"
  shows "\<exists>rb'. ring_grow dirty rb newCap = Some rb' \<and> ring_inv rb' \<and> ring_abs rb' = ring_abs rb \<and>
    newCap \<le> rb_size rb'"
proof -
  have "int (length (ring_abs rb)) \<le> rb_size rb" by (rule ring_abs_le_size [OF inv])
  then obtain cp where cp: "grow_cap (rb_size rb) newCap = Some cp" "newCap \<le> cp"
    using grow_cap_enough [of "rb_size rb" newCap] cap by force
  from ring_grow_to [OF inv cp(1)] cap(1) cp(2) obtain d where d: "d \<noteq> []"
    "cp = int (length (ring_abs rb)) + int (length d)"
    "ring_grow dirty rb newCap =
      Some (if ring_abs rb = [] then ring_empty d else ring_flat [] (ring_abs rb) d)" by auto
  with cp(2) show ?thesis by auto
qed

section \<open>Writing\<close>

lemma ring_Write_fits:
  assumes inv: "ring_inv rb" and fits: "int (length p) \<le> ring_Available rb"
  shows "\<exists>rb'. ring_Write dirty rb p = Some (rb', int (length p)) \<and> ring_inv rb' \<and>
    ring_abs rb' = ring_abs rb @ p \<and> rb_size rb' = rb_size rb"
proof (cases "p = []")
  case True
  with inv show ?thesis by (simp add: ring_Write_def)
next
  case p: False
  note av = fits [unfolded ring_Available_abs [OF inv]]
  note simps = ring_Write_def Let_def fits copy_at_def slice_def
  from inv show ?thesis
  proof (cases rule: ring_shape)
    case (empty b)
    define rb' where "rb' = (if length p = length b then ring_wrap [] [] p
      else ring_flat [] p (drop (length p) b))"
    have "ring_Write dirty rb p = Some (rb', int (length p))"
      using p av empty fits by (auto simp: simps rb'_def ring_shape_defs mk_ring_def)
    moreover have "ring_inv rb' \<and> ring_abs rb' = p \<and> rb_size rb' = rb_size rb"
      using p av empty by (auto simp: rb'_def)
    ultimately show ?thesis using empty by simp
  next
    case (flat a c d)
    obtain k where k: "length c = Suc k" using flat by (cases c) auto
    define rb' where "rb' =
      (if length p < length d then ring_flat a (c @ p) (drop (length p) d)
       else ring_wrap (drop (length d) p) (drop (length p - length d) a) (c @ take (length d) p))"
    have "ring_Write dirty rb p = Some (rb', int (length p))"
      using p av flat(1,4) fits k
      by (auto simp: simps rb'_def ring_shape_defs mk_ring_def nat_add_distrib nat_diff_distrib)
    moreover have "ring_inv rb' \<and> ring_abs rb' = c @ p \<and> rb_size rb' = rb_size rb"
      using p av flat by (auto simp: rb'_def)
    ultimately show ?thesis using flat by simp
  next
    case (wrap c2 f c1)
    obtain k where k: "length c1 = Suc k" using wrap by (cases c1) auto
    obtain m where m: "length f = Suc m" using wrap p av by (cases f) auto
    define rb' where "rb' = ring_wrap (c2 @ p) (drop (length p) f) c1"
    have "ring_Write dirty rb p = Some (rb', int (length p))"
      using p av wrap(1,3) fits k m
      by (auto simp: simps rb'_def ring_shape_defs mk_ring_def nat_add_distrib nat_diff_distrib)
    moreover have "ring_inv rb' \<and> ring_abs rb' = c1 @ c2 @ p \<and> rb_size rb' = rb_size rb"
      using p av wrap by (auto simp: rb'_def)
    ultimately show ?thesis using wrap by simp
  qed
qed

text \<open>Writing past the free space first grows, and then writes into the grown buffer.\<close>

lemma ring_Write_grows:
  assumes "ring_grow dirty rb (rb_size rb + int (length p) - ring_Available rb) = Some rb'"
    and "p \<noteq> []" and "ring_Available rb < int (length p)" "int (length p) \<le> ring_Available rb'"
  shows "ring_Write dirty rb p = ring_Write dirty rb' p"
  using assms by (simp add: ring_Write_def Let_def)

lemma ring_Write_abs:
  assumes inv: "ring_inv rb" and bound: "int (length (ring_abs rb @ p)) \<le> 2 ^ 62"
  shows "\<exists>rb'. ring_Write dirty rb p = Some (rb', int (length p)) \<and> ring_inv rb' \<and>
    ring_abs rb' = ring_abs rb @ p"
proof (cases "int (length p) \<le> ring_Available rb")
  case True
  with ring_Write_fits [OF inv] show ?thesis by blast
next
  case False
  let ?cap = "rb_size rb + int (length p) - ring_Available rb"
  have "rb_size rb < ?cap" "?cap \<le> 2 ^ 62"
    using False bound by (auto simp: ring_Available_abs [OF inv])
  from ring_grow_abs [OF inv this]
  obtain rb1 where rb1: "ring_grow dirty rb ?cap = Some rb1" "ring_inv rb1"
    "ring_abs rb1 = ring_abs rb" "?cap \<le> rb_size rb1" by blast
  have fits: "int (length p) \<le> ring_Available rb1"
    using rb1(4) by (simp add: ring_Available_abs [OF rb1(2)] ring_Available_abs [OF inv] rb1(3))
  have "p \<noteq> []" using False ring_abs_le_size [OF inv] by (auto simp: ring_Available_abs [OF inv])
  with ring_Write_fits [OF rb1(2) fits] ring_Write_grows [OF rb1(1) _ _ fits] False rb1(3)
  show ?thesis by fastforce
qed

lemma ring_WriteByte_fits:
  assumes inv: "ring_inv rb" and fits: "0 < ring_Available rb"
  shows "\<exists>rb'. ring_WriteByte dirty rb c = Some rb' \<and> ring_inv rb' \<and> ring_abs rb' = ring_abs rb @ [c]"
proof -
  have "ring_WriteByte dirty rb c = map_option fst (ring_Write dirty rb [c])"
  proof -
    note av = fits [unfolded ring_Available_abs [OF inv]]
    note simps = ring_Write_def ring_WriteByte_def Let_def copy_at_def slice_def idx_def
      ring_shape_defs mk_ring_def nat_add_distrib
    from inv show ?thesis
    proof (cases rule: ring_shape)
      case (empty b)
      then show ?thesis using av fits by (cases b) (auto simp: simps)
    next
      case (flat a cs d)
      then show ?thesis using av fits by (cases d) (auto simp: simps list_update_append)
    next
      case (wrap c2 f c1)
      then show ?thesis using av fits by (cases f) (auto simp: simps list_update_append)
    qed
  qed
  with ring_Write_fits [OF inv, of "[c]" dirty] fits show ?thesis by force
qed

text \<open>
  On a full buffer \<open>WriteByte\<close> asks \<open>grow\<close> for a capacity of 1. Below the growth threshold this
  doubles the buffer and the byte is stored; from the threshold on it changes nothing and the
  store is out of range.
\<close>

lemma ring_WriteByte_full_panics:
  assumes inv: "ring_inv rb" and full: "ring_Available rb = 0"
    and sz: "bufferGrowThreshold \<le> rb_size rb" "rb_size rb < 2 ^ 62"
  shows "ring_WriteByte dirty rb c = None"
proof -
  have w: "wrap64 (rb_size rb + rb_size rb) = rb_size rb + rb_size rb"
    using sz by (intro wrap64_id) (auto simp: bufferGrowThreshold_def)
  have lp: "grow_loop 1 (rb_size rb) = Some (rb_size rb)"
    using sz by (simp add: grow_loop_def bufferGrowThreshold_def while_option_unfold)
  have gc: "grow_cap (rb_size rb) 1 = Some (rb_size rb)"
    using sz w lp by (auto simp: grow_cap_def Let_def bufferGrowThreshold_def)
  have la: "rb_size rb = int (length (ring_abs rb))"
    using full by (simp add: ring_Available_abs [OF inv])
  obtain rb1 e where "ring_Read rb (rb_size rb) = Some (rb1, ring_abs rb, e)"
    using ring_Read_abs [OF inv, of "rb_size rb"] la by auto
  then have "\<exists>rb2. ring_grow dirty rb 1 = Some rb2 \<and> rb_w rb2 = rb_size rb \<and>
      int (length (rb_buf rb2)) = rb_size rb"
    using la sz gc
    by (auto simp: ring_grow_def Let_def ring_Buffered_abs [OF inv] copy_at_def)
  then show ?thesis using full by (auto simp: ring_WriteByte_def idx_def)
qed

section \<open>Creation and reading from a socket\<close>

lemma ring_New_inv:
  assumes "sz \<le> 2 ^ 62"
  shows "\<exists>rb. ring_New sz = Some rb \<and> ring_inv rb \<and> ring_abs rb = [] \<and> sz \<le> rb_size rb"
proof -
  have "\<exists>k. CeilToPowerOfTwo sz = Some k \<and> sz \<le> k \<and> 0 \<le> k"
  proof (cases "sz \<le> 2")
    case True
    then show ?thesis by (simp add: CeilToPowerOfTwo_small)
  next
    case False
    then have "2 < sz" by simp
    then obtain l where "CeilToPowerOfTwo sz = Some (2 ^ Suc l)" "sz \<le> 2 ^ Suc l"
      using assms by (rule CeilToPowerOfTwo_spec)
    then show ?thesis by simp
  qed
  then show ?thesis by (auto simp: ring_New_def ring_inv_def ring_abs_def)
qed

text \<open>
  One read from the socket appends what the kernel delivered, at most what was asked for; a full
  buffer is grown first.
\<close>

lemma ring_CopyFromSocket_abs:
  assumes inv: "ring_inv rb" and sz: "rb_size rb \<le> 2 ^ 61"
    and rd: "\<And>k. 0 \<le> k \<Longrightarrow> int (length (fst (rd k))) \<le> k"
  shows "\<exists>rb' k. 0 \<le> k \<and>
    ring_CopyFromSocket dirty rd rb = Some (rb', int (length (fst (rd k))), snd (rd k)) \<and>
    ring_inv rb' \<and> ring_abs rb' = ring_abs rb @ fst (rd k)"
  using inv
proof (cases rule: ring_shape)
  case (empty b)
  define d where "d = fst (rd (int (length b)))"
  have d: "length d \<le> length b" using rd [of "int (length b)"] by (simp add: d_def)
  define rb' where "rb' = (if d = [] then rb
    else if length d = length b then ring_wrap [] [] d else ring_flat [] d (drop (length d) b))"
  have "go_rem (int (length d)) (int (length b)) =
      Some (if length d = length b then 0 else int (length d))" if "d \<noteq> []"
  proof -
    from that d have "0 < int (length d)" "int (length d) \<le> int (length b)" by auto
    then show ?thesis by (subst go_rem_once, linarith, linarith, linarith, auto)
  qed
  then have "ring_CopyFromSocket dirty rd rb =
      Some (rb', int (length d), snd (rd (int (length b))))"
    using empty d
    by (auto simp: ring_CopyFromSocket_def Let_def split_def d_def [symmetric] copy_at_def rb'_def
        ring_shape_defs mk_ring_def)
  moreover have "ring_inv rb' \<and> ring_abs rb' = d" using empty d by (auto simp: rb'_def)
  ultimately show ?thesis using empty by (intro exI [of _ rb'] exI [of _ "int (length b)"]) (simp add: d_def)
next
  case (flat a c d0)
  let ?k = "int (length d0) + int (length a)"
  obtain d e where de: "rd ?k = (d, e)" by fastforce
  have d: "length d \<le> length d0 + length a" using rd [of ?k] de by simp
  define rb' where "rb' =
    (if length d < length d0 then ring_flat a (c @ d) (drop (length d) d0)
     else ring_wrap (drop (length d0) d) (drop (length d - length d0) a) (c @ take (length d0) d))"
  obtain m where m: "length c = Suc m" using flat by (cases c) auto
  have w: "go_rem (int (length a) + int (length c) + int (length d))
      (int (length a) + (int (length c) + int (length d0))) =
      Some (if length d < length d0 then int (length a) + int (length c) + int (length d)
       else int (length d) - int (length d0))"
    using d m by (subst go_rem_once) auto
  have "ring_CopyFromSocket dirty rd rb = Some (rb', int (length d), e)"
    using flat(1,2,3) d
    by (auto simp: ring_CopyFromSocket_def Let_def de w copy_at_def rb'_def
        ring_shape_defs mk_ring_def nat_add_distrib)
  moreover have "ring_inv rb' \<and> ring_abs rb' = c @ d" using flat d by (auto simp: rb'_def)
  ultimately show ?thesis using flat by (intro exI [of _ rb'] exI [of _ ?k]) (simp add: de)
next
  case (wrap c2 f c1)
  obtain m where m: "length c1 = Suc m" using wrap by (cases c1) auto
  show ?thesis
  proof (cases "f = []")
    case False
    let ?k = "int (length f)"
    obtain d e where de: "rd ?k = (d, e)" by fastforce
    have d: "length d \<le> length f" using rd [of ?k] de by simp
    define rb' where "rb' = ring_wrap (c2 @ d) (drop (length d) f) c1"
    have w: "go_rem (int (length c2) + int (length d))
        (int (length c2) + (int (length f) + int (length c1))) = Some (int (length c2) + int (length d))"
      using d m by (subst go_rem_once) auto
    have "ring_CopyFromSocket dirty rd rb = Some (rb', int (length d), e)"
      using wrap(1,2) d False
      by (auto simp: ring_CopyFromSocket_def Let_def de w copy_at_def rb'_def
          ring_shape_defs mk_ring_def nat_add_distrib)
    moreover have "ring_inv rb' \<and> ring_abs rb' = c1 @ c2 @ d" using wrap d by (auto simp: rb'_def)
    ultimately show ?thesis using wrap by (intro exI [of _ rb'] exI [of _ ?k]) (simp add: de)
  next
    case True
    let ?cap = "rb_size rb + rb_size rb div 2"
    obtain g where g: "ring_grow dirty rb ?cap = Some (ring_flat [] (c1 @ c2) g)" "g \<noteq> []"
    proof -
      have "rb_size rb \<ge> 1" using wrap m by simp
      from grow_cap_half [OF this sz] obtain cp where
        "grow_cap (rb_size rb) ?cap = Some cp" "rb_size rb < cp" by blast
      from ring_grow_to [OF inv this] that wrap show ?thesis by auto
    qed
    let ?k = "int (length g)"
    obtain d e where de: "rd ?k = (d, e)" by fastforce
    have d: "length d \<le> length g" using rd [of ?k] de by simp
    define rb' where "rb' = (if length d = length g then ring_wrap [] [] (c1 @ c2 @ d)
      else ring_flat [] (c1 @ c2 @ d) (drop (length d) g))"
    have w: "go_rem (int (length c1) + int (length c2) + int (length d))
        (int (length c1) + (int (length c2) + int (length g))) =
        Some (if length d = length g then 0 else int (length c1) + int (length c2) + int (length d))"
      using d m by (subst go_rem_once) auto
    have "ring_CopyFromSocket dirty rd rb = Some (rb', int (length d), e)"
      using wrap(1,2) d True g
      by (auto simp: ring_CopyFromSocket_def Let_def de w copy_at_def rb'_def
          ring_shape_defs mk_ring_def nat_add_distrib)
    moreover have "ring_inv rb' \<and> ring_abs rb' = c1 @ c2 @ d" using wrap d by (auto simp: rb'_def)
    ultimately show ?thesis using wrap by (intro exI [of _ rb'] exI [of _ ?k]) (simp add: de)
  qed
qed

section \<open>Writing out\<close>

text \<open>
  What \<open>WriteTo\<close> does with a writer that takes between one byte and all it is offered: some number
  of bytes leaves the buffer at the front, all of them when no error is reported.
\<close>

definition eager_writer :: "('w \<Rightarrow> bytes \<Rightarrow> 'w \<times> int \<times> ring_err option) \<Rightarrow> bool" where
  "eager_writer wr \<longleftrightarrow> (\<forall>w b. b \<noteq> [] \<longrightarrow> (case wr w b of (_, m, _) \<Rightarrow> 1 \<le> m \<and> m \<le> int (length b)))"

definition written_out :: "ring \<Rightarrow> ('w \<times> ring \<times> int \<times> ring_err option) go \<Rightarrow> bool" where
  "written_out rb res \<longleftrightarrow> (\<exists>w' rb' m e. res = Some (w', rb', int m, e) \<and> m \<le> length (ring_abs rb) \<and>
     ring_inv rb' \<and> ring_abs rb' = drop m (ring_abs rb) \<and> (e = None \<longrightarrow> m = length (ring_abs rb)))"

lemma written_outI:
  "res = Some (w', rb', int m, e) \<Longrightarrow> m \<le> length (ring_abs rb) \<Longrightarrow> ring_inv rb' \<Longrightarrow>
   ring_abs rb' = drop m (ring_abs rb) \<Longrightarrow> (e = None \<Longrightarrow> m = length (ring_abs rb)) \<Longrightarrow> written_out rb res"
  by (auto simp: written_out_def)

lemma eager_writerD:
  assumes "eager_writer wr" "b \<noteq> []"
  obtains w' m e where "wr w b = (w', int m, e)" "1 \<le> m" "m \<le> length b"
proof -
  obtain w' k e where k: "wr w b = (w', k, e)" by (cases "wr w b") auto
  have "case wr w b of (_, m, _) \<Rightarrow> 1 \<le> m \<and> m \<le> int (length b)"
    by (rule assms(1) [unfolded eager_writer_def, rule_format, OF assms(2)])
  then have "1 \<le> k" "k \<le> int (length b)" by (simp_all add: k)
  then obtain m where "k = int m" by (metis nonneg_int_cases order_trans zero_le_one)
  with k \<open>1 \<le> k\<close> \<open>k \<le> int (length b)\<close> that show ?thesis by auto
qed

lemma ring_WriteTo_flat:
  assumes wr: "eager_writer wr" and rb: "rb = ring_flat a c d" "c \<noteq> []" "d \<noteq> []"
  shows "written_out rb (ring_WriteTo wr w rb)"
proof -
  obtain w' m e where m: "wr w c = (w', int m, e)" "1 \<le> m" "m \<le> length c"
    by (rule eager_writerD [OF wr rb(2)])
  define rb' where "rb' = (if m = length c then ring_empty (a @ c @ d) else ring_flat (a @ take m c) (drop m c) d)"
  have "ring_WriteTo wr w rb = Some (w', rb', int m,
      if e \<noteq> None then e else if m < length c then Some ErrShortWrite else None)"
    using m rb
    by (auto simp: ring_WriteTo_def ring_shape_defs slice_def rb'_def ring_Reset_def mk_ring_def Let_def)
  moreover have "ring_inv rb'" "ring_abs rb' = drop m c" using m rb by (auto simp: rb'_def)
  ultimately show ?thesis using m(3) rb by (auto simp: written_out_def)
qed

lemma ring_WriteTo_wrap_start:
  assumes wr: "eager_writer wr" and rb: "rb = ring_wrap [] f c1" "c1 \<noteq> []"
  shows "written_out rb (ring_WriteTo wr w rb)"
proof -
  obtain w' m e where m: "wr w c1 = (w', int m, e)" "1 \<le> m" "m \<le> length c1"
    by (rule eager_writerD [OF wr rb(2)])
  define rb' where "rb' = (if m = length c1 then ring_empty (f @ c1) else ring_wrap [] (f @ take m c1) (drop m c1))"
  have g: "go_rem (int (length f) + int m) (int (length f) + int (length c1)) =
      Some (if m = length c1 then 0 else int (length f) + int m)"
    using m by (subst go_rem_once) auto
  have "ring_WriteTo wr w rb = Some (w', rb', int m,
      if e \<noteq> None then e else if m < length c1 then Some ErrShortWrite else None)"
    using m rb g
    by (auto simp: ring_WriteTo_def ring_shape_defs slice_def rb'_def ring_Reset_def mk_ring_def Let_def)
  moreover have "ring_inv rb'" "ring_abs rb' = drop m c1" using m rb by (auto simp: rb'_def)
  ultimately show ?thesis using m(3) rb by (auto simp: written_out_def)
qed

lemma ring_WriteTo_wrap:
  assumes wr: "eager_writer wr" and rb: "rb = ring_wrap c2 f c1" "c1 \<noteq> []" "c2 \<noteq> []"
  shows "written_out rb (ring_WriteTo wr w rb)"
proof -
  obtain w1 m e1 where m: "wr w c1 = (w1, int m, e1)" "1 \<le> m" "m \<le> length c1"
    by (rule eager_writerD [OF wr rb(2)])
  obtain w2 k e2 where k: "wr w1 c2 = (w2, int k, e2)" "1 \<le> k" "k \<le> length c2"
    by (rule eager_writerD [OF wr rb(3)])
  have g: "go_rem (int (length c2) + int (length f) + int m)
      (int (length c2) + (int (length f) + int (length c1))) =
      Some (if m = length c1 then 0 else int (length c2) + int (length f) + int m)"
    using m by (subst go_rem_once) auto
  define rb1 where "rb1 = (if m = length c1 then ring_flat [] c2 (f @ c1)
    else ring_wrap c2 (f @ take m c1) (drop m c1))"
  define rb2 where "rb2 = (if k = length c2 then ring_empty (c2 @ f @ c1)
    else ring_flat (take k c2) (drop k c2) (f @ c1))"
  have out: "ring_WriteTo wr w rb =
      (if e1 \<noteq> None then Some (w1, rb1, int m, e1)
       else if m < length c1 then Some (w1, rb1, int m, Some ErrShortWrite)
       else Some (w2, rb2, int (m + k),
         if e2 \<noteq> None then e2 else if k < length c2 then Some ErrShortWrite else None))"
    using m k rb g
    by (auto simp: ring_WriteTo_def ring_shape_defs slice_def rb1_def rb2_def ring_Reset_def mk_ring_def
        Let_def nat_add_distrib)
  have rbs: "ring_inv rb1" "ring_abs rb1 = drop m (c1 @ c2)" "ring_inv rb2" "ring_abs rb2 = drop k c2"
    using m k rb by (auto simp: rb1_def rb2_def)
  show ?thesis
  proof (cases "e1 = None \<and> m = length c1")
    case True
    then have "ring_WriteTo wr w rb = Some (w2, rb2, int (m + k),
        if e2 \<noteq> None then e2 else if k < length c2 then Some ErrShortWrite else None)"
      using out by simp
    then show ?thesis
      by (rule written_outI) (use True rbs k(3) rb in \<open>auto split: if_splits\<close>)
  next
    case False
    then have "ring_WriteTo wr w rb = Some (w1, rb1, int m, if e1 \<noteq> None then e1 else Some ErrShortWrite)"
      using out m(3) by auto
    then show ?thesis
      by (rule written_outI) (use rbs m(3) rb in \<open>auto split: if_splits\<close>)
  qed
qed

lemma ring_WriteTo_abs:
  assumes "ring_inv rb" "eager_writer wr" "ring_abs rb \<noteq> []"
  shows "written_out rb (ring_WriteTo wr w rb)"
  using assms(1)
proof (cases rule: ring_shape)
  case (flat a c d)
  then show ?thesis by (intro ring_WriteTo_flat [OF assms(2)])
next
  case (wrap c2 f c1)
  with assms show ?thesis
    by (cases "c2 = []") (auto intro: ring_WriteTo_wrap_start ring_WriteTo_wrap)
qed (use assms in simp)

text \<open>
  A writer that takes nothing, as a full socket does, loses the data of a full buffer whose positions
  are at the start: they stay equal, which is taken for an empty buffer.
\<close>

lemma ring_WriteTo_loses:
  assumes "c \<noteq> []"
  shows "ring_WriteTo (\<lambda>w b. (w, 0, Some IOError)) w (ring_wrap [] [] c) =
    Some (w, ring_empty c, 0, Some IOError)"
  using assms
  by (simp add: ring_WriteTo_def ring_shape_defs slice_def ring_Reset_def mk_ring_def Let_def go_rem_nonneg)

text \<open>
  \<open>ReadFrom\<close> goes on to read into the start of the array even when the first read left room at
  the end. The bytes \<open>d2\<close> of the second read are then not where the positions say: the buffer holds
  old contents \<open>d\<close> of the array in their place.
\<close>

lemma ring_ReadFrom_misplaces:
  assumes "c \<noteq> []" "MinRead \<le> int (length a + length d)" "length d2 \<le> length a"
    and "length d1 + length d2 < length d"
  shows "\<exists>rb'. ring_ReadFrom (\<lambda>rs k. (tl rs, hd rs)) dirty [(d1, None), (d2, Some EOF)] (ring_flat a c d) n =
      Some ([], rb', n + int (length d1) + int (length d2), None) \<and>
    ring_abs rb' = c @ d1 @ take (length d2) (drop (length d1) d)"
proof -
  let ?rb = "ring_flat a c d"
  define rb' where "rb' = ring_flat (d2 @ drop (length d2) a)
    (c @ d1 @ take (length d2) (drop (length d1) d)) (drop (length d2) (drop (length d1) d))"
  have av: "ring_Available ?rb = int (length a + length d)"
    using assms(1,4) ring_Available_abs [of ?rb] by (simp add: length_greater_0_conv [symmetric] del: length_greater_0_conv)
  have w1: "go_rem (int (length a) + int (length c) + int (length d1))
      (int (length a) + (int (length c) + int (length d))) =
      Some (int (length a) + int (length c) + int (length d1))"
    using assms by (subst go_rem_once) auto
  have w2: "go_rem (int (length a) + int (length c) + int (length d1) + int (length d2))
      (int (length a) + (int (length c) + int (length d))) =
      Some (int (length a) + int (length c) + int (length d1) + int (length d2))"
    using assms by (subst go_rem_once) auto
  have "ring_ReadFrom (\<lambda>rs k. (tl rs, hd rs)) dirty [(d1, None), (d2, Some EOF)] ?rb n =
      Some ([], rb', n + int (length d1) + int (length d2), None)"
    using assms av w1 w2
    by (subst ring_ReadFrom.simps)
      (simp add: ring_shape_defs copy_at_def Let_def mk_ring_def rb'_def nat_add_distrib flip: drop_drop)
  moreover have "ring_abs rb' = c @ d1 @ take (length d2) (drop (length d1) d)"
    using assms(1) by (simp add: rb'_def)
  ultimately show ?thesis by blast
qed

section \<open>The ring buffer as a byte queue\<close>

definition ring_get :: "ring \<Rightarrow> int \<Rightarrow> (ring \<times> bytes) go" where
  "ring_get rb n = map_option (\<lambda>(rb, d, _). (rb, d)) (ring_Read rb n)"

interpretation ring: byte_queue ring_inv ring_abs "ring_Write dirty" ring_get ring_Discard ring_Buffered for dirty
proof
  show "\<exists>rb'. ring_get rb (int n) = Some (rb', take n (ring_abs rb)) \<and> ring_inv rb' \<and> ring_abs rb' = drop n (ring_abs rb)"
    if "ring_inv rb" for rb n
    using ring_Read_abs [OF that, of "int n"] by (auto simp: ring_get_def)
  show "\<exists>rb'. ring_Discard rb (int n) = Some (rb', int (min n (length (ring_abs rb)))) \<and> ring_inv rb' \<and>
      ring_abs rb' = drop n (ring_abs rb)" if "ring_inv rb" for rb n
    using ring_Discard_abs [OF that, of "int n"] by (auto simp: of_nat_min)
qed (rule ring_Write_abs, assumption+, rule ring_Buffered_abs)

section \<open>Stated properties\<close>

text \<open>
  C9: a new ring buffer and a plain list of bytes give the same answers to every sequence of writes,
  reads, discards and length queries that writes at most \<open>2\<^sup>6\<^sup>2\<close> bytes; growing and wrapping around
  are never visible, and nothing panics.
\<close>

theorem ring_buffer_refines_list:
  assumes "sz \<le> 2 ^ 62" "int (written ops) \<le> 2 ^ 62"
  shows "\<exists>rb. ring_New sz = Some rb \<and>
    buf_run (ring_Write dirty) ring_get ring_Discard ring_Buffered rb ops = Some (list_run [] ops)"
proof -
  obtain rb where "ring_New sz = Some rb" "ring_inv rb" "ring_abs rb = []"
    using ring_New_inv [OF assms(1)] by blast
  with ring.run_refines [of rb ops dirty] assms(2) show ?thesis by simp
qed

theorem ring_buffer_refines_list_witness:
  "\<exists>rb. ring_New 2 = Some rb \<and>
    buf_run (ring_Write ''junk'') ring_get ring_Discard ring_Buffered rb
      [OpWrite ''ab'', OpRead 1, OpWrite ''cdef'', OpDiscard 2, OpBuffered, OpRead 9] =
    Some [OutCount 2, OutBytes ''a'', OutCount 4, OutCount 2, OutCount 3, OutBytes ''def'']"
  using ring_buffer_refines_list [of 2 "[OpWrite ''ab'', OpRead 1, OpWrite ''cdef'', OpDiscard 2, OpBuffered, OpRead 9]" "''junk''"]
  by simp



end
