(* ===== verification/Linked_List_Buffer.thy ===== *)
theory Linked_List_Buffer
  imports Ring_Buffer
begin

text \<open>
  The list buffer of \<^verbatim>\<open>src/core/pkg/buffer/linkedlist/linked_list_buffer.go\<close>: a singly linked list
  of byte slices with a head and a tail pointer, the number of nodes and the number of bytes.

  Nodes live in a heap of the buffer, addressed by numbers; \<open>ll_new\<close> is the next free address, which
  \<open>&node{...}\<close> takes. Loops over the list are partial functions, since a cyclic list would keep them
  running; the lemmas show that they return. \<open>llb_rep s ns\<close> says that \<open>s\<close> holds the nodes \<open>ns\<close>,
  pairs of an address and a non-empty slice. Every operation is described on this representation.
\<close>

section \<open>State\<close>

record node =
  n_buf :: bytes
  n_next :: "nat option"

record llb =
  ll_heap :: "nat \<Rightarrow> node"
  ll_new :: nat
  ll_bs :: "bytes list"
  ll_head :: "nat option"
  ll_tail :: "nat option"
  ll_size :: int
  ll_bytes :: int

definition node_len :: "node \<Rightarrow> int" where
  "node_len b = int (length (n_buf b))"

definition llb_empty :: llb where
  "llb_empty = \<lparr>ll_heap = (\<lambda>_. \<lparr>n_buf = [], n_next = None\<rparr>), ll_new = 0, ll_bs = [],
     ll_head = None, ll_tail = None, ll_size = 0, ll_bytes = 0\<rparr>"

definition set_node :: "llb \<Rightarrow> nat \<Rightarrow> node \<Rightarrow> llb" where
  "set_node s a b = s\<lparr>ll_heap := (ll_heap s)(a := b)\<rparr>"

definition new_node :: "llb \<Rightarrow> bytes \<Rightarrow> llb \<times> nat" where
  "new_node s b = (set_node s (ll_new s) \<lparr>n_buf = b, n_next = None\<rparr> \<lparr>ll_new := Suc (ll_new s)\<rparr>, ll_new s)"

section \<open>The list\<close>

definition llb_pop :: "llb \<Rightarrow> llb \<times> nat option" where
  "llb_pop s =
     (case ll_head s of
        None \<Rightarrow> (s, None)
      | Some b \<Rightarrow>
        (let s = s\<lparr>ll_head := n_next (ll_heap s b)\<rparr>;
             s = (if ll_head s = None then s\<lparr>ll_tail := None\<rparr> else s);
             s = set_node s b (ll_heap s b\<lparr>n_next := None\<rparr>);
             s = s\<lparr>ll_size := ll_size s - 1\<rparr>
         in (s\<lparr>ll_bytes := ll_bytes s - node_len (ll_heap s b)\<rparr>, Some b)))"

definition llb_pushFront :: "llb \<Rightarrow> nat option \<Rightarrow> llb" where
  "llb_pushFront s p =
     (case p of
        None \<Rightarrow> s
      | Some b \<Rightarrow>
        (let s = (if ll_head s = None
                  then set_node s b (ll_heap s b\<lparr>n_next := None\<rparr>) \<lparr>ll_tail := Some b\<rparr>
                  else set_node s b (ll_heap s b\<lparr>n_next := ll_head s\<rparr>));
             s = s\<lparr>ll_head := Some b, ll_size := ll_size s + 1\<rparr>
         in s\<lparr>ll_bytes := ll_bytes s + node_len (ll_heap s b)\<rparr>))"

definition llb_pushBack :: "llb \<Rightarrow> nat option \<Rightarrow> llb" where
  "llb_pushBack s p =
     (case p of
        None \<Rightarrow> s
      | Some b \<Rightarrow>
        (let s = (case ll_tail s of
                    None \<Rightarrow> s\<lparr>ll_head := Some b\<rparr>
                  | Some t \<Rightarrow> set_node s t (ll_heap s t\<lparr>n_next := Some b\<rparr>));
             s = set_node s b (ll_heap s b\<lparr>n_next := None\<rparr>);
             s = s\<lparr>ll_tail := Some b, ll_size := ll_size s + 1\<rparr>
         in s\<lparr>ll_bytes := ll_bytes s + node_len (ll_heap s b)\<rparr>))"

section \<open>Operations\<close>

text \<open>
  \<open>Read(p)\<close> takes the length of \<open>p\<close> and returns the bytes that fill its front; \<open>acc\<close> is \<open>p[:n]\<close>.
\<close>

partial_function (option) llb_Read_loop :: "int \<Rightarrow> llb \<Rightarrow> bytes \<Rightarrow> (llb \<times> bytes) option" where
  "llb_Read_loop plen s acc =
     (case llb_pop s of
        (s, None) \<Rightarrow> Some (s, acc)
      | (s, Some b) \<Rightarrow>
        (let buf = n_buf (ll_heap s b);
             m = min (plen - int (length acc)) (int (length buf));
             acc = acc @ take (nat m) buf;
             s = (if m < int (length buf)
                  then llb_pushFront (set_node s b (ll_heap s b\<lparr>n_buf := drop (nat m) buf\<rparr>)) (Some b)
                  else s)
         in if int (length acc) = plen then Some (s, acc) else llb_Read_loop plen s acc))"

definition llb_Read :: "llb \<Rightarrow> int \<Rightarrow> (llb \<times> bytes) go" where
  "llb_Read s plen = (if plen = 0 then Some (s, []) else llb_Read_loop plen s [])"

definition llb_PushFront :: "bytes \<Rightarrow> llb \<Rightarrow> bytes \<Rightarrow> llb go" where
  "llb_PushFront dirty s p =
     (let n = int (length p) in
      if n = 0 then Some s
      else do {
        b \<leftarrow> copy_at (alloc dirty n) 0 p;
        let (s, a) = new_node s b;
        Some (llb_pushFront s (Some a))
      })"

definition llb_PushBack :: "bytes \<Rightarrow> llb \<Rightarrow> bytes \<Rightarrow> llb go" where
  "llb_PushBack dirty s p =
     (let n = int (length p) in
      if n = 0 then Some s
      else do {
        b \<leftarrow> copy_at (alloc dirty n) 0 p;
        let (s, a) = new_node s b;
        Some (llb_pushBack s (Some a))
      })"

text \<open>The slices from a pointer on, until \<open>maxBytes\<close> are collected.\<close>

partial_function (option) peek_from ::
  "(nat \<Rightarrow> node) \<Rightarrow> int \<Rightarrow> int \<Rightarrow> nat option \<Rightarrow> bytes list \<Rightarrow> bytes list option" where
  "peek_from h maxBytes cum iter bs =
     (case iter of
        None \<Rightarrow> Some bs
      | Some a \<Rightarrow>
        (let bs = bs @ [n_buf (h a)]; cum = cum + node_len (h a)
         in if cum \<ge> maxBytes then Some bs else peek_from h maxBytes cum (n_next (h a)) bs))"

definition MaxInt32 :: int where "MaxInt32 = 2 ^ 31 - 1"

definition llb_Peek :: "llb \<Rightarrow> int \<Rightarrow> (llb \<times> bytes list) go" where
  "llb_Peek s maxBytes = do {
     let maxBytes = (if maxBytes \<le> 0 then MaxInt32 else maxBytes);
     bs \<leftarrow> peek_from (ll_heap s) maxBytes 0 (ll_head s) [];
     Some (s\<lparr>ll_bs := bs\<rparr>, bs)
   }"

fun peek_with :: "int \<Rightarrow> int \<Rightarrow> bytes list \<Rightarrow> bytes list \<Rightarrow> bytes list + (int \<times> bytes list)" where
  "peek_with maxBytes cum acc [] = Inr (cum, acc)"
| "peek_with maxBytes cum acc (b # bs) =
     (if int (length b) > 0 then
        (let acc = acc @ [b]; cum = cum + int (length b)
         in if cum \<ge> maxBytes then Inl acc else peek_with maxBytes cum acc bs)
      else peek_with maxBytes cum acc bs)"

definition llb_PeekWithBytes :: "llb \<Rightarrow> int \<Rightarrow> bytes list \<Rightarrow> (llb \<times> bytes list) go" where
  "llb_PeekWithBytes s maxBytes bs = do {
     let maxBytes = (if maxBytes \<le> 0 then MaxInt32 else maxBytes);
     bs \<leftarrow> (case peek_with maxBytes 0 [] bs of
              Inl acc \<Rightarrow> Some acc
            | Inr (cum, acc) \<Rightarrow> peek_from (ll_heap s) maxBytes cum (ll_head s) acc);
     Some (s\<lparr>ll_bs := bs\<rparr>, bs)
   }"

partial_function (option) llb_Discard_loop :: "llb \<Rightarrow> int \<Rightarrow> int \<Rightarrow> (llb \<times> int) option" where
  "llb_Discard_loop s n discarded =
     (if n = 0 then Some (s, discarded)
      else
        (case llb_pop s of
           (s, None) \<Rightarrow> Some (s, discarded)
         | (s, Some b) \<Rightarrow>
           (let len = node_len (ll_heap s b) in
            if n < len then
              Some (llb_pushFront (set_node s b (ll_heap s b\<lparr>n_buf := drop (nat n) (n_buf (ll_heap s b))\<rparr>)) (Some b),
                discarded + n)
            else llb_Discard_loop s (n - len) (discarded + len))))"

definition llb_Discard :: "llb \<Rightarrow> int \<Rightarrow> (llb \<times> int) go" where
  "llb_Discard s n = (if n \<le> 0 then Some (s, 0) else llb_Discard_loop s n 0)"

definition minRead :: int where "minRead = 512"

text \<open>
  \<open>ReadFrom(r)\<close> and \<open>WriteTo(w)\<close>, with the reader and the writer as in the ring buffer. The reader
  returns the bytes it placed in the slice, and a count beyond the slice is a panic. The write loop
  does not put the node back when the writer reports an error.
\<close>

partial_function (option) llb_ReadFrom ::
  "('r \<Rightarrow> int \<Rightarrow> 'r \<times> bytes \<times> ring_err option) \<Rightarrow> 'r \<Rightarrow> llb \<Rightarrow> int \<Rightarrow> ('r \<times> llb \<times> int \<times> ring_err option) option" where
  "llb_ReadFrom rd st s n = do {
     let (st, d, e) = rd st minRead;
     (if int (length d) > minRead then None
      else do {
        let n = n + int (length d);
        (if e = Some EOF then Some (st, s, n, None)
         else if e \<noteq> None then Some (st, s, n, e)
         else (let (s, a) = new_node s d in llb_ReadFrom rd st (llb_pushBack s (Some a)) n))
      })
   }"

partial_function (option) llb_WriteTo ::
  "('w \<Rightarrow> bytes \<Rightarrow> 'w \<times> int \<times> ring_err option) \<Rightarrow> 'w \<Rightarrow> llb \<Rightarrow> int \<Rightarrow> ('w \<times> llb \<times> int \<times> ring_err option) option" where
  "llb_WriteTo wr w s n =
     (case llb_pop s of
        (s, None) \<Rightarrow> Some (w, s, n, None)
      | (s, Some b) \<Rightarrow> do {
          let buf = n_buf (ll_heap s b);
          let (w, m, e) = wr w buf;
          (if m > int (length buf) then None
           else do {
             let n = n + m;
             (if e \<noteq> None then Some (w, s, n, e)
              else if m < int (length buf) then do {
                rest \<leftarrow> slice buf m (int (length buf));
                Some (w, llb_pushFront (set_node s b (ll_heap s b\<lparr>n_buf := rest\<rparr>)) (Some b), n, Some ErrShortWrite)
              }
              else llb_WriteTo wr w s n)
           })
        })"

definition llb_Len :: "llb \<Rightarrow> int" where "llb_Len s = ll_size s"
definition llb_Buffered :: "llb \<Rightarrow> int" where "llb_Buffered s = ll_bytes s"
definition llb_IsEmpty :: "llb \<Rightarrow> bool" where "llb_IsEmpty s \<longleftrightarrow> ll_head s = None"

partial_function (option) llb_pop_all :: "llb \<Rightarrow> llb option" where
  "llb_pop_all s = (case llb_pop s of (s, None) \<Rightarrow> Some s | (s, Some b) \<Rightarrow> llb_pop_all s)"

definition llb_Reset :: "llb \<Rightarrow> llb go" where
  "llb_Reset s = do {
     s \<leftarrow> llb_pop_all s;
     Some (s\<lparr>ll_head := None, ll_tail := None, ll_size := 0, ll_bytes := 0, ll_bs := []\<rparr>)
   }"

section \<open>Representation\<close>

fun chain :: "(nat \<Rightarrow> node) \<Rightarrow> nat option \<Rightarrow> (nat \<times> bytes) list \<Rightarrow> bool" where
  "chain h p [] \<longleftrightarrow> p = None"
| "chain h p ((a, b) # ns) \<longleftrightarrow> p = Some a \<and> n_buf (h a) = b \<and> chain h (n_next (h a)) ns"

definition llb_rep :: "llb \<Rightarrow> (nat \<times> bytes) list \<Rightarrow> bool" where
  "llb_rep s ns \<longleftrightarrow> chain (ll_heap s) (ll_head s) ns \<and> distinct (map fst ns) \<and> (\<forall>a \<in> set (map fst ns). a < ll_new s) \<and>
     [] \<notin> set (map snd ns) \<and>
     ll_tail s = (if ns = [] then None else Some (fst (last ns))) \<and>
     ll_size s = int (length ns) \<and> ll_bytes s = int (length (concat (map snd ns)))"

text \<open>The nodes read off the heap, and from them the bytes the buffer holds.\<close>

fun nodes_from :: "(nat \<Rightarrow> node) \<Rightarrow> nat option \<Rightarrow> nat \<Rightarrow> bytes list" where
  "nodes_from h (Some a) (Suc k) = n_buf (h a) # nodes_from h (n_next (h a)) k"
| "nodes_from h _ _ = []"

definition llb_abs :: "llb \<Rightarrow> bytes" where
  "llb_abs s = concat (nodes_from (ll_heap s) (ll_head s) (nat (ll_size s)))"

definition llb_inv :: "llb \<Rightarrow> bool" where
  "llb_inv s \<longleftrightarrow> (\<exists>ns. llb_rep s ns)"

lemma nodes_from_chain: "chain h p ns \<Longrightarrow> nodes_from h p (length ns) = map snd ns"
  by (induction h p ns rule: chain.induct) auto

lemma llb_repD:
  assumes "llb_rep s ns"
  shows "llb_inv s" "llb_abs s = concat (map snd ns)"
  using assms nodes_from_chain [of "ll_heap s" "ll_head s" ns]
  by (auto simp: llb_inv_def llb_rep_def llb_abs_def)

lemma llb_invE:
  assumes "llb_inv s"
  obtains ns where "llb_rep s ns" "llb_abs s = concat (map snd ns)"
  using assms llb_repD(2) by (auto simp: llb_inv_def)

lemma chain_upd [simp]: "a \<notin> set (map fst ns) \<Longrightarrow> chain (h(a := b)) p ns = chain h p ns"
  by (induction h p ns rule: chain.induct) auto

lemma chain_snoc:
  "chain h p ns \<Longrightarrow> distinct (map fst (ns @ [(a, b)])) \<Longrightarrow> ns \<noteq> [] \<Longrightarrow>
   chain (h(fst (last ns) := h (fst (last ns))\<lparr>n_next := Some a\<rparr>, a := \<lparr>n_buf = b, n_next = None\<rparr>)) p (ns @ [(a, b)])"
proof (induction h p ns rule: chain.induct)
  case (2 h p c d ns)
  then show ?case
    by (cases ns) (auto simp: image_iff dest: last_in_set)
qed simp

lemma llb_empty_rep: "llb_rep llb_empty []"
  by (simp add: llb_rep_def llb_empty_def)

lemma llb_pop_rep:
  assumes "llb_rep s ((a, b) # ns)"
  obtains s' where "llb_pop s = (s', Some a)" "llb_rep s' ns" "n_buf (ll_heap s' a) = b" "a < ll_new s'"
    "a \<notin> set (map fst ns)" "b \<noteq> []"
proof -
  let ?s = "fst (llb_pop s)"
  have "llb_pop s = (?s, Some a)" "n_buf (ll_heap ?s a) = b" "a < ll_new ?s" "a \<notin> set (map fst ns)" "b \<noteq> []"
    using assms by (auto simp: llb_rep_def llb_pop_def set_node_def Let_def)
  moreover have "llb_rep ?s ns"
    using assms by (cases ns) (auto simp: llb_rep_def llb_pop_def set_node_def Let_def node_len_def)
  ultimately show ?thesis using that by blast
qed

lemma llb_pop_none [simp]: "llb_rep s [] \<Longrightarrow> llb_pop s = (s, None)"
  by (simp add: llb_rep_def llb_pop_def)

lemma llb_pushFront_rep:
  assumes "llb_rep s ns" "a \<notin> set (map fst ns)" "a < ll_new s" "n_buf (ll_heap s a) \<noteq> []"
  shows "llb_rep (llb_pushFront s (Some a)) ((a, n_buf (ll_heap s a)) # ns)"
  using assms
  by (cases ns) (auto simp: llb_rep_def llb_pushFront_def set_node_def Let_def node_len_def)

lemma llb_put_back:
  assumes "llb_rep s ns" "a \<notin> set (map fst ns)" "a < ll_new s" "b \<noteq> []"
  shows "llb_rep (llb_pushFront (set_node s a (ll_heap s a\<lparr>n_buf := b\<rparr>)) (Some a)) ((a, b) # ns)"
proof -
  let ?s = "set_node s a (ll_heap s a\<lparr>n_buf := b\<rparr>)"
  have "llb_rep ?s ns" "a < ll_new ?s" using assms by (auto simp: llb_rep_def set_node_def)
  from llb_pushFront_rep [OF this(1) assms(2) this(2)] assms(4) show ?thesis by (simp add: set_node_def)
qed

lemma llb_pushBack_rep:
  assumes "llb_rep s ns" "new_node s b = (s', a)" "b \<noteq> []"
  shows "llb_rep (llb_pushBack s' (Some a)) (ns @ [(a, b)])"
proof (cases "ns = []")
  case False
  have a: "a = ll_new s" using assms(2) by (simp add: new_node_def)
  have new: "a \<notin> set (map fst ns)" "fst (last ns) \<noteq> a"
    using assms(1) last_in_set [OF False] by (auto simp: a llb_rep_def)
  have "chain (ll_heap (llb_pushBack s' (Some a))) (ll_head s) (ns @ [(a, b)])"
    using chain_snoc [of "ll_heap s" "ll_head s" ns a b] assms new False
    by (auto simp: llb_rep_def llb_pushBack_def new_node_def set_node_def Let_def fun_upd_twist)
  with assms new False show ?thesis
    by (auto simp: llb_rep_def llb_pushBack_def new_node_def set_node_def Let_def node_len_def)
qed (use assms in \<open>auto simp: llb_rep_def llb_pushBack_def new_node_def set_node_def Let_def node_len_def\<close>)

section \<open>Behaviour of the operations\<close>

lemma copy_alloc [simp]: "copy_at (alloc dirty (int (length p))) 0 p = Some p"
  by (simp add: copy_at_def)

lemma llb_PushBack_abs:
  assumes "llb_inv s"
  shows "\<exists>s'. llb_PushBack dirty s p = Some s' \<and> llb_inv s' \<and> llb_abs s' = llb_abs s @ p"
proof -
  obtain ns where ns: "llb_rep s ns" "llb_abs s = concat (map snd ns)" by (rule llb_invE [OF assms])
  show ?thesis
  proof (cases "p = []")
    case False
    obtain s' a where new: "new_node s p = (s', a)" by fastforce
    let ?s = "llb_pushBack s' (Some a)"
    have rep: "llb_rep ?s (ns @ [(a, p)])" by (rule llb_pushBack_rep [OF ns(1) new False])
    with False new ns llb_repD [OF rep] show ?thesis
      by (auto simp: llb_PushBack_def Let_def)
  qed (use assms in \<open>simp add: llb_PushBack_def\<close>)
qed

lemma llb_PushFront_abs:
  assumes "llb_inv s"
  shows "\<exists>s'. llb_PushFront dirty s p = Some s' \<and> llb_inv s' \<and> llb_abs s' = p @ llb_abs s"
proof -
  obtain ns where ns: "llb_rep s ns" "llb_abs s = concat (map snd ns)" by (rule llb_invE [OF assms])
  show ?thesis
  proof (cases "p = []")
    case False
    obtain s' a where new: "new_node s p = (s', a)" by fastforce
    have a: "a \<notin> set (map fst ns)" using ns(1) new by (auto simp: llb_rep_def new_node_def)
    then have rep: "llb_rep s' ns" using ns(1) new by (auto simp: llb_rep_def new_node_def set_node_def)
    have new': "a < ll_new s'" "n_buf (ll_heap s' a) = p" using new by (auto simp: new_node_def set_node_def)
    from llb_pushFront_rep [OF rep a new'(1)] new'(2) False
    have "llb_rep (llb_pushFront s' (Some a)) ((a, p) # ns)" by simp
    with False new ns llb_repD [OF this] show ?thesis
      by (auto simp: llb_PushFront_def Let_def)
  qed (use assms in \<open>simp add: llb_PushFront_def\<close>)
qed

lemma llb_Read_loop_rep:
  "llb_rep s ns \<Longrightarrow> length acc < n \<Longrightarrow>
   \<exists>s'. llb_Read_loop (int n) s acc = Some (s', acc @ take (n - length acc) (concat (map snd ns))) \<and>
     llb_inv s' \<and> llb_abs s' = drop (n - length acc) (concat (map snd ns))"
proof (induction ns arbitrary: s acc)
  case Nil
  then show ?case
    using llb_repD [of s "[]"] by (subst llb_Read_loop.simps) simp
next
  case (Cons x ns)
  obtain a b where x: "x = (a, b)" by (cases x)
  obtain s' where s': "llb_pop s = (s', Some a)" "llb_rep s' ns" "n_buf (ll_heap s' a) = b" "a < ll_new s'"
    "a \<notin> set (map fst ns)" "b \<noteq> []" by (rule llb_pop_rep [OF Cons.prems(1) [unfolded x]])
  obtain k where n: "n = length acc + k" "0 < k" using Cons.prems(2) less_imp_add_positive by blast
  consider "length b < k" | "k < length b" | "length b = k" by linarith
  then show ?case
  proof cases
    case 1
    then have "length (acc @ b) < n" by (simp add: n)
    from Cons.IH [OF s'(2) this] 1 n(2) show ?thesis
      by (subst llb_Read_loop.simps) (auto simp: x s' n(1) Let_def)
  next
    case 2
    let ?s = "llb_pushFront (set_node s' a (ll_heap s' a\<lparr>n_buf := drop k b\<rparr>)) (Some a)"
    have "llb_rep ?s ((a, drop k b) # ns)" using 2 by (intro llb_put_back [OF s'(2,5,4)]) simp
    from llb_repD [OF this] 2 n(2) show ?thesis
      by (subst llb_Read_loop.simps) (auto simp: x s' n(1) Let_def min_def)
  next
    case 3
    with llb_repD [OF s'(2)] n(2) show ?thesis
      by (subst llb_Read_loop.simps) (auto simp: x s' n(1) Let_def min_def)
  qed
qed

lemma llb_Read_abs:
  assumes "llb_inv s"
  shows "\<exists>s'. llb_Read s (int n) = Some (s', take n (llb_abs s)) \<and> llb_inv s' \<and> llb_abs s' = drop n (llb_abs s)"
proof -
  obtain ns where ns: "llb_rep s ns" "llb_abs s = concat (map snd ns)" by (rule llb_invE [OF assms])
  then show ?thesis
    using llb_Read_loop_rep [OF ns(1), of "[]" n] assms by (cases "n = 0") (auto simp: llb_Read_def)
qed

lemma llb_Discard_loop_rep:
  "llb_rep s ns \<Longrightarrow>
   \<exists>s'. llb_Discard_loop s (int n) d = Some (s', d + int (min n (length (concat (map snd ns))))) \<and>
     llb_inv s' \<and> llb_abs s' = drop n (concat (map snd ns))"
proof (induction ns arbitrary: s n d)
  case Nil
  then show ?case
    using llb_repD [of s "[]"] by (subst llb_Discard_loop.simps) simp
next
  case (Cons x ns)
  obtain a b where x: "x = (a, b)" by (cases x)
  obtain s' where s': "llb_pop s = (s', Some a)" "llb_rep s' ns" "n_buf (ll_heap s' a) = b" "a < ll_new s'"
    "a \<notin> set (map fst ns)" "b \<noteq> []" by (rule llb_pop_rep [OF Cons.prems(1) [unfolded x]])
  consider "n = 0" | "0 < n" "n < length b" | "0 < n" "length b \<le> n" by linarith
  then show ?case
  proof cases
    case 1
    with llb_repD [OF Cons.prems] show ?thesis by (subst llb_Discard_loop.simps) simp
  next
    case 2
    let ?s = "llb_pushFront (set_node s' a (ll_heap s' a\<lparr>n_buf := drop n b\<rparr>)) (Some a)"
    have "llb_rep ?s ((a, drop n b) # ns)" using 2 by (intro llb_put_back [OF s'(2,5,4)]) simp
    from llb_repD [OF this] 2 show ?thesis
      by (subst llb_Discard_loop.simps) (auto simp: x s' Let_def node_len_def)
  next
    case 3
    then obtain k where k: "n = length b + k" using le_Suc_ex by blast
    with 3 Cons.IH [OF s'(2), of k "d + int (length b)"] show ?thesis
      by (subst llb_Discard_loop.simps) (auto simp: x s' Let_def node_len_def add_nonneg_eq_0_iff)
  qed
qed

lemma llb_Discard_abs:
  assumes "llb_inv s"
  shows "\<exists>s'. llb_Discard s (int n) = Some (s', int (min n (length (llb_abs s)))) \<and> llb_inv s' \<and>
    llb_abs s' = drop n (llb_abs s)"
proof -
  obtain ns where ns: "llb_rep s ns" "llb_abs s = concat (map snd ns)" by (rule llb_invE [OF assms])
  then show ?thesis
    using llb_Discard_loop_rep [OF ns(1), of n 0] assms by (cases "n = 0") (auto simp: llb_Discard_def)
qed

lemma llb_Buffered_abs: "llb_inv s \<Longrightarrow> llb_Buffered s = int (length (llb_abs s))"
  by (auto elim!: llb_invE simp: llb_Buffered_def llb_rep_def)

lemma llb_IsEmpty_abs: "llb_inv s \<Longrightarrow> llb_IsEmpty s \<longleftrightarrow> llb_abs s = []"
proof (elim llb_invE)
  fix ns
  assume "llb_rep s ns" "llb_abs s = concat (map snd ns)"
  then show ?thesis by (cases ns) (auto simp: llb_IsEmpty_def llb_rep_def)
qed

lemma llb_Reset_abs:
  assumes "llb_inv s"
  shows "\<exists>s'. llb_Reset s = Some s' \<and> llb_inv s' \<and> llb_abs s' = [] \<and> llb_IsEmpty s'"
proof -
  have "\<exists>s'. llb_pop_all s = Some s'" if "llb_rep s ns" for ns
    using that
  proof (induction ns arbitrary: s)
    case (Cons x ns)
    then obtain s' a where "llb_pop s = (s', Some a)" "llb_rep s' ns"
      by (metis llb_pop_rep surj_pair)
    with Cons.IH [of s'] show ?case by (subst llb_pop_all.simps) simp
  qed (subst llb_pop_all.simps, simp)
  then obtain s' where "llb_pop_all s = Some s'" using assms by (auto simp: llb_inv_def)
  moreover have "llb_rep (s'\<lparr>ll_head := None, ll_tail := None, ll_size := 0, ll_bytes := 0, ll_bs := []\<rparr>) []"
    by (simp add: llb_rep_def)
  ultimately show ?thesis using llb_repD by (fastforce simp: llb_Reset_def llb_IsEmpty_def)
qed

text \<open>
  \<open>Peek\<close> returns the slices of the front nodes: at least the bytes asked for when they are there,
  rounded up to whole slices.
\<close>

lemma peek_from_chain:
  "chain h p ns \<Longrightarrow> cum < maxBytes \<Longrightarrow>
   \<exists>k. peek_from h maxBytes cum p bs = Some (bs @ take k (map snd ns)) \<and>
     (k < length ns \<longrightarrow> maxBytes \<le> cum + int (length (concat (take k (map snd ns)))))"
proof (induction h p ns arbitrary: cum bs rule: chain.induct)
  case (1 h p)
  then show ?case by (subst peek_from.simps) simp
next
  case (2 h p a b ns)
  show ?case
  proof (cases "maxBytes \<le> cum + int (length b)")
    case True
    with 2 show ?thesis
      by (subst peek_from.simps) (auto simp: Let_def node_len_def intro!: exI [of _ 1])
  next
    case False
    with "2.IH" [of "cum + int (length b)" "bs @ [b]"] 2 obtain k where
      "peek_from h maxBytes (cum + int (length b)) (n_next (h a)) (bs @ [b]) = Some ((bs @ [b]) @ take k (map snd ns))"
      "k < length ns \<longrightarrow> maxBytes \<le> cum + int (length b) + int (length (concat (take k (map snd ns))))" by auto
    with 2 False show ?thesis
      by (subst peek_from.simps) (auto simp: Let_def node_len_def intro!: exI [of _ "Suc k"])
  qed
qed

lemma llb_Peek_abs:
  assumes "llb_inv s"
  shows "\<exists>s' bs k. llb_Peek s maxBytes = Some (s', bs) \<and> llb_inv s' \<and> llb_abs s' = llb_abs s \<and>
    concat bs = take k (llb_abs s) \<and>
    (k < length (llb_abs s) \<longrightarrow> (if maxBytes \<le> 0 then MaxInt32 else maxBytes) \<le> int k)"
proof -
  let ?m = "if maxBytes \<le> 0 then MaxInt32 else maxBytes"
  obtain ns where ns: "llb_rep s ns" "llb_abs s = concat (map snd ns)" by (rule llb_invE [OF assms])
  have "chain (ll_heap s) (ll_head s) ns" "0 < ?m" using ns by (auto simp: llb_rep_def MaxInt32_def)
  from peek_from_chain [OF this, of "[]"] obtain k where k:
    "peek_from (ll_heap s) ?m 0 (ll_head s) [] = Some (take k (map snd ns))"
    "k < length ns \<longrightarrow> ?m \<le> int (length (concat (take k (map snd ns))))" by auto
  define bs where "bs = take k (map snd ns)"
  have abs: "llb_abs s = concat bs @ concat (drop k (map snd ns))"
    unfolding ns(2) bs_def by (metis append_take_drop_id concat_append)
  have "concat bs = take (length (concat bs)) (llb_abs s)" using abs by simp
  moreover have "length (concat bs) < length (llb_abs s) \<longrightarrow> ?m \<le> int (length (concat bs))"
  proof
    assume "length (concat bs) < length (llb_abs s)"
    then have "k < length ns" using abs by (cases "k < length ns") auto
    with k(2) show "?m \<le> int (length (concat bs))" by (simp add: bs_def)
  qed
  moreover have "llb_rep (s\<lparr>ll_bs := bs\<rparr>) ns" using ns by (simp add: llb_rep_def)
  ultimately show ?thesis
    using k(1) ns(2) llb_repD [of "s\<lparr>ll_bs := bs\<rparr>" ns]
    by (intro exI [of _ "s\<lparr>ll_bs := bs\<rparr>"] exI [of _ bs] exI [of _ "length (concat bs)"])
      (simp add: llb_Peek_def bs_def Let_def)
qed

lemma peek_with_result:
  assumes "cum < maxBytes"
  shows "case peek_with maxBytes cum acc bs of
     Inl r \<Rightarrow> \<exists>k. concat r = concat acc @ take k (concat bs) \<and> k \<le> length (concat bs) \<and> maxBytes \<le> cum + int k
   | Inr (c, r) \<Rightarrow> concat r = concat acc @ concat bs \<and> c = cum + int (length (concat bs)) \<and> c < maxBytes"
  using assms
proof (induction maxBytes cum acc bs rule: peek_with.induct)
  case (2 maxBytes cum acc b bs)
  show ?case
  proof (cases "b \<noteq> [] \<and> cum + int (length b) < maxBytes")
    case True
    then have eq: "peek_with maxBytes cum acc (b # bs) = peek_with maxBytes (cum + int (length b)) (acc @ [b]) bs"
      by (simp add: Let_def)
    have IH: "case peek_with maxBytes (cum + int (length b)) (acc @ [b]) bs of
         Inl r \<Rightarrow> \<exists>k. concat r = concat (acc @ [b]) @ take k (concat bs) \<and> k \<le> length (concat bs) \<and>
           maxBytes \<le> cum + int (length b) + int k
       | Inr (c, r) \<Rightarrow> concat r = concat (acc @ [b]) @ concat bs \<and>
           c = cum + int (length b) + int (length (concat bs)) \<and> c < maxBytes"
      using "2.IH"(1) True by simp
    show ?thesis
    proof (cases "peek_with maxBytes (cum + int (length b)) (acc @ [b]) bs")
      case (Inl r)
      with IH obtain k where "concat r = concat acc @ b @ take k (concat bs)" "k \<le> length (concat bs)"
        "maxBytes \<le> cum + int (length b) + int k" by auto
      with Inl eq show ?thesis by (auto intro!: exI [of _ "length b + k"])
    qed (use IH eq in auto)
  next
    case False
    show ?thesis
    proof (cases "b = []")
      case True
      then show ?thesis using "2.IH"(2) "2.prems" by (auto split: sum.splits)
    next
      case b: False
      with False have "maxBytes \<le> cum + int (length b)" by simp
      with b show ?thesis by (auto simp: Let_def intro!: exI [of _ "length b"])
    qed
  qed
qed simp

lemma llb_PeekWithBytes_abs:
  assumes "llb_inv s"
  shows "\<exists>s' r k. llb_PeekWithBytes s maxBytes bs = Some (s', r) \<and> llb_inv s' \<and> llb_abs s' = llb_abs s \<and>
    concat r = take k (concat bs @ llb_abs s) \<and>
    (k < length (concat bs @ llb_abs s) \<longrightarrow> (if maxBytes \<le> 0 then MaxInt32 else maxBytes) \<le> int k)"
proof -
  let ?m = "if maxBytes \<le> 0 then MaxInt32 else maxBytes"
  obtain ns where ns: "llb_rep s ns" "llb_abs s = concat (map snd ns)" by (rule llb_invE [OF assms])
  have bs_rep: "llb_inv (s\<lparr>ll_bs := r\<rparr>) \<and> llb_abs (s\<lparr>ll_bs := r\<rparr>) = llb_abs s" for r
    using ns llb_repD [of "s\<lparr>ll_bs := r\<rparr>" ns] by (simp add: llb_rep_def)
  have m: "0 < ?m" by (simp add: MaxInt32_def)
  show ?thesis
  proof (cases "peek_with ?m 0 [] bs")
    case (Inl r)
    with peek_with_result [OF m, of "[]" bs] obtain k where
      "concat r = take k (concat bs)" "k \<le> length (concat bs)" "?m \<le> int k" by auto
    with Inl bs_rep [of r] show ?thesis
      by (intro exI [of _ "s\<lparr>ll_bs := r\<rparr>"] exI [of _ r] exI [of _ k]) (simp add: llb_PeekWithBytes_def Let_def)
  next
    case (Inr cr)
    obtain c r where cr: "cr = (c, r)" by (cases cr)
    with Inr peek_with_result [OF m, of "[]" bs] have
      r: "concat r = concat bs" "c = int (length (concat bs))" "c < ?m" by auto
    have "chain (ll_heap s) (ll_head s) ns" using ns by (auto simp: llb_rep_def)
    from peek_from_chain [OF this r(3), of r] obtain k where k:
      "peek_from (ll_heap s) ?m c (ll_head s) r = Some (r @ take k (map snd ns))"
      "k < length ns \<longrightarrow> ?m \<le> c + int (length (concat (take k (map snd ns))))" by auto
    define q where "q = take k (map snd ns)"
    have abs: "llb_abs s = concat q @ concat (drop k (map snd ns))"
      unfolding ns(2) q_def by (metis append_take_drop_id concat_append)
    have "length (concat q) < length (llb_abs s) \<longrightarrow> ?m \<le> c + int (length (concat q))"
    proof
      assume "length (concat q) < length (llb_abs s)"
      then have "k < length ns" using abs by (cases "k < length ns") auto
      with k(2) show "?m \<le> c + int (length (concat q))" by (simp add: q_def)
    qed
    with Inr cr r k(1) abs bs_rep [of "r @ q"] show ?thesis
      by (intro exI [of _ "s\<lparr>ll_bs := r @ q\<rparr>"] exI [of _ "r @ q"] exI [of _ "length (concat (r @ q))"])
        (simp add: llb_PeekWithBytes_def Let_def flip: q_def)
  qed
qed

lemma peek_with_nonempty:
  "[] \<notin> set acc \<Longrightarrow> (case peek_with m c acc bs of Inl r \<Rightarrow> [] \<notin> set r | Inr (_, r) \<Rightarrow> [] \<notin> set r)"
  by (induction bs arbitrary: c acc) (auto simp: Let_def)

lemma llb_PeekWithBytes_nonempty:
  assumes "llb_inv s" "llb_PeekWithBytes s maxBytes bs = Some (s', r)"
  shows "[] \<notin> set r"
proof -
  let ?m = "if maxBytes \<le> 0 then MaxInt32 else maxBytes"
  obtain ns where ns: "llb_rep s ns" by (rule llb_invE [OF assms(1)])
  have m: "0 < ?m" by (simp add: MaxInt32_def)
  show ?thesis
  proof (cases "peek_with ?m 0 [] bs")
    case (Inl q)
    with assms(2) peek_with_nonempty [of "[]" ?m 0 bs] show ?thesis by (auto simp: llb_PeekWithBytes_def Let_def)
  next
    case (Inr cr)
    obtain c q where cr: "cr = (c, q)" by (cases cr)
    with Inr peek_with_nonempty [of "[]" ?m 0 bs] peek_with_result [OF m, of "[]" bs] have q: "[] \<notin> set q" "c < ?m" by auto
    have ch: "chain (ll_heap s) (ll_head s) ns" "[] \<notin> snd ` set ns"
      using ns by (auto simp: llb_rep_def list_all_iff)
    from peek_from_chain [OF ch(1) q(2), of q] obtain k where
      "peek_from (ll_heap s) ?m c (ll_head s) q = Some (q @ take k (map snd ns))" by auto
    with assms(2) Inr cr have "r = q @ take k (map snd ns)" by (auto simp: llb_PeekWithBytes_def Let_def)
    with q(1) ch(2) show ?thesis by (auto dest: in_set_takeD)
  qed
qed

text \<open>
  \<open>WriteTo\<close> offers the slices to the writer from the front. Without an error everything is written;
  with one, the bytes of the slice it occurred on are gone whether they were written or not.
\<close>

lemma llb_WriteTo_rep:
  assumes wr: "\<And>w b. case wr w b of (_, m, _) \<Rightarrow> 0 \<le> m \<and> m \<le> int (length b)"
  shows "llb_rep s ns \<Longrightarrow> \<exists>w' s' m j e. llb_WriteTo wr w s n = Some (w', s', n + int m, e) \<and> llb_inv s' \<and>
    llb_abs s' = drop j (concat (map snd ns)) \<and> m \<le> j \<and> j \<le> length (concat (map snd ns)) \<and>
    (e = None \<longrightarrow> m = length (concat (map snd ns)))"
proof (induction ns arbitrary: s w n)
  case Nil
  then show ?case
    using llb_repD [of s "[]"] by (subst llb_WriteTo.simps) (auto intro!: exI [of _ 0])
next
  case (Cons x ns)
  obtain a b where x: "x = (a, b)" by (cases x)
  obtain s' where s': "llb_pop s = (s', Some a)" "llb_rep s' ns" "n_buf (ll_heap s' a) = b" "a < ll_new s'"
    "a \<notin> set (map fst ns)" "b \<noteq> []" by (rule llb_pop_rep [OF Cons.prems(1) [unfolded x]])
  obtain w' k e where k: "wr w b = (w', k, e)" by (cases "wr w b") auto
  then obtain m where m: "k = int m" "m \<le> length b" using wr [where w = w and b = b] by (auto elim: nonneg_int_cases)
  consider "e \<noteq> None" | "e = None" "m < length b" | "e = None" "m = length b" using m(2) by fastforce
  then show ?case
  proof cases
    case 1
    with llb_repD [OF s'(2)] m k show ?thesis
      by (subst llb_WriteTo.simps) (auto simp: x s' intro!: exI [of _ m] exI [of _ "length b"])
  next
    case 2
    let ?s = "llb_pushFront (set_node s' a (ll_heap s' a\<lparr>n_buf := drop m b\<rparr>)) (Some a)"
    have "llb_rep ?s ((a, drop m b) # ns)" using 2 by (intro llb_put_back [OF s'(2,5,4)]) simp
    from llb_repD [OF this] 2 m k show ?thesis
      by (subst llb_WriteTo.simps) (auto simp: x s' intro!: exI [of _ m])
  next
    case 3
    from Cons.IH [OF s'(2), of w' "n + int m"] obtain w2 s2 m2 j e2 where
      "llb_WriteTo wr w' s' (n + int m) = Some (w2, s2, n + int m + int m2, e2)" "llb_inv s2"
      "llb_abs s2 = drop j (concat (map snd ns))" "m2 \<le> j" "j \<le> length (concat (map snd ns))"
      "e2 = None \<longrightarrow> m2 = length (concat (map snd ns))" by blast
    with 3 m k show ?thesis
      by (subst llb_WriteTo.simps, intro exI [of _ w2] exI [of _ s2] exI [of _ "length b + m2"]
          exI [of _ "length b + j"] exI [of _ e2]) (auto simp: x s')
  qed
qed

section \<open>The list buffer as a byte queue\<close>

definition llb_put :: "bytes \<Rightarrow> llb \<Rightarrow> bytes \<Rightarrow> (llb \<times> int) go" where
  "llb_put dirty s p = map_option (\<lambda>s. (s, int (length p))) (llb_PushBack dirty s p)"

interpretation llist: byte_queue llb_inv llb_abs "llb_put dirty" llb_Read llb_Discard llb_Buffered for dirty
proof
  show "\<exists>s'. llb_put dirty s p = Some (s', int (length p)) \<and> llb_inv s' \<and> llb_abs s' = llb_abs s @ p"
    if "llb_inv s" for s p
    using llb_PushBack_abs [OF that, of dirty p] by (auto simp: llb_put_def)
qed (erule llb_Read_abs llb_Discard_abs llb_Buffered_abs)+

end
