(* ===== verification/Elastic_Buffer.thy ===== *)
theory Elastic_Buffer
  imports Linked_List_Buffer
begin

text \<open>
  The buffers of a connection, \<^verbatim>\<open>src/core/pkg/buffer/elastic/elastic_ring_buffer.go\<close> and
  \<^verbatim>\<open>elastic_ring_list_buffer.go\<close>.

  An elastic ring buffer is a pointer to a ring buffer that is taken from the pool at the first write
  and handed back as soon as it is empty: \<open>ring option\<close>. What the pool returns is the argument
  \<open>fresh\<close>, an empty ring buffer of any size. The elastic buffer holds up to \<open>maxStaticBytes\<close> in such
  a ring and what exceeds them in a list buffer behind it.

  Both are byte queues; the content of the elastic buffer is that of its ring followed by that of its
  list, which is why a write goes to the list whenever the list is not empty.
\<close>

section \<open>The elastic ring buffer\<close>

type_synonym ering = "ring option"

definition er_instance :: "ring \<Rightarrow> ering \<Rightarrow> ring" where
  "er_instance fresh b = (case b of None \<Rightarrow> fresh | Some rb \<Rightarrow> rb)"

definition er_Done :: "ering \<Rightarrow> ering" where
  "er_Done b = None"

definition er_done :: "ering \<Rightarrow> ering" where
  "er_done b = (case b of None \<Rightarrow> None | Some rb \<Rightarrow> if ring_IsEmpty rb then None else b)"

definition er_Peek :: "ering \<Rightarrow> int \<Rightarrow> (bytes \<times> bytes) go" where
  "er_Peek b n = (case b of None \<Rightarrow> Some ([], []) | Some rb \<Rightarrow> ring_Peek rb n)"

definition er_Discard :: "ering \<Rightarrow> int \<Rightarrow> (ering \<times> int \<times> ring_err option) go" where
  "er_Discard b n =
     (case b of
        None \<Rightarrow> Some (b, 0, Some ErrIsEmpty)
      | Some rb \<Rightarrow> do { (rb, k) \<leftarrow> ring_Discard rb n; Some (er_done (Some rb), k, None) })"

definition er_Read :: "ering \<Rightarrow> int \<Rightarrow> (ering \<times> bytes \<times> ring_err option) go" where
  "er_Read b plen =
     (case b of
        None \<Rightarrow> Some (b, [], Some ErrIsEmpty)
      | Some rb \<Rightarrow> do { (rb, d, e) \<leftarrow> ring_Read rb plen; Some (er_done (Some rb), d, e) })"

definition er_ReadByte :: "ering \<Rightarrow> (ering \<times> (ring_err + byte)) go" where
  "er_ReadByte b =
     (case b of
        None \<Rightarrow> Some (b, Inl ErrIsEmpty)
      | Some rb \<Rightarrow> do { (rb, r) \<leftarrow> ring_ReadByte rb; Some (er_done (Some rb), r) })"

definition er_Write :: "bytes \<Rightarrow> ring \<Rightarrow> ering \<Rightarrow> bytes \<Rightarrow> (ering \<times> int) go" where
  "er_Write dirty fresh b p =
     (if length p = 0 then Some (b, 0)
      else do { (rb, n) \<leftarrow> ring_Write dirty (er_instance fresh b) p; Some (Some rb, n) })"

definition er_WriteByte :: "bytes \<Rightarrow> ring \<Rightarrow> ering \<Rightarrow> byte \<Rightarrow> ering go" where
  "er_WriteByte dirty fresh b c = do { rb \<leftarrow> ring_WriteByte dirty (er_instance fresh b) c; Some (Some rb) }"

definition er_Buffered :: "ering \<Rightarrow> int" where
  "er_Buffered b = (case b of None \<Rightarrow> 0 | Some rb \<Rightarrow> ring_Buffered rb)"

definition er_Len :: "ering \<Rightarrow> int" where
  "er_Len b = (case b of None \<Rightarrow> 0 | Some rb \<Rightarrow> ring_Len rb)"

definition er_Cap :: "ering \<Rightarrow> int" where
  "er_Cap b = (case b of None \<Rightarrow> 0 | Some rb \<Rightarrow> ring_Cap rb)"

definition er_Available :: "ering \<Rightarrow> int" where
  "er_Available b = (case b of None \<Rightarrow> 0 | Some rb \<Rightarrow> ring_Available rb)"

definition er_WriteString :: "bytes \<Rightarrow> ring \<Rightarrow> ering \<Rightarrow> string \<Rightarrow> (ering \<times> int) go" where
  "er_WriteString dirty fresh b s =
     (if length s = 0 then Some (b, 0)
      else do { (rb, n) \<leftarrow> ring_WriteString dirty (er_instance fresh b) s; Some (Some rb, n) })"

definition er_Bytes :: "ering \<Rightarrow> bytes go" where
  "er_Bytes b = (case b of None \<Rightarrow> Some [] | Some rb \<Rightarrow> ring_Bytes rb)"

definition er_ReadFrom ::
  "('r \<Rightarrow> int \<Rightarrow> 'r \<times> bytes \<times> ring_err option) \<Rightarrow> bytes \<Rightarrow> ring \<Rightarrow> 'r \<Rightarrow> ering \<Rightarrow> ('r \<times> ering \<times> int \<times> ring_err option) go" where
  "er_ReadFrom rd dirty fresh st b = do {
     (st, rb, n, e) \<leftarrow> ring_ReadFrom rd dirty st (er_instance fresh b) 0;
     Some (st, Some rb, n, e)
   }"

definition er_WriteTo ::
  "('w \<Rightarrow> bytes \<Rightarrow> 'w \<times> int \<times> ring_err option) \<Rightarrow> 'w \<Rightarrow> ering \<Rightarrow> ('w \<times> ering \<times> int \<times> ring_err option) go" where
  "er_WriteTo wr w b =
     (case b of
        None \<Rightarrow> Some (w, b, 0, Some ErrIsEmpty)
      | Some rb \<Rightarrow> do {
          (w, rb, n, e) \<leftarrow> ring_WriteTo wr w rb;
          Some (w, er_done (Some rb), n, e)
        })"

definition er_IsFull :: "ering \<Rightarrow> bool" where
  "er_IsFull b = (case b of None \<Rightarrow> False | Some rb \<Rightarrow> ring_IsFull rb)"

definition er_IsEmpty :: "ering \<Rightarrow> bool" where
  "er_IsEmpty b = (case b of None \<Rightarrow> True | Some rb \<Rightarrow> ring_IsEmpty rb)"

definition er_Reset :: "ering \<Rightarrow> ering" where
  "er_Reset b = map_option ring_Reset b"

section \<open>The elastic buffer\<close>

record ebuf =
  eb_max :: int
  eb_ring :: ering
  eb_list :: llb

text \<open>\<open>None\<close> of \<open>eb_New\<close> is the error \<open>ErrNegativeSize\<close>.\<close>

definition eb_New :: "int \<Rightarrow> ebuf option" where
  "eb_New maxStaticBytes =
     (if maxStaticBytes \<le> 0 then None
      else Some \<lparr>eb_max = maxStaticBytes, eb_ring = None, eb_list = llb_empty\<rparr>)"

definition eb_Read :: "ebuf \<Rightarrow> int \<Rightarrow> (ebuf \<times> bytes \<times> ring_err option) go" where
  "eb_Read mb plen = do {
     (rb, d, e) \<leftarrow> er_Read (eb_ring mb) plen;
     let mb = mb\<lparr>eb_ring := rb\<rparr>;
     let n = int (length d);
     (if n = plen then Some (mb, d, e)
      else do {
        (l, d') \<leftarrow> llb_Read (eb_list mb) (plen - n);
        Some (mb\<lparr>eb_list := l\<rparr>, d @ d', None)
      })
   }"

definition eb_Peek :: "ebuf \<Rightarrow> int \<Rightarrow> (ebuf \<times> bytes list) go" where
  "eb_Peek mb n = do {
     let n = (if n \<le> 0 then MaxInt32 else n);
     (head, tail) \<leftarrow> er_Peek (eb_ring mb) n;
     (if er_Buffered (eb_ring mb) \<ge> n then Some (mb, [head, tail])
      else do {
        (l, bs) \<leftarrow> llb_PeekWithBytes (eb_list mb) n [head, tail];
        Some (mb\<lparr>eb_list := l\<rparr>, bs)
      })
   }"

definition eb_Discard :: "ebuf \<Rightarrow> int \<Rightarrow> (ebuf \<times> int \<times> ring_err option) go" where
  "eb_Discard mb n = do {
     (rb, discarded, e) \<leftarrow> er_Discard (eb_ring mb) n;
     let mb = mb\<lparr>eb_ring := rb\<rparr>;
     (if n \<le> discarded then Some (mb, discarded, e)
      else do {
        (l, m) \<leftarrow> llb_Discard (eb_list mb) (n - discarded);
        Some (mb\<lparr>eb_list := l\<rparr>, discarded + m, None)
      })
   }"

definition eb_Write :: "bytes \<Rightarrow> ring \<Rightarrow> ebuf \<Rightarrow> bytes \<Rightarrow> (ebuf \<times> int) go" where
  "eb_Write dirty fresh mb p =
     (if \<not> llb_IsEmpty (eb_list mb) \<or> er_Buffered (eb_ring mb) \<ge> eb_max mb then do {
        l \<leftarrow> llb_PushBack dirty (eb_list mb) p;
        Some (mb\<lparr>eb_list := l\<rparr>, int (length p))
      }
      else if er_Len (eb_ring mb) \<ge> eb_max mb \<and> int (length p) > er_Available (eb_ring mb) then do {
        let writable = er_Available (eb_ring mb);
        p1 \<leftarrow> slice p 0 writable;
        (rb, _) \<leftarrow> er_Write dirty fresh (eb_ring mb) p1;
        p2 \<leftarrow> slice p writable (int (length p));
        l \<leftarrow> llb_PushBack dirty (eb_list mb) p2;
        Some (mb\<lparr>eb_ring := rb, eb_list := l\<rparr>, int (length p))
      }
      else do {
        (rb, n) \<leftarrow> er_Write dirty fresh (eb_ring mb) p;
        Some (mb\<lparr>eb_ring := rb\<rparr>, n)
      })"

text \<open>
  \<open>Writev\<close>: the loop that appends every slice to the list, and the loop that fills the ring until a
  slice does not fit any more and leaves the rest to the first one.
\<close>

fun push_all :: "bytes \<Rightarrow> llb \<Rightarrow> bytes list \<Rightarrow> int \<Rightarrow> (llb \<times> int) go" where
  "push_all dirty l [] cum = Some (l, cum)"
| "push_all dirty l (b # bs) cum = do {
     l \<leftarrow> llb_PushBack dirty l b;
     push_all dirty l bs (cum + int (length b))
   }"

fun writev_loop :: "bytes \<Rightarrow> ring \<Rightarrow> ebuf \<Rightarrow> int \<Rightarrow> bytes list \<Rightarrow> int \<Rightarrow> (ebuf \<times> int) go" where
  "writev_loop dirty fresh mb writable [] cum = Some (mb, cum)"
| "writev_loop dirty fresh mb writable (b # bs) cum =
     (let cum = cum + int (length b) in
      if int (length b) > writable then do {
        b1 \<leftarrow> slice b 0 writable;
        (rb, _) \<leftarrow> er_Write dirty fresh (eb_ring mb) b1;
        b2 \<leftarrow> slice b writable (int (length b));
        l \<leftarrow> llb_PushBack dirty (eb_list mb) b2;
        (l, cum) \<leftarrow> push_all dirty l bs cum;
        Some (mb\<lparr>eb_ring := rb, eb_list := l\<rparr>, cum)
      }
      else do {
        (rb, n) \<leftarrow> er_Write dirty fresh (eb_ring mb) b;
        writev_loop dirty fresh (mb\<lparr>eb_ring := rb\<rparr>) (writable - n) bs cum
      })"

definition eb_Writev :: "bytes \<Rightarrow> ring \<Rightarrow> ebuf \<Rightarrow> bytes list \<Rightarrow> (ebuf \<times> int) go" where
  "eb_Writev dirty fresh mb bs =
     (if \<not> llb_IsEmpty (eb_list mb) \<or> er_Buffered (eb_ring mb) \<ge> eb_max mb then do {
        (l, n) \<leftarrow> push_all dirty (eb_list mb) bs 0;
        Some (mb\<lparr>eb_list := l\<rparr>, n)
      }
      else
        (let writable = er_Available (eb_ring mb);
             writable = (if er_Len (eb_ring mb) < eb_max mb then eb_max mb - er_Buffered (eb_ring mb) else writable)
         in writev_loop dirty fresh mb writable bs 0))"

definition eb_ReadFrom ::
  "('r \<Rightarrow> int \<Rightarrow> 'r \<times> bytes \<times> ring_err option) \<Rightarrow> bytes \<Rightarrow> ring \<Rightarrow> 'r \<Rightarrow> ebuf \<Rightarrow> ('r \<times> ebuf \<times> int \<times> ring_err option) go" where
  "eb_ReadFrom rd dirty fresh st mb =
     (if \<not> llb_IsEmpty (eb_list mb) \<or> er_Buffered (eb_ring mb) \<ge> eb_max mb then do {
        (st, l, n, e) \<leftarrow> llb_ReadFrom rd st (eb_list mb) 0;
        Some (st, mb\<lparr>eb_list := l\<rparr>, n, e)
      }
      else do {
        (st, rb, n, e) \<leftarrow> er_ReadFrom rd dirty fresh st (eb_ring mb);
        Some (st, mb\<lparr>eb_ring := rb\<rparr>, n, e)
      })"

definition eb_WriteTo ::
  "('w \<Rightarrow> bytes \<Rightarrow> 'w \<times> int \<times> ring_err option) \<Rightarrow> 'w \<Rightarrow> ebuf \<Rightarrow> ('w \<times> ebuf \<times> int \<times> ring_err option) go" where
  "eb_WriteTo wr w mb = do {
     (w, rb, n, e) \<leftarrow> er_WriteTo wr w (eb_ring mb);
     let mb = mb\<lparr>eb_ring := rb\<rparr>;
     (if e \<noteq> None then Some (w, mb, n, e)
      else do {
        (w, l, m, e) \<leftarrow> llb_WriteTo wr w (eb_list mb) 0;
        Some (w, mb\<lparr>eb_list := l\<rparr>, n + m, e)
      })
   }"

definition eb_Buffered :: "ebuf \<Rightarrow> int" where
  "eb_Buffered mb = er_Buffered (eb_ring mb) + llb_Buffered (eb_list mb)"

definition eb_IsEmpty :: "ebuf \<Rightarrow> bool" where
  "eb_IsEmpty mb \<longleftrightarrow> er_IsEmpty (eb_ring mb) \<and> llb_IsEmpty (eb_list mb)"

definition eb_Reset :: "ebuf \<Rightarrow> int \<Rightarrow> ebuf go" where
  "eb_Reset mb maxStaticBytes = do {
     let mb = mb\<lparr>eb_ring := er_Reset (eb_ring mb)\<rparr>;
     l \<leftarrow> llb_Reset (eb_list mb);
     let mb = mb\<lparr>eb_list := l\<rparr>;
     Some (if maxStaticBytes > 0 then mb\<lparr>eb_max := maxStaticBytes\<rparr> else mb)
   }"

definition eb_Release :: "ebuf \<Rightarrow> ebuf go" where
  "eb_Release mb = do {
     let mb = mb\<lparr>eb_ring := er_Done (eb_ring mb)\<rparr>;
     l \<leftarrow> llb_Reset (eb_list mb);
     Some (mb\<lparr>eb_list := l\<rparr>)
   }"

section \<open>The elastic ring buffer is a byte queue\<close>

definition er_inv :: "ering \<Rightarrow> bool" where
  "er_inv b \<longleftrightarrow> (case b of None \<Rightarrow> True | Some rb \<Rightarrow> ring_inv rb)"

definition er_abs :: "ering \<Rightarrow> bytes" where
  "er_abs b = (case b of None \<Rightarrow> [] | Some rb \<Rightarrow> ring_abs rb)"

definition er_get :: "ering \<Rightarrow> int \<Rightarrow> (ering \<times> bytes) go" where
  "er_get b n = map_option (\<lambda>(b, d, _). (b, d)) (er_Read b n)"

definition er_skip :: "ering \<Rightarrow> int \<Rightarrow> (ering \<times> int) go" where
  "er_skip b n = map_option (\<lambda>(b, k, _). (b, k)) (er_Discard b n)"

lemma er_done_inv: "ring_inv rb \<Longrightarrow> er_inv (er_done (Some rb)) \<and> er_abs (er_done (Some rb)) = ring_abs rb"
  by (auto simp: er_done_def er_inv_def er_abs_def ring_IsEmpty_abs)

lemma er_Read_abs:
  assumes "er_inv b"
  shows "\<exists>b' e. er_Read b (int n) = Some (b', take n (er_abs b), e) \<and> er_inv b' \<and> er_abs b' = drop n (er_abs b)"
proof (cases b)
  case (Some rb)
  with assms have inv: "ring_inv rb" by (simp add: er_inv_def)
  from ring_Read_abs [OF inv, of "int n"] obtain rb' e where
    "ring_Read rb (int n) = Some (rb', take n (ring_abs rb), e)" "ring_inv rb'" "ring_abs rb' = drop n (ring_abs rb)" by auto
  with Some er_done_inv [of rb'] show ?thesis by (auto simp: er_Read_def er_abs_def)
qed (simp_all add: er_Read_def er_abs_def er_inv_def)

lemma er_Discard_abs:
  assumes "er_inv b"
  shows "\<exists>b' e. er_Discard b (int n) = Some (b', int (min n (length (er_abs b))), e) \<and> er_inv b' \<and>
    er_abs b' = drop n (er_abs b)"
proof (cases b)
  case (Some rb)
  with assms have inv: "ring_inv rb" by (simp add: er_inv_def)
  from ring_Discard_abs [OF inv, of "int n"] obtain rb' where
    "ring_Discard rb (int n) = Some (rb', int (min n (length (ring_abs rb))))" "ring_inv rb'"
    "ring_abs rb' = drop n (ring_abs rb)" by auto
  with Some er_done_inv [of rb'] show ?thesis by (auto simp: er_Discard_def er_abs_def)
qed (simp_all add: er_Discard_def er_abs_def er_inv_def)

lemma er_instance_inv:
  "er_inv b \<Longrightarrow> ring_inv fresh \<Longrightarrow> ring_abs fresh = [] \<Longrightarrow>
   ring_inv (er_instance fresh b) \<and> ring_abs (er_instance fresh b) = er_abs b"
  by (auto simp: er_inv_def er_abs_def er_instance_def split: option.splits)

lemma er_Write_abs:
  assumes "er_inv b" "ring_inv fresh" "ring_abs fresh = []" "int (length (er_abs b @ p)) \<le> 2 ^ 62"
  shows "\<exists>b'. er_Write dirty fresh b p = Some (b', int (length p)) \<and> er_inv b' \<and> er_abs b' = er_abs b @ p"
proof (cases "p = []")
  case False
  from er_instance_inv [OF assms(1-3)] assms(4) ring_Write_abs [of "er_instance fresh b" p dirty]
  obtain rb' where "ring_Write dirty (er_instance fresh b) p = Some (rb', int (length p))" "ring_inv rb'"
    "ring_abs rb' = er_abs b @ p" by auto
  with False show ?thesis
    by (auto simp: er_Write_def er_inv_def er_abs_def intro!: exI [of _ "Some rb'"])
qed (use assms in \<open>simp add: er_Write_def\<close>)

lemma er_Buffered_abs: "er_inv b \<Longrightarrow> er_Buffered b = int (length (er_abs b))"
  by (auto simp: er_inv_def er_Buffered_def er_abs_def ring_Buffered_abs split: option.splits)

interpretation ering: byte_queue er_inv er_abs "er_Write dirty (ring_empty d)" er_get er_skip er_Buffered
  for dirty d
proof
  show "\<exists>b'. er_Write dirty (ring_empty d) b p = Some (b', int (length p)) \<and> er_inv b' \<and> er_abs b' = er_abs b @ p"
    if "er_inv b" "int (length (er_abs b @ p)) \<le> 2 ^ 62" for b p
    using that by (intro er_Write_abs) simp_all
  show "\<exists>b'. er_get b (int n) = Some (b', take n (er_abs b)) \<and> er_inv b' \<and> er_abs b' = drop n (er_abs b)"
    if "er_inv b" for b n
    using er_Read_abs [OF that, of n] by (auto simp: er_get_def)
  show "\<exists>b'. er_skip b (int n) = Some (b', int (min n (length (er_abs b)))) \<and> er_inv b' \<and> er_abs b' = drop n (er_abs b)"
    if "er_inv b" for b n
    using er_Discard_abs [OF that, of n] by (auto simp: er_skip_def)
qed (rule er_Buffered_abs)

section \<open>The elastic buffer is a byte queue\<close>

definition eb_inv :: "ebuf \<Rightarrow> bool" where
  "eb_inv mb \<longleftrightarrow> 0 < eb_max mb \<and> er_inv (eb_ring mb) \<and> llb_inv (eb_list mb)"

definition eb_abs :: "ebuf \<Rightarrow> bytes" where
  "eb_abs mb = er_abs (eb_ring mb) @ llb_abs (eb_list mb)"

definition eb_get :: "ebuf \<Rightarrow> int \<Rightarrow> (ebuf \<times> bytes) go" where
  "eb_get mb n = map_option (\<lambda>(mb, d, _). (mb, d)) (eb_Read mb n)"

definition eb_skip :: "ebuf \<Rightarrow> int \<Rightarrow> (ebuf \<times> int) go" where
  "eb_skip mb n = map_option (\<lambda>(mb, k, _). (mb, k)) (eb_Discard mb n)"

lemma eb_New_inv: "0 < m \<Longrightarrow> \<exists>mb. eb_New m = Some mb \<and> eb_inv mb \<and> eb_abs mb = []"
  using llb_repD [OF llb_empty_rep] by (simp add: eb_New_def eb_inv_def eb_abs_def er_inv_def er_abs_def)

lemma eb_Read_abs:
  assumes "eb_inv mb"
  shows "\<exists>mb' e. eb_Read mb (int n) = Some (mb', take n (eb_abs mb), e) \<and> eb_inv mb' \<and> eb_abs mb' = drop n (eb_abs mb)"
proof -
  have inv: "er_inv (eb_ring mb)" "llb_inv (eb_list mb)" "0 < eb_max mb" using assms by (auto simp: eb_inv_def)
  let ?a = "er_abs (eb_ring mb)"
  obtain b e where b: "er_Read (eb_ring mb) (int n) = Some (b, take n ?a, e)" "er_inv b" "er_abs b = drop n ?a"
    using er_Read_abs [OF inv(1)] by blast
  show ?thesis
  proof (cases "n \<le> length ?a")
    case True
    with b inv show ?thesis by (auto simp: eb_Read_def eb_inv_def eb_abs_def)
  next
    case False
    then obtain k where k: "n = length ?a + k" "0 < k" using less_imp_add_positive [of "length ?a" n] by auto
    obtain l where "llb_Read (eb_list mb) (int k) = Some (l, take k (llb_abs (eb_list mb)))" "llb_inv l"
      "llb_abs l = drop k (llb_abs (eb_list mb))"
      using llb_Read_abs [OF inv(2)] by blast
    with b inv k show ?thesis by (auto simp: eb_Read_def eb_inv_def eb_abs_def)
  qed
qed

lemma eb_Discard_abs:
  assumes "eb_inv mb"
  shows "\<exists>mb' e. eb_Discard mb (int n) = Some (mb', int (min n (length (eb_abs mb))), e) \<and> eb_inv mb' \<and>
    eb_abs mb' = drop n (eb_abs mb)"
proof -
  have inv: "er_inv (eb_ring mb)" "llb_inv (eb_list mb)" "0 < eb_max mb" using assms by (auto simp: eb_inv_def)
  let ?a = "er_abs (eb_ring mb)"
  obtain b e where b: "er_Discard (eb_ring mb) (int n) = Some (b, int (min n (length ?a)), e)" "er_inv b" "er_abs b = drop n ?a"
    using er_Discard_abs [OF inv(1)] by blast
  show ?thesis
  proof (cases "n \<le> length ?a")
    case True
    with b inv show ?thesis by (auto simp: eb_Discard_def eb_inv_def eb_abs_def)
  next
    case False
    then obtain k where k: "n = length ?a + k" "0 < k" using less_imp_add_positive [of "length ?a" n] by auto
    obtain l where l: "llb_Discard (eb_list mb) (int k) = Some (l, int (min k (length (llb_abs (eb_list mb)))))" "llb_inv l"
      "llb_abs l = drop k (llb_abs (eb_list mb))"
      using llb_Discard_abs [OF inv(2)] by blast
    with b inv k l show ?thesis by (auto simp: eb_Discard_def eb_inv_def eb_abs_def)
  qed
qed

lemma eb_split_write:
  assumes "eb_inv mb" "ring_inv fresh" "ring_abs fresh = []" "int (length (eb_abs mb @ p)) \<le> 2 ^ 62"
    and "llb_abs (eb_list mb) = []" "k \<le> length p"
  shows "\<exists>rb l. er_Write dirty fresh (eb_ring mb) (take k p) = Some (rb, int k) \<and>
    llb_PushBack dirty (eb_list mb) (drop k p) = Some l \<and>
    eb_inv (mb\<lparr>eb_ring := rb, eb_list := l\<rparr>) \<and> eb_abs (mb\<lparr>eb_ring := rb, eb_list := l\<rparr>) = eb_abs mb @ p"
proof -
  have inv: "er_inv (eb_ring mb)" "llb_inv (eb_list mb)" "0 < eb_max mb" using assms(1) by (auto simp: eb_inv_def)
  have "int (length (er_abs (eb_ring mb) @ take k p)) \<le> 2 ^ 62" using assms(4) by (simp add: eb_abs_def)
  from er_Write_abs [OF inv(1) assms(2,3) this, of dirty] llb_PushBack_abs [OF inv(2), of dirty "drop k p"] assms(5,6) inv
  show ?thesis by (auto simp: eb_inv_def eb_abs_def min_def)
qed

lemma eb_Write_abs:
  assumes "eb_inv mb" "ring_inv fresh" "ring_abs fresh = []" "int (length (eb_abs mb @ p)) \<le> 2 ^ 62"
  shows "\<exists>mb'. eb_Write dirty fresh mb p = Some (mb', int (length p)) \<and> eb_inv mb' \<and> eb_abs mb' = eb_abs mb @ p"
proof -
  have inv: "er_inv (eb_ring mb)" "llb_inv (eb_list mb)" "0 < eb_max mb" using assms(1) by (auto simp: eb_inv_def)
  let ?b = "eb_ring mb"
  show ?thesis
  proof (cases "\<not> llb_IsEmpty (eb_list mb) \<or> er_Buffered ?b \<ge> eb_max mb")
    case True
    with llb_PushBack_abs [OF inv(2), of dirty p] inv show ?thesis
      by (auto simp: eb_Write_def eb_inv_def eb_abs_def)
  next
    case list: False
    then have nil: "llb_abs (eb_list mb) = []" using llb_IsEmpty_abs [OF inv(2)] by simp
    show ?thesis
    proof (cases "er_Len ?b \<ge> eb_max mb \<and> int (length p) > er_Available ?b")
      case True
      have "0 \<le> er_Available ?b"
        using inv(1) ring_Available_abs ring_abs_le_size
        by (auto simp: er_inv_def er_Available_def split: option.splits)
      then obtain k where k: "er_Available ?b = int k" by (auto elim: nonneg_int_cases)
      then have "k \<le> length p" using True by simp
      from eb_split_write [OF assms nil this, of dirty] list True k show ?thesis
        by (auto simp: eb_Write_def slice_def)
    next
      case False
      from eb_split_write [OF assms nil order_refl, of dirty] list False show ?thesis
        by (auto simp: eb_Write_def llb_PushBack_def)
    qed
  qed
qed

lemma push_all_abs:
  "llb_inv l \<Longrightarrow> \<exists>l'. push_all dirty l bs cum = Some (l', cum + int (length (concat bs))) \<and> llb_inv l' \<and>
    llb_abs l' = llb_abs l @ concat bs"
proof (induction bs arbitrary: l cum)
  case (Cons b bs)
  obtain l1 where l1: "llb_PushBack dirty l b = Some l1" "llb_inv l1" "llb_abs l1 = llb_abs l @ b"
    using llb_PushBack_abs [OF Cons.prems] by blast
  from Cons.IH [OF l1(2), of "cum + int (length b)"] l1 show ?case by (auto simp: ac_simps)
qed simp

lemma writev_loop_abs:
  "eb_inv mb \<Longrightarrow> ring_inv fresh \<Longrightarrow> ring_abs fresh = [] \<Longrightarrow> int (length (eb_abs mb @ concat bs)) \<le> 2 ^ 62 \<Longrightarrow>
   llb_abs (eb_list mb) = [] \<Longrightarrow> 0 \<le> writable \<Longrightarrow>
   \<exists>mb'. writev_loop dirty fresh mb writable bs cum = Some (mb', cum + int (length (concat bs))) \<and> eb_inv mb' \<and>
     eb_abs mb' = eb_abs mb @ concat bs"
proof (induction bs arbitrary: mb writable cum)
  case (Cons b bs)
  have bound: "int (length (eb_abs mb @ b)) \<le> 2 ^ 62" using Cons.prems(4) by simp
  obtain k where k: "writable = int k" using Cons.prems(6) by (auto elim: nonneg_int_cases)
  show ?case
  proof (cases "k < length b")
    case True
    then have "k \<le> length b" by simp
    from eb_split_write [OF Cons.prems(1-3) bound Cons.prems(5) this, of dirty] obtain rb l where
      rb: "er_Write dirty fresh (eb_ring mb) (take k b) = Some (rb, int k)"
        "llb_PushBack dirty (eb_list mb) (drop k b) = Some l"
        "eb_inv (mb\<lparr>eb_ring := rb, eb_list := l\<rparr>)" "eb_abs (mb\<lparr>eb_ring := rb, eb_list := l\<rparr>) = eb_abs mb @ b"
      by blast
    have "llb_inv l" using rb(3) by (simp add: eb_inv_def)
    from push_all_abs [OF this, of dirty bs "cum + int (length b)"] rb True k show ?thesis
      by (auto simp: slice_def eb_inv_def eb_abs_def)
  next
    case False
    have "int (length (er_abs (eb_ring mb) @ b)) \<le> 2 ^ 62" using bound by (simp add: eb_abs_def)
    with er_Write_abs [of "eb_ring mb" fresh b dirty] Cons.prems(1-3) obtain rb where
      rb: "er_Write dirty fresh (eb_ring mb) b = Some (rb, int (length b))" "er_inv rb" "er_abs rb = er_abs (eb_ring mb) @ b"
      by (auto simp: eb_inv_def)
    let ?mb = "mb\<lparr>eb_ring := rb\<rparr>"
    have mb: "eb_inv ?mb" "eb_abs ?mb = eb_abs mb @ b" "llb_abs (eb_list ?mb) = []"
      using rb Cons.prems by (auto simp: eb_inv_def eb_abs_def)
    have "int (length (eb_abs ?mb @ concat bs)) \<le> 2 ^ 62" "0 \<le> writable - int (length b)"
      using Cons.prems(4) mb False k by auto
    from Cons.IH [OF mb(1) Cons.prems(2,3) this(1) mb(3) this(2), of "cum + int (length b)"] rb mb False k show ?thesis
      by (auto simp: ac_simps)
  qed
qed simp

lemma eb_Writev_abs:
  assumes "eb_inv mb" "ring_inv fresh" "ring_abs fresh = []" "int (length (eb_abs mb @ concat bs)) \<le> 2 ^ 62"
  shows "\<exists>mb'. eb_Writev dirty fresh mb bs = Some (mb', int (length (concat bs))) \<and> eb_inv mb' \<and>
    eb_abs mb' = eb_abs mb @ concat bs"
proof -
  have inv: "er_inv (eb_ring mb)" "llb_inv (eb_list mb)" "0 < eb_max mb" using assms(1) by (auto simp: eb_inv_def)
  show ?thesis
  proof (cases "\<not> llb_IsEmpty (eb_list mb) \<or> er_Buffered (eb_ring mb) \<ge> eb_max mb")
    case True
    with push_all_abs [OF inv(2), of dirty bs 0] inv show ?thesis
      by (auto simp: eb_Writev_def eb_inv_def eb_abs_def)
  next
    case False
    then have nil: "llb_abs (eb_list mb) = []" using llb_IsEmpty_abs [OF inv(2)] by simp
    have "0 \<le> er_Available (eb_ring mb)"
      using inv(1) ring_Available_abs ring_abs_le_size
      by (auto simp: er_inv_def er_Available_def split: option.splits)
    then have "0 \<le> (if er_Len (eb_ring mb) < eb_max mb then eb_max mb - er_Buffered (eb_ring mb)
        else er_Available (eb_ring mb))" using False by simp
    from writev_loop_abs [OF assms nil this, of dirty 0] False show ?thesis
      by (auto simp: eb_Writev_def Let_def)
  qed
qed

lemma eb_Buffered_abs: "eb_inv mb \<Longrightarrow> eb_Buffered mb = int (length (eb_abs mb))"
  by (simp add: eb_inv_def eb_Buffered_def eb_abs_def er_Buffered_abs llb_Buffered_abs)

interpretation elastic: byte_queue eb_inv eb_abs "eb_Write dirty (ring_empty d)" eb_get eb_skip eb_Buffered
  for dirty d
proof
  show "\<exists>b'. eb_Write dirty (ring_empty d) b p = Some (b', int (length p)) \<and> eb_inv b' \<and> eb_abs b' = eb_abs b @ p"
    if "eb_inv b" "int (length (eb_abs b @ p)) \<le> 2 ^ 62" for b p
    using that by (intro eb_Write_abs) simp_all
  show "\<exists>b'. eb_get b (int n) = Some (b', take n (eb_abs b)) \<and> eb_inv b' \<and> eb_abs b' = drop n (eb_abs b)"
    if "eb_inv b" for b n
    using eb_Read_abs [OF that, of n] by (auto simp: eb_get_def)
  show "\<exists>b'. eb_skip b (int n) = Some (b', int (min n (length (eb_abs b)))) \<and> eb_inv b' \<and> eb_abs b' = drop n (eb_abs b)"
    if "eb_inv b" for b n
    using eb_Discard_abs [OF that, of n] by (auto simp: eb_skip_def)
qed (rule eb_Buffered_abs)

lemma eb_IsEmpty_abs: "eb_inv mb \<Longrightarrow> eb_IsEmpty mb \<longleftrightarrow> eb_abs mb = []"
  by (auto simp: eb_inv_def eb_IsEmpty_def eb_abs_def llb_IsEmpty_abs er_inv_def er_IsEmpty_def er_abs_def
      ring_IsEmpty_abs split: option.splits)

lemma er_Peek_abs:
  assumes "er_inv b" "0 < n"
  shows "\<exists>head tail. er_Peek b n = Some (head, tail) \<and> head @ tail = take (nat n) (er_abs b)"
  using assms ring_Peek_abs [of "the b" n]
  by (cases b) (auto simp: er_Peek_def er_inv_def er_abs_def)

lemma eb_Peek_abs:
  assumes "eb_inv mb"
  shows "\<exists>mb' bs k. eb_Peek mb n = Some (mb', bs) \<and> eb_inv mb' \<and> eb_abs mb' = eb_abs mb \<and>
    concat bs = take k (eb_abs mb) \<and>
    (k < length (eb_abs mb) \<longrightarrow> (if n \<le> 0 then MaxInt32 else n) \<le> int k)"
proof -
  let ?n = "if n \<le> 0 then MaxInt32 else n"
  have inv: "er_inv (eb_ring mb)" "llb_inv (eb_list mb)" "0 < eb_max mb" using assms by (auto simp: eb_inv_def)
  have n: "0 < ?n" by (simp add: MaxInt32_def)
  from er_Peek_abs [OF inv(1) n] obtain head tail where
    ht: "er_Peek (eb_ring mb) ?n = Some (head, tail)" "head @ tail = take (nat ?n) (er_abs (eb_ring mb))" by blast
  show ?thesis
  proof (cases "er_Buffered (eb_ring mb) \<ge> ?n")
    case True
    then have "nat ?n \<le> length (er_abs (eb_ring mb))" using er_Buffered_abs [OF inv(1)] by simp
    with True ht assms n show ?thesis
      by (intro exI [of _ mb] exI [of _ "[head, tail]"] exI [of _ "nat ?n"]) (simp add: eb_Peek_def Let_def eb_abs_def)
  next
    case False
    then have ring: "head @ tail = er_abs (eb_ring mb)" using er_Buffered_abs [OF inv(1)] ht(2) by simp
    from llb_PeekWithBytes_abs [OF inv(2), of ?n "[head, tail]"] n obtain l bs k where
      "llb_PeekWithBytes (eb_list mb) ?n [head, tail] = Some (l, bs)" "llb_inv l" "llb_abs l = llb_abs (eb_list mb)"
      "concat bs = take k (head @ tail @ llb_abs (eb_list mb))"
      "k < length (head @ tail @ llb_abs (eb_list mb)) \<longrightarrow> ?n \<le> int k" by auto
    with False ht ring inv show ?thesis
      by (intro exI [of _ "mb\<lparr>eb_list := l\<rparr>"] exI [of _ bs] exI [of _ k])
        (simp add: eb_Peek_def Let_def eb_inv_def eb_abs_def flip: append_assoc)
  qed
qed

text \<open>
  However many slices of a non-empty buffer a call can pass on, it passes on some bytes, and these are
  the next ones.
\<close>

lemma eb_Peek_slices:
  assumes "eb_inv mb" "eb_Peek mb n = Some (mb', bs)"
  shows "length bs \<le> 2 \<or> [] \<notin> set bs"
  using assms llb_PeekWithBytes_nonempty [of "eb_list mb"]
  by (auto simp: eb_Peek_def Let_def eb_inv_def split: bind_splits if_splits)

lemma concat_take_prefix: "\<exists>j. concat (take i bs) = take j (concat bs)"
  by (intro exI [of _ "length (concat (take i bs))"])
    (metis append_eq_conv_conj append_take_drop_id concat_append)

lemma eb_Peek_progress:
  assumes "eb_inv mb" "eb_abs mb \<noteq> []" "2 \<le> i"
  shows "\<exists>mb' bs k. eb_Peek mb n = Some (mb', bs) \<and> eb_inv mb' \<and> eb_abs mb' = eb_abs mb \<and> bs \<noteq> [] \<and>
    0 < k \<and> k \<le> length (eb_abs mb) \<and> concat (take i bs) = take k (eb_abs mb)"
proof -
  from eb_Peek_abs [OF assms(1), of n] obtain mb' bs k where
    p: "eb_Peek mb n = Some (mb', bs)" "eb_inv mb'" "eb_abs mb' = eb_abs mb" "concat bs = take k (eb_abs mb)"
      "k < length (eb_abs mb) \<longrightarrow> (if n \<le> 0 then MaxInt32 else n) \<le> int k" by auto
  have "0 < k" using p(5) assms(2) by (cases k) (auto simp: MaxInt32_def split: if_splits)
  then have c: "concat bs \<noteq> []" using p(4) assms(2) by simp
  have ne: "concat (take i bs) \<noteq> []"
  proof (cases "length bs \<le> 2")
    case True
    with c assms(3) show ?thesis by simp
  next
    case False
    with eb_Peek_slices [OF assms(1) p(1)] assms(3) show ?thesis
      by (cases bs; cases i) auto
  qed
  obtain j where j: "concat (take i bs) = take j (take k (eb_abs mb))"
    using concat_take_prefix [of i bs] p(4) by metis
  define l where "l = length (concat (take i bs))"
  have "concat (take i bs) = take l (eb_abs mb)" "l \<le> length (eb_abs mb)" "0 < l"
    using j ne by (auto simp: l_def min_def)
  moreover have "bs \<noteq> []" using c by auto
  ultimately show ?thesis using p by blast
qed

lemma eb_Release_abs:
  "eb_inv mb \<Longrightarrow> \<exists>mb'. eb_Release mb = Some mb' \<and> eb_inv mb' \<and> eb_abs mb' = []"
  using llb_Reset_abs [of "eb_list mb"]
  by (auto simp: eb_inv_def eb_Release_def eb_abs_def er_Done_def er_inv_def er_abs_def)

text \<open>
  \<open>WriteTo\<close> stops at once when nothing is in the ring, even if the list holds data.
\<close>

lemma eb_WriteTo_skips_list:
  "eb_ring mb = None \<Longrightarrow> eb_WriteTo wr w mb = Some (w, mb, 0, Some ErrIsEmpty)"
  by (simp add: eb_WriteTo_def er_WriteTo_def Let_def)

section \<open>Stated properties\<close>

text \<open>
  C8: the output buffer of a connection and a plain list of bytes give the same answers to every
  sequence of writes, reads, discards and length queries that writes at most \<open>2\<^sup>6\<^sup>2\<close> bytes, whatever
  its limit \<open>maxStaticBytes\<close>: that bytes move from the ring to the list when the limit is reached is
  never visible.
\<close>

theorem elastic_buffer_refines_list:
  assumes "0 < m" "int (written ops) \<le> 2 ^ 62"
  shows "\<exists>mb. eb_New m = Some mb \<and>
    buf_run (eb_Write dirty (ring_empty d)) eb_get eb_skip eb_Buffered mb ops = Some (list_run [] ops)"
proof -
  obtain mb where "eb_New m = Some mb" "eb_inv mb" "eb_abs mb = []"
    using eb_New_inv [OF assms(1)] by blast
  with elastic.run_refines [of mb ops dirty d] assms(2) show ?thesis by simp
qed

theorem elastic_buffer_refines_list_witness:
  "\<exists>mb. eb_New 2 = Some mb \<and>
    buf_run (eb_Write ''junk'' (ring_empty ''xy'')) eb_get eb_skip eb_Buffered mb
      [OpWrite ''abc'', OpRead 1, OpWrite ''def'', OpDiscard 2, OpBuffered, OpRead 9] =
    Some [OutCount 3, OutBytes ''a'', OutCount 3, OutCount 2, OutCount 3, OutBytes ''def'']"
  using elastic_buffer_refines_list [of 2 "[OpWrite ''abc'', OpRead 1, OpWrite ''def'', OpDiscard 2, OpBuffered, OpRead 9]" "''junk''" "''xy''"]
  by simp

text \<open>
  C36: writing several slices at once is writing their concatenation, and what a connection then
  looks at with \<open>Peek\<close> is the front of everything written and not yet taken out: the bytes asked
  for, rounded up to whole slices, or all there are.
\<close>

theorem elastic_writev_peek:
  assumes "eb_inv mb" "int (length (eb_abs mb @ concat bs)) \<le> 2 ^ 62" "0 < n"
  shows "\<exists>mb' mb'' front k. eb_Writev dirty (ring_empty d) mb bs = Some (mb', int (length (concat bs))) \<and>
    eb_Peek mb' n = Some (mb'', front) \<and> eb_abs mb'' = eb_abs mb @ concat bs \<and> eb_inv mb'' \<and>
    concat front = take k (eb_abs mb @ concat bs) \<and> (k < length (eb_abs mb @ concat bs) \<longrightarrow> n \<le> int k)"
proof -
  obtain mb' where mb': "eb_Writev dirty (ring_empty d) mb bs = Some (mb', int (length (concat bs)))" "eb_inv mb'"
    "eb_abs mb' = eb_abs mb @ concat bs" 
    using eb_Writev_abs [OF assms(1) ring_inv_shapes(1) ring_abs_shapes(1) assms(2)] by blast
  obtain mb'' front k where "eb_Peek mb' n = Some (mb'', front)" "eb_inv mb''" "eb_abs mb'' = eb_abs mb'"
    "concat front = take k (eb_abs mb')" "k < length (eb_abs mb') \<longrightarrow> n \<le> int k"
    using eb_Peek_abs [OF mb'(2), of n] assms(3) by (auto simp del: split_paired_Ex)
  with mb' show ?thesis
    by (intro exI [of _ mb'] exI [of _ mb''] exI [of _ front] exI [of _ k]) simp
qed

theorem elastic_writev_peek_witness:
  "\<exists>mb' mb'' front k.
    eb_Writev ''junk'' (ring_empty ''xy'') \<lparr>eb_max = 2, eb_ring = None, eb_list = llb_empty\<rparr> [''abc'', ''def''] = Some (mb', 6) \<and>
    eb_Peek mb' 4 = Some (mb'', front) \<and> eb_abs mb'' = ''abcdef'' \<and> eb_inv mb'' \<and>
    concat front = take k ''abcdef'' \<and> (k < length ''abcdef'' \<longrightarrow> 4 \<le> int k)"
proof -
  let ?mb = "\<lparr>eb_max = 2, eb_ring = None, eb_list = llb_empty\<rparr>"
  have "eb_inv ?mb" "eb_abs ?mb = []"
    using eb_New_inv [of 2] by (auto simp: eb_New_def)
  with elastic_writev_peek [of ?mb "[''abc'', ''def'']" 4 "''junk''" "''xy''"] show ?thesis
    by (simp del: split_paired_Ex)
qed

end
