(* ===== verification/Buffer_Pools.thy ===== *)
theory Buffer_Pools
  imports Ring_Buffer "HOL-Library.Multiset"
begin

text \<open>
  The pools behind the buffers: byte slices by size class
  (\<^verbatim>\<open>src/core/pkg/pool/byteslice/byteslice.go\<close>) and ring buffers
  (\<^verbatim>\<open>src/core/pkg/pool/ringbuffer/ringbuffer.go\<close>).

  A \<open>sync.Pool\<close> is a list of items. Its \<open>Get\<close> may return any of them, or nil even when there are
  some: the choice is an argument of the model. A pointer in a pool of byte slices stands for the
  array behind it and is represented by the number of bytes of that array from the pointer on. A
  slice carries the same number beside its length and capacity, which is what makes a slice header
  that promises more than its array observable.

  The calibration of the ring pool computes a percentile in double precision; \<open>round53\<close> is rounding
  to 53 significant bits, half to even. \<open>sort.Sort\<close> leaves the order of equal elements open and is
  the argument \<open>srt\<close>.
\<close>

section \<open>sync.Pool\<close>

definition sync_Get :: "nat option \<Rightarrow> 'a list \<Rightarrow> 'a option \<times> 'a list" where
  "sync_Get c xs =
     (case c of
        None \<Rightarrow> (None, xs)
      | Some i \<Rightarrow> if i < length xs then (Some (xs ! i), take i xs @ drop (Suc i) xs) else (None, xs))"

definition sync_Put :: "'a \<Rightarrow> 'a list \<Rightarrow> 'a list" where
  "sync_Put x xs = x # xs"

lemma sync_Get_set:
  "sync_Get c xs = (r, xs') \<Longrightarrow> set xs' \<subseteq> set xs \<and> (\<forall>x. r = Some x \<longrightarrow> x \<in> set xs)"
  by (auto simp: sync_Get_def split: option.splits if_splits dest: in_set_takeD in_set_dropD)

section \<open>The pool of byte slices\<close>

record gslice =
  sl_len :: nat
  sl_cap :: nat
  sl_room :: nat

definition nil_slice :: gslice where
  "nil_slice = \<lparr>sl_len = 0, sl_cap = 0, sl_room = 0\<rparr>"

type_synonym bspool = "nat list list"

definition bs_new :: bspool where
  "bs_new = replicate 32 []"

text \<open>\<open>bits.Len32\<close>: the number of bits needed to represent a number.\<close>

fun bits_Len :: "nat \<Rightarrow> nat" where
  "bits_Len n = (if n = 0 then 0 else Suc (bits_Len (n div 2)))"

declare bits_Len.simps [simp del]

definition bs_index :: "nat \<Rightarrow> nat" where
  "bs_index n = bits_Len (n - 1)"

definition maxInt32 :: int where "maxInt32 = 2 ^ 31 - 1"

definition bs_Get :: "nat option \<Rightarrow> bspool \<Rightarrow> int \<Rightarrow> (bspool \<times> gslice) go" where
  "bs_Get c p sz =
     (if sz \<le> 0 then Some (p, nil_slice)
      else if sz > maxInt32 then Some (p, \<lparr>sl_len = nat sz, sl_cap = nat sz, sl_room = nat sz\<rparr>)
      else do {
        let i = bs_index (nat sz);
        xs \<leftarrow> idx p (int i);
        (case sync_Get c xs of
           (None, xs) \<Rightarrow> Some (p[i := xs], \<lparr>sl_len = nat sz, sl_cap = 2 ^ i, sl_room = 2 ^ i\<rparr>)
         | (Some room, xs) \<Rightarrow> Some (p[i := xs], \<lparr>sl_len = nat sz, sl_cap = 2 ^ i, sl_room = room\<rparr>))
      })"

definition bs_Put :: "bspool \<Rightarrow> gslice \<Rightarrow> bspool go" where
  "bs_Put p buf =
     (let sz = sl_cap buf in
      if sz = 0 \<or> int sz > maxInt32 then Some p
      else do {
        let i = bs_index sz;
        let i = (if sz \<noteq> 2 ^ i then i - 1 else i);
        xs \<leftarrow> idx p (int i);
        Some (p[i := sync_Put (sl_room buf) xs])
      })"

text \<open>\<open>buf[m:]\<close>, which the list buffer does to a slice it has read from.\<close>

definition reslice :: "gslice \<Rightarrow> nat \<Rightarrow> gslice" where
  "reslice b m = \<lparr>sl_len = sl_len b - m, sl_cap = sl_cap b - m, sl_room = sl_room b - m\<rparr>"

text \<open>A client of the pool: it gets slices, cuts bytes off their front and gives them back.\<close>

datatype bs_op = BGet "nat option" int | BCut nat nat | BPut nat

fun bs_step :: "bspool \<times> gslice list \<Rightarrow> bs_op \<Rightarrow> (bspool \<times> gslice list) go" where
  "bs_step (p, live) (BGet c sz) = do { (p, b) \<leftarrow> bs_Get c p sz; Some (p, b # live) }"
| "bs_step (p, live) (BCut i m) =
     Some (p, if i < length live \<and> m \<le> sl_len (live ! i) then live[i := reslice (live ! i) m] else live)"
| "bs_step (p, live) (BPut i) =
     (if i < length live then do { p \<leftarrow> bs_Put p (live ! i); Some (p, take i live @ drop (Suc i) live) }
      else Some (p, live))"

fun bs_run :: "bspool \<times> gslice list \<Rightarrow> bs_op list \<Rightarrow> (bspool \<times> gslice list) go" where
  "bs_run s [] = Some s"
| "bs_run s (x # xs) = do { s \<leftarrow> bs_step s x; bs_run s xs }"

section \<open>The pool of ring buffers\<close>

definition minBitSize :: nat where "minBitSize = 6"
definition rp_steps :: nat where "rp_steps = 20"
definition rp_minSize :: nat where "rp_minSize = 2 ^ minBitSize"
definition calibrateCallsThreshold :: nat where "calibrateCallsThreshold = 42000"

record rbpool =
  rp_calls :: "nat list"
  rp_calibrating :: nat
  rp_defaultSize :: nat
  rp_maxSize :: nat
  rp_pool :: "ring list"

definition rp_new :: rbpool where
  "rp_new = \<lparr>rp_calls = replicate rp_steps 0, rp_calibrating = 0, rp_defaultSize = 0, rp_maxSize = 0, rp_pool = []\<rparr>"

record callSize =
  cs_calls :: nat
  cs_size :: nat

text \<open>
  \<open>index\<close>: the size class of a buffer. The loop of the source counts how often a number can be
  halved, which is \<open>bits_Len\<close>.
\<close>

definition rp_index :: "int \<Rightarrow> nat" where
  "rp_index n =
     (let i = bits_Len (nat ((n - 1) div 2 ^ minBitSize))
      in if i \<ge> rp_steps then rp_steps - 1 else i)"

definition round53 :: "nat \<Rightarrow> nat" where
  "round53 p =
     (let s = bits_Len p - 53 in
      if s = 0 then p
      else (let q = p div 2 ^ s; r = p mod 2 ^ s; half = 2 ^ (s - 1)
            in (if r > half \<or> r = half \<and> odd q then q + 1 else q) * 2 ^ s))"

text \<open>\<open>uint64(float64(callsSum) * 0.95)\<close>; the constant is \<open>8556839292003942 / 2\<^sup>5\<^sup>3\<close> in double precision.\<close>

definition maxSum_of :: "nat \<Rightarrow> nat" where
  "maxSum_of callsSum = round53 (round53 callsSum * 8556839292003942) div 2 ^ 53"

fun calibrate_loop :: "nat \<Rightarrow> nat \<Rightarrow> nat \<Rightarrow> callSize list \<Rightarrow> nat" where
  "calibrate_loop maxSum callsSum maxSize [] = maxSize"
| "calibrate_loop maxSum callsSum maxSize (a # as) =
     (if callsSum > maxSum then maxSize
      else calibrate_loop maxSum ((callsSum + cs_calls a) mod 2 ^ 64)
             (if cs_size a > maxSize then cs_size a else maxSize) as)"

definition rp_calibrate :: "(callSize list \<Rightarrow> callSize list) \<Rightarrow> rbpool \<Rightarrow> rbpool go" where
  "rp_calibrate srt p =
     (if rp_calibrating p \<noteq> 0 then Some p
      else do {
        let a = map (\<lambda>i. \<lparr>cs_calls = rp_calls p ! i, cs_size = rp_minSize * 2 ^ i\<rparr>) [0..<rp_steps];
        let callsSum = foldl (\<lambda>s c. (s + c) mod 2 ^ 64) 0 (rp_calls p);
        let p = p\<lparr>rp_calls := replicate rp_steps 0\<rparr>;
        let a = srt a;
        a0 \<leftarrow> idx a 0;
        let defaultSize = cs_size a0;
        let maxSum = maxSum_of callsSum;
        let maxSize = calibrate_loop maxSum 0 defaultSize a;
        Some (p\<lparr>rp_defaultSize := defaultSize, rp_maxSize := maxSize, rp_calibrating := 0\<rparr>)
      })"

definition rp_Get :: "nat option \<Rightarrow> rbpool \<Rightarrow> (rbpool \<times> ring) go" where
  "rp_Get c p =
     (case sync_Get c (rp_pool p) of
        (Some rb, xs) \<Rightarrow> Some (p\<lparr>rp_pool := xs\<rparr>, rb)
      | (None, xs) \<Rightarrow> do { rb \<leftarrow> ring_New (int (rp_defaultSize p)); Some (p\<lparr>rp_pool := xs\<rparr>, rb) })"

definition rp_Put :: "(callSize list \<Rightarrow> callSize list) \<Rightarrow> rbpool \<Rightarrow> ring \<Rightarrow> rbpool go" where
  "rp_Put srt p b = do {
     let i = rp_index (ring_Len b);
     k \<leftarrow> idx (rp_calls p) (int i);
     let k = (k + 1) mod 2 ^ 64;
     let p = p\<lparr>rp_calls := (rp_calls p)[i := k]\<rparr>;
     p \<leftarrow> (if k > calibrateCallsThreshold then rp_calibrate srt p else Some p);
     Some (if rp_maxSize p = 0 \<or> ring_Cap b \<le> int (rp_maxSize p)
       then p\<lparr>rp_pool := sync_Put (ring_Reset b) (rp_pool p)\<rparr> else p)
   }"

datatype rp_op = RGet "nat option" | RPut ring

fun rp_step :: "(callSize list \<Rightarrow> callSize list) \<Rightarrow> rbpool \<times> ring list \<Rightarrow> rp_op \<Rightarrow> (rbpool \<times> ring list) go" where
  "rp_step srt (p, out) (RGet c) = do { (p, rb) \<leftarrow> rp_Get c p; Some (p, rb # out) }"
| "rp_step srt (p, out) (RPut b) = do { p \<leftarrow> rp_Put srt p b; Some (p, out) }"

fun rp_run :: "(callSize list \<Rightarrow> callSize list) \<Rightarrow> rbpool \<times> ring list \<Rightarrow> rp_op list \<Rightarrow> (rbpool \<times> ring list) go" where
  "rp_run srt s [] = Some s"
| "rp_run srt s (x # xs) = do { s \<leftarrow> rp_step srt s x; rp_run srt s xs }"

section \<open>Size classes\<close>

lemma bits_Len_less: "n < 2 ^ bits_Len n"
proof (induction n rule: bits_Len.induct)
  case (1 n)
  show ?case
  proof (cases "n = 0")
    case False
    with 1 have "n div 2 < 2 ^ bits_Len (n div 2)" by simp
    with False show ?thesis by (subst bits_Len.simps) simp
  qed (simp add: bits_Len.simps)
qed

lemma bits_Len_le: "0 < n \<Longrightarrow> 2 ^ (bits_Len n - 1) \<le> n"
proof (induction n rule: bits_Len.induct)
  case (1 n)
  show ?case
  proof (cases "n div 2 = 0")
    case True
    with 1 show ?thesis by (subst bits_Len.simps) (simp add: bits_Len.simps [of 0])
  next
    case False
    then have "bits_Len (n div 2) = Suc (bits_Len (n div 2) - 1)" by (subst (1 2) bits_Len.simps) simp
    then have "2 ^ bits_Len (n div 2) = 2 * (2::nat) ^ (bits_Len (n div 2) - 1)" by (metis power_Suc)
    moreover have "2 ^ (bits_Len (n div 2) - 1) \<le> n div 2" using 1 False by simp
    ultimately show ?thesis using 1 by (subst bits_Len.simps) simp
  qed
qed

lemma bits_Len_bound: "n < 2 ^ k \<Longrightarrow> bits_Len n \<le> k"
proof (rule ccontr)
  assume "n < 2 ^ k" "\<not> bits_Len n \<le> k"
  then have "0 < n" by (cases n) (simp_all add: bits_Len.simps)
  then have "2 ^ (bits_Len n - 1) \<le> n" by (rule bits_Len_le)
  moreover have "(2::nat) ^ k \<le> 2 ^ (bits_Len n - 1)" using \<open>\<not> bits_Len n \<le> k\<close> by (intro power_increasing) auto
  ultimately show False using \<open>n < 2 ^ k\<close> by linarith
qed

text \<open>The class of a size is the least power of two that holds it.\<close>

lemma bs_index_fits:
  assumes "1 \<le> n"
  shows "n \<le> 2 ^ bs_index n" "1 < n \<Longrightarrow> 2 ^ (bs_index n - 1) < n"
  using bits_Len_less [of "n - 1"] bits_Len_le [of "n - 1"] assms by (auto simp: bs_index_def)

lemma bs_index_bound: "int n \<le> maxInt32 \<Longrightarrow> bs_index n < 32"
proof -
  assume "int n \<le> maxInt32"
  then have "n - 1 < 2 ^ 31" by (simp add: maxInt32_def)
  from bits_Len_bound [OF this] show ?thesis by (simp add: bs_index_def)
qed

section \<open>Slices from the pool fit their arrays\<close>

definition slice_ok :: "gslice \<Rightarrow> bool" where
  "slice_ok b \<longleftrightarrow> sl_len b \<le> sl_cap b \<and> sl_cap b \<le> sl_room b"

definition bspool_ok :: "bspool \<Rightarrow> bool" where
  "bspool_ok p \<longleftrightarrow> length p = 32 \<and> (\<forall>i < 32. \<forall>room \<in> set (p ! i). 2 ^ i \<le> room)"

lemma bs_Get_ok:
  assumes "bspool_ok p"
  shows "\<exists>p' b. bs_Get c p sz = Some (p', b) \<and> bspool_ok p' \<and> slice_ok b \<and> int (sl_len b) = max 0 sz"
proof -
  consider "sz \<le> 0" | "sz > maxInt32" "0 < sz" | "1 \<le> sz" "sz \<le> maxInt32" by linarith
  then show ?thesis
  proof cases
    case 3
    let ?i = "bs_index (nat sz)"
    have i: "?i < 32" "nat sz \<le> 2 ^ ?i"
      using 3 bs_index_bound [of "nat sz"] bs_index_fits(1) [of "nat sz"] by simp_all
    obtain r xs where r: "sync_Get c (p ! ?i) = (r, xs)" by fastforce
    from sync_Get_set [OF r] assms i(1) have "\<forall>x. r = Some x \<longrightarrow> 2 ^ ?i \<le> x" "bspool_ok (p[?i := xs])"
      by (auto simp: bspool_ok_def nth_list_update)
    with assms i 3 r show ?thesis
      by (cases r) (auto simp: bs_Get_def bspool_ok_def slice_ok_def idx_def Let_def)
  qed (use assms in \<open>auto simp: bs_Get_def slice_ok_def nil_slice_def maxInt32_def\<close>)
qed

lemma bs_Put_ok:
  assumes "bspool_ok p" "slice_ok b"
  shows "\<exists>p'. bs_Put p b = Some p' \<and> bspool_ok p'"
proof (cases "sl_cap b = 0 \<or> int (sl_cap b) > maxInt32")
  case False
  let ?i = "bs_index (sl_cap b)"
  let ?j = "if sl_cap b \<noteq> 2 ^ ?i then ?i - 1 else ?i"
  have j: "?j < 32" using bs_index_bound [of "sl_cap b"] False by auto
  have "2 ^ ?j \<le> sl_cap b" using bs_index_fits [of "sl_cap b"] False by (cases "sl_cap b = 1") (auto simp: bs_index_def bits_Len.simps)
  then have "2 ^ ?j \<le> sl_room b" using assms(2) by (simp add: slice_ok_def)
  then have "bspool_ok (p[?j := sync_Put (sl_room b) (p ! ?j)])"
    using assms(1) j by (auto simp: bspool_ok_def nth_list_update sync_Put_def)
  with False j assms(1) show ?thesis by (simp add: bs_Put_def Let_def idx_def bspool_ok_def)
qed (use assms in \<open>auto simp: bs_Put_def Let_def\<close>)

lemma bs_step_ok:
  assumes "bspool_ok p" "\<forall>b \<in> set live. slice_ok b"
  shows "\<exists>p' live'. bs_step (p, live) x = Some (p', live') \<and> bspool_ok p' \<and> (\<forall>b \<in> set live'. slice_ok b)"
proof (cases x)
  case (BGet c sz)
  with bs_Get_ok [OF assms(1), of c sz] assms(2) show ?thesis by auto
next
  case (BCut i m)
  have "slice_ok (reslice (live ! i) m)" if "i < length live"
    using assms(2) nth_mem [OF that] by (fastforce simp: slice_ok_def reslice_def intro: diff_le_mono)
  with BCut show ?thesis
    using assms by (auto dest!: set_update_subset_insert [THEN subsetD])
next
  case (BPut i)
  show ?thesis
  proof (cases "i < length live")
    case True
    with assms(2) have "slice_ok (live ! i)" by simp
    from bs_Put_ok [OF assms(1) this] obtain p' where "bs_Put p (live ! i) = Some p'" "bspool_ok p'" by blast
    moreover have "\<forall>b \<in> set (take i live @ drop (Suc i) live). slice_ok b"
      using assms(2) by (auto dest: in_set_takeD in_set_dropD)
    ultimately show ?thesis using BPut True by simp
  qed (use BPut assms in auto)
qed

lemma bs_run_ok:
  "bspool_ok p \<Longrightarrow> \<forall>b \<in> set live. slice_ok b \<Longrightarrow>
   \<exists>p' live'. bs_run (p, live) xs = Some (p', live') \<and> bspool_ok p' \<and> (\<forall>b \<in> set live'. slice_ok b)"
proof (induction xs arbitrary: p live)
  case (Cons x xs)
  from bs_step_ok [OF Cons.prems, of x] obtain p1 live1 where
    "bs_step (p, live) x = Some (p1, live1)" "bspool_ok p1" "\<forall>b \<in> set live1. slice_ok b" by blast
  with Cons.IH [of p1 live1] show ?case by simp
qed simp

section \<open>Ring buffers from the pool are empty\<close>

definition rbpool_ok :: "rbpool \<Rightarrow> bool" where
  "rbpool_ok p \<longleftrightarrow> length (rp_calls p) = rp_steps \<and> rp_defaultSize p \<le> 2 ^ 25 \<and>
     (\<forall>rb \<in> set (rp_pool p). ring_inv rb \<and> ring_abs rb = [])"

lemma rp_index_bound: "rp_index n < rp_steps"
  by (simp add: rp_index_def Let_def rp_steps_def)

lemma rp_calibrate_ok:
  assumes "rbpool_ok p" and srt: "\<And>a. mset (srt a) = mset a"
  shows "\<exists>p'. rp_calibrate srt p = Some p' \<and> rbpool_ok p'"
proof (cases "rp_calibrating p = 0")
  case True
  let ?a = "map (\<lambda>i. \<lparr>cs_calls = rp_calls p ! i, cs_size = rp_minSize * 2 ^ i\<rparr>) [0..<rp_steps]"
  have set: "set (srt ?a) = set ?a" by (rule mset_eq_setD [OF srt])
  have "length (srt ?a) = rp_steps" using mset_eq_length [OF srt, of ?a] by simp
  then have "srt ?a \<noteq> []" by (metis list.size(3) rp_steps_def zero_neq_numeral)
  then obtain a0 as where a: "srt ?a = a0 # as" by (cases "srt ?a") auto
  then have "a0 \<in> set ?a" using set by auto
  then obtain i where "i < rp_steps" "cs_size a0 = rp_minSize * 2 ^ i" by auto
  moreover from this have "(2::nat) ^ i \<le> 2 ^ 19" by (intro power_increasing) (auto simp: rp_steps_def)
  ultimately have "cs_size a0 \<le> 2 ^ 25" by (simp add: rp_minSize_def minBitSize_def)
  with True a assms(1) show ?thesis
    unfolding rp_calibrate_def rbpool_ok_def Let_def a by (simp add: idx_def)
qed (use assms in \<open>simp add: rp_calibrate_def\<close>)

lemma rp_Get_ok:
  assumes "rbpool_ok p"
  shows "\<exists>p' rb. rp_Get c p = Some (p', rb) \<and> rbpool_ok p' \<and> ring_inv rb \<and> ring_abs rb = []"
proof -
  obtain r xs where r: "sync_Get c (rp_pool p) = (r, xs)" by fastforce
  have "\<exists>rb. ring_New (int (rp_defaultSize p)) = Some rb \<and> ring_inv rb \<and> ring_abs rb = []"
    using ring_New_inv [of "int (rp_defaultSize p)"] assms by (auto simp: rbpool_ok_def)
  moreover have "rbpool_ok (p\<lparr>rp_pool := xs\<rparr>)" "\<forall>rb. r = Some rb \<longrightarrow> ring_inv rb \<and> ring_abs rb = []"
    using sync_Get_set [OF r] assms by (auto simp: rbpool_ok_def)
  ultimately show ?thesis using r by (cases r) (auto simp: rp_Get_def)
qed

lemma rp_Put_ok:
  assumes "rbpool_ok p" "ring_inv b" and srt: "\<And>a. mset (srt a) = mset a"
  shows "\<exists>p'. rp_Put srt p b = Some p' \<and> rbpool_ok p'"
proof -
  let ?i = "rp_index (ring_Len b)"
  let ?k = "(rp_calls p ! ?i + 1) mod 2 ^ 64"
  let ?p = "p\<lparr>rp_calls := (rp_calls p)[?i := ?k]\<rparr>"
  have ok: "rbpool_ok ?p" using assms(1) by (simp add: rbpool_ok_def)
  obtain p' where p': "(if ?k > calibrateCallsThreshold then rp_calibrate srt ?p else Some ?p) = Some p'" "rbpool_ok p'"
    using rp_calibrate_ok [OF ok srt] ok by (cases "?k > calibrateCallsThreshold") auto
  have "idx (rp_calls p) (int ?i) = Some (rp_calls p ! ?i)"
    using assms(1) rp_index_bound [of "ring_Len b"] by (simp add: idx_def rbpool_ok_def)
  with p' ring_Reset_inv [OF assms(2)] show ?thesis
    by (auto simp: rp_Put_def Let_def rbpool_ok_def sync_Put_def)
qed

lemma rp_run_ok:
  assumes srt: "\<And>a. mset (srt a) = mset a"
  shows "rbpool_ok p \<Longrightarrow> \<forall>b. RPut b \<in> set xs \<longrightarrow> ring_inv b \<Longrightarrow> \<forall>rb \<in> set out. ring_inv rb \<and> ring_abs rb = [] \<Longrightarrow>
   \<exists>p' out'. rp_run srt (p, out) xs = Some (p', out') \<and> rbpool_ok p' \<and> (\<forall>rb \<in> set out'. ring_inv rb \<and> ring_abs rb = [])"
proof (induction xs arbitrary: p out)
  case (Cons x xs)
  obtain p1 out1 where "rp_step srt (p, out) x = Some (p1, out1)" "rbpool_ok p1"
    "\<forall>rb \<in> set out1. ring_inv rb \<and> ring_abs rb = []"
  proof (cases x)
    case (RGet c)
    obtain p1 rb where "rp_Get c p = Some (p1, rb)" "rbpool_ok p1" "ring_inv rb" "ring_abs rb = []"
      using rp_Get_ok [OF Cons.prems(1)] by blast
    with RGet Cons.prems(3) that [of p1 "rb # out"] show ?thesis by simp
  next
    case (RPut b)
    then have "ring_inv b" using Cons.prems(2) by simp
    from rp_Put_ok [OF Cons.prems(1) this srt] obtain p1 where "rp_Put srt p b = Some p1" "rbpool_ok p1" by blast
    with RPut Cons.prems(3) that [of p1 out] show ?thesis by simp
  qed
  with Cons.IH [of p1 out1] Cons.prems(2) show ?case by simp
qed simp

section \<open>Stated properties\<close>

text \<open>
  C37: whatever sequence of gets, cuts and puts a client of the slice pool performs, nothing panics and
  every slice it holds fits its array: its capacity never promises more bytes than are there.
\<close>

theorem pool_slices_fit:
  "\<exists>p live. bs_run (bs_new, []) ops = Some (p, live) \<and>
     (\<forall>b \<in> set live. sl_len b \<le> sl_cap b \<and> sl_cap b \<le> sl_room b)"
proof -
  have "bspool_ok bs_new" by (simp add: bspool_ok_def bs_new_def)
  from bs_run_ok [OF this, of "[]" ops] show ?thesis by (auto simp: slice_ok_def)
qed

theorem pool_slices_fit_witness:
  "\<exists>p live. bs_run (bs_new, []) [BGet None 5, BCut 0 3, BPut 0, BGet (Some 0) 4] = Some (p, live) \<and>
     (\<forall>b \<in> set live. sl_len b \<le> sl_cap b \<and> sl_cap b \<le> sl_room b)"
  by (rule pool_slices_fit)

text \<open>
  C38: the ring buffers the pool hands out are empty and well-formed after any sequence of gets and
  puts of well-formed buffers, calibrations included, and the pool never panics.
\<close>

theorem pool_rings_empty:
  assumes "\<And>a. mset (srt a) = mset a" "\<forall>b. RPut b \<in> set ops \<longrightarrow> ring_inv b"
  shows "\<exists>p out. rp_run srt (rp_new, []) ops = Some (p, out) \<and> (\<forall>rb \<in> set out. ring_inv rb \<and> ring_abs rb = [])"
proof -
  have "rbpool_ok rp_new" by (simp add: rbpool_ok_def rp_new_def)
  from rp_run_ok [OF assms(1) this assms(2), of "[]"] show ?thesis by auto
qed

theorem pool_rings_empty_witness:
  "\<exists>p out. rp_run (sort_key (\<lambda>a. - int (cs_calls a))) (rp_new, []) [RGet None, RPut (ring_flat ''a'' ''bc'' ''d''), RGet (Some 0)] = Some (p, out) \<and>
     (\<forall>rb \<in> set out. ring_inv rb \<and> ring_abs rb = [])"
  by (rule pool_rings_empty) auto

end
