(* ===== verification/Proxy_State.thy ===== *)
theory Proxy_State
  imports Cluster Server_Codec Client_Codec Linked_Queue Elastic_Buffer Buffer_Pools
begin

text \<open>
  The state of the proxy, \<^verbatim>\<open>src/core/message.go\<close> and the record types of
  \<^verbatim>\<open>src/core/connection.go\<close>, \<^verbatim>\<open>src/core/redis_pool.go\<close>, \<^verbatim>\<open>src/core/gnet.go\<close> and
  \<^verbatim>\<open>src/core/eventloop.go\<close>.

  \<^item> Messages, fragments and connections are shared objects: they live in stores indexed by an address,
    and a pointer is an address. The address of a fragment is its \<open>Id\<close>, which \<open>FragPool.Get\<close> draws
    from a counter.
  \<^item> The three queues of a connection are lists of addresses, oldest first; \<open>Linked_Queue\<close> shows that
    the linked queues of the source behave like such lists. \<open>None\<close> is the nil queue of a released
    connection.
  \<^item> A Go map is an association list. The list order stands for the order in which Go happens to
    range over the map; as the theorems hold for every list they hold for every order.
  \<^item> The tree of pending timeouts is a third-party package (\<open>GoLLRB\<close>): its operations are the record
    \<open>llrb\<close>, a parameter stored in the state, with the documented behaviour as the predicate \<open>llrb_ok\<close> of \<open>Timeouts\<close>.
    So is the hash map of the cluster state. The test of the address of a new client is the function
    \<open>w_Validate\<close>; \<open>Auth_Ip\<close> models the component behind it.
  \<^item> The kernel is part of the state: the sockets, what each of them has accepted (\<open>w_wire\<close>), the
    interest registered with the poller, and the answers it will give to the coming \<open>write\<close> calls and
    connection attempts (\<open>w_io\<close>, \<open>w_dials\<close>). When the answers are used up, a \<open>write\<close> answers
    \<open>EAGAIN\<close> and a connection attempt fails; as the lists are arbitrary, so is the kernel.
  \<^item> The coming results of the random number generator are the list \<open>w_rand\<close>.
  \<^item> The clock is \<open>w_now\<close>, a time is its number of nanoseconds, the zero time is \<open>0\<close>.

  Log lines and statistics counters are left out.
\<close>

section \<open>Messages and fragments\<close>

record Msg =
  m_Owner :: "nat option"
  m_Id :: nat
  m_Body :: "(int \<times> nat) list"
  m_RspBody :: bytes
  m_Error :: bytes
  m_Fd2Slot :: "(int \<times> int) list option"
  m_Keys :: "string list"
  m_Frags :: "(int \<times> string list) list"
  m_Frags2 :: "(int \<times> (string \<times> string) list) list"
  m_FragDoneNumber :: int
  m_DelNum :: int
  m_Type :: Command
  m_Done :: bool

record Frag =
  f_Owner :: "nat option"
  f_Peer :: "nat option"
  f_Id :: nat
  f_Time :: int
  f_Timeout :: int
  f_Key :: string
  f_Error :: bytes
  f_Req :: bytes
  f_RspBody :: bytes
  f_Rsp :: "bytes list"
  f_Type :: Command
  f_Ok :: bool
  f_Done :: bool

definition new_Msg :: Msg where
  "new_Msg = \<lparr>m_Owner = None, m_Id = 0, m_Body = [], m_RspBody = [], m_Error = [], m_Fd2Slot = None,
     m_Keys = [], m_Frags = [], m_Frags2 = [], m_FragDoneNumber = 0, m_DelNum = 0, m_Type = UNKNOWN,
     m_Done = False\<rparr>"

definition new_Frag :: Frag where
  "new_Frag = \<lparr>f_Owner = None, f_Peer = None, f_Id = 0, f_Time = 0, f_Timeout = 0, f_Key = [], f_Error = [],
     f_Req = [], f_RspBody = [], f_Rsp = [], f_Type = UNKNOWN, f_Ok = False, f_Done = False\<rparr>"

section \<open>Connections and pools\<close>

datatype ConnType = ConnNone | ConnClient | ConnServer

datatype InitializeStatus = InitializeNone | Initializing | Initialized

datatype Action = NoAction | Close | Shutdown

record conn =
  c_localAddr :: "string option"
  c_remoteAddr :: "string option"
  c_outboundBuffer :: ebuf
  c_pollAttachment :: "int option"
  c_inboundBuffer :: ering
  c_buffer :: bytes
  c_fd :: int
  c_inMsgQueue :: "nat list option"
  c_inFragQueue :: "nat list option"
  c_outFragQueue :: "nat list option"
  c_opened :: bool
  c_isSlave :: bool
  c_initStep :: int
  c_initStatus :: InitializeStatus
  c_connType :: ConnType

record Pool =
  p_Addr :: string
  p_Passwd :: string
  p_maxActive :: int
  p_active :: "nat list"
  p_LiftBanOrder :: int
  p_LiftBanTime :: int
  p_AutoBanFlag :: bool
  p_isSlave :: bool
  p_closed :: bool

section \<open>The kernel and the third-party tree\<close>

text \<open>
  The kernel's answer to a \<open>write\<close>: at most so many bytes and at least one, \<open>EAGAIN\<close>, or another error.
\<close>

datatype io_answer = Sent nat | Again | Fails nat

datatype errno = EAGAIN | EBADF | Errno nat

datatype interest = ReadOnly | WriteOnly | ReadWrite

text \<open>The errors that travel through the event loop.\<close>

datatype loop_err = SyscallError errno | PollError | EngineShutdown | DialError

datatype task =
    WriteSignal nat
  | WriteClusterNodes nat
  | AsyncWrite nat bytes
  | AsyncWritev nat "bytes list"
  | CloseTask nat

record 't llrb =
  lr_ReplaceOrInsert :: "int \<times> nat \<Rightarrow> 't \<Rightarrow> 't"
  lr_Delete :: "int \<Rightarrow> 't \<Rightarrow> 't"
  lr_DeleteMin :: "'t \<Rightarrow> (int \<times> nat) option \<times> 't"
  lr_Min :: "'t \<Rightarrow> (int \<times> nat) option"

section \<open>The state\<close>

record config =
  g_WriteBufferCap :: int
  g_MsgMaxLength :: int
  g_RedisRequestTimeout :: int
  g_RedisServerConnections :: int
  g_RedisPasswd :: string
  g_Password :: string
  g_DisableSlave :: bool
  g_ServerRetryTimeout :: int

record 't store =
  w_msgs :: "nat \<Rightarrow> Msg"
  w_nmsg :: nat
  w_msgPool :: "nat list"
  w_picks :: "nat option list"
  w_msgId :: nat
  w_frags :: "nat \<Rightarrow> Frag"
  w_fragId :: nat
  w_timeoutTree :: 't
  w_llrb :: "'t llrb"

record 't net = "'t store" +
  w_conns :: "nat \<Rightarrow> conn"
  w_nconn :: nat
  w_connections :: "int \<Rightarrow> nat option"
  w_poll :: "int \<Rightarrow> interest option"
  w_sockets :: "int \<Rightarrow> nat option"
  w_wire :: "nat \<Rightarrow> bytes"
  w_io :: "io_answer list"
  w_dials :: "(int \<times> string) option list"
  w_tasks :: "task list"
  w_now :: int
  w_mem :: bytes

record ('t, 'h) world = "'t net" +
  w_cConnCount :: int
  w_sConnCount :: int
  w_nextTicker :: int
  w_clusterChan :: "bytes list"
  w_ProxyPool :: "(string \<times> Pool) list"
  w_ProxyAddrs :: "string list"
  w_Slots2Node :: slotReplicaset
  w_ClusterNodes :: "'h ClusterNodes"
  w_hashmap :: "'h hashmap"
  w_authCmd :: string
  w_Validate :: "string \<Rightarrow> bool"
  w_rand :: "nat list"
  w_cfg :: config

end
