(* ===== verification/Messages.thy ===== *)
theory Messages
  imports Proxy_State
begin

text \<open>
  The operations on messages, fragments and pending timeouts, \<^verbatim>\<open>src/core/message.go\<close>.
\<close>

section \<open>Access to the shared objects\<close>

abbreviation msg_at :: "('t, 'a) store_scheme \<Rightarrow> nat \<Rightarrow> Msg" where
  "msg_at w m \<equiv> w_msgs w m"

abbreviation frag_at :: "('t, 'a) store_scheme \<Rightarrow> nat \<Rightarrow> Frag" where
  "frag_at w f \<equiv> w_frags w f"

definition upd_msg :: "nat \<Rightarrow> (Msg \<Rightarrow> Msg) \<Rightarrow> ('t, 'a) store_scheme \<Rightarrow> ('t, 'a) store_scheme" where
  "upd_msg m g w = w\<lparr>w_msgs := (w_msgs w)(m := g (w_msgs w m))\<rparr>"

definition upd_frag :: "nat \<Rightarrow> (Frag \<Rightarrow> Frag) \<Rightarrow> ('t, 'a) store_scheme \<Rightarrow> ('t, 'a) store_scheme" where
  "upd_frag f g w = w\<lparr>w_frags := (w_frags w)(f := g (w_frags w f))\<rparr>"

section \<open>Pools of messages and fragments\<close>

text \<open>
  \<open>MsgPool.Get\<close>: a message that was put back, or a new one. The choice of the runtime is the next
  element of \<open>w_picks\<close>; without one a new message is allocated.
\<close>

definition MsgPool_Get :: "('t, 'a) store_scheme \<Rightarrow> ('t, 'a) store_scheme \<times> nat" where
  "MsgPool_Get w =
     (case sync_Get (case w_picks w of [] \<Rightarrow> None | c # _ \<Rightarrow> c) (w_msgPool w) of
        (Some m, ms) \<Rightarrow> (w\<lparr>w_picks := drop 1 (w_picks w), w_msgPool := ms\<rparr>, m)
      | (None, _) \<Rightarrow>
          (w\<lparr>w_picks := drop 1 (w_picks w), w_msgs := (w_msgs w)(w_nmsg w := new_Msg),
             w_nmsg := Suc (w_nmsg w)\<rparr>, w_nmsg w))"

definition Msg_reset :: "Msg \<Rightarrow> Msg" where
  "Msg_reset m = m\<lparr>m_Id := 0, m_Type := UNKNOWN, m_Owner := None, m_Body := [], m_RspBody := [],
     m_Done := False, m_Error := [], m_Fd2Slot := None, m_Keys := [], m_Frags := [], m_Frags2 := [],
     m_FragDoneNumber := 0, m_DelNum := 0\<rparr>"

definition MsgPool_Put :: "nat option \<Rightarrow> ('t, 'a) store_scheme \<Rightarrow> ('t, 'a) store_scheme" where
  "MsgPool_Put m w =
     (case m of
        None \<Rightarrow> w
      | Some m \<Rightarrow> (upd_msg m Msg_reset w)\<lparr>w_msgPool := sync_Put m (w_msgPool w)\<rparr>)"

definition FragPool_Get :: "int \<Rightarrow> ('t, 'a) store_scheme \<Rightarrow> ('t, 'a) store_scheme \<times> nat" where
  "FragPool_Get now w =
     (let f = Suc (w_fragId w) in
      (w\<lparr>w_fragId := f, w_frags := (w_frags w)(f := new_Frag\<lparr>f_Id := f, f_Time := now\<rparr>)\<rparr>, f))"

section \<open>Reading messages and fragments\<close>

definition Frag_MsgId :: "('t, 'a) store_scheme \<Rightarrow> Frag \<Rightarrow> nat" where
  "Frag_MsgId w f = (case f_Peer f of None \<Rightarrow> 0 | Some m \<Rightarrow> m_Id (w_msgs w m))"

definition Frag_MsgType :: "('t, 'a) store_scheme \<Rightarrow> Frag \<Rightarrow> Command" where
  "Frag_MsgType w f = (case f_Peer f of None \<Rightarrow> UNKNOWN | Some m \<Rightarrow> m_Type (w_msgs w m))"

definition Frag_OwnerFd :: "(nat \<Rightarrow> conn) \<Rightarrow> Frag \<Rightarrow> int" where
  "Frag_OwnerFd conns f = (case f_Owner f of None \<Rightarrow> -1 | Some c \<Rightarrow> c_fd (conns c))"

text \<open>The readable form of a RESP text: without \<open>CR\<close>, with a blank for \<open>LF\<close>.\<close>

fun show_bytes :: "bytes \<Rightarrow> bytes" where
  "show_bytes [] = []"
| "show_bytes (b # bs) =
     (if b = CR then show_bytes bs else if b = LF then CHR '' '' # show_bytes bs else b # show_bytes bs)"

definition show_text :: "bytes \<Rightarrow> string" where
  "show_text bs = (if length bs < 1 then [] else ''[ '' @ show_bytes bs @ '']'')"

definition Frag_ReqString :: "Frag option \<Rightarrow> string" where
  "Frag_ReqString f = (case f of None \<Rightarrow> [] | Some f \<Rightarrow> show_text (f_Req f))"

definition Frag_RspBodyString :: "Frag option \<Rightarrow> string" where
  "Frag_RspBodyString f = (case f of None \<Rightarrow> [] | Some f \<Rightarrow> show_text (f_RspBody f))"

definition Msg_RspBodyString :: "Msg option \<Rightarrow> string" where
  "Msg_RspBodyString m = (case m of None \<Rightarrow> [] | Some m \<Rightarrow> show_text (m_RspBody m))"

text \<open>\<open>strconv.FormatUint(uint64(slot), 10)\<close> of a slot, which is at least zero.\<close>

definition Msg_BodyString :: "('t, 'a) store_scheme \<Rightarrow> Msg option \<Rightarrow> string" where
  "Msg_BodyString w m =
     (case m of
        None \<Rightarrow> []
      | Some m \<Rightarrow>
          if length (m_Body m) < 1 then []
          else ''['' @ concat (map (\<lambda>(slot, f).
                 ''{ '' @ itoa_nat (nat (slot mod 2 ^ 64)) @ '' => '' @ show_bytes (f_Req (w_frags w f)) @ ''}'') (m_Body m))
               @ '']'')"

text \<open>
  The new address and the slot of a redirection \<open>-MOVED 3999 127.0.0.1:6381\<close> or
  \<open>-ASK 3999 127.0.0.1:6381\<close>; a slot that is not a number is read as the value \<open>ParseUint\<close>
  returns beside its error.
\<close>

definition parseMovedOrAsk :: "Frag \<Rightarrow> (string \<times> int) go" where
  "parseMovedOrAsk f =
     (if length (f_RspBody f) < 10 then Some ([], 0)
      else if f_Type f = RspMoved \<or> f_Type f = RspAsk then do {
        let i = (if f_Type f = RspMoved then 7 else 5);
        s \<leftarrow> slice (f_RspBody f) i (int (length (f_RspBody f)) - 2);
        let l = Split s '' '';
        (if length l < 2 then Some ([], 0)
         else Some (l ! 1, wrap32 (int (fst (ParseUint (l ! 0) True 64)))))
      }
      else Some ([], 0))"

section \<open>Pending timeouts\<close>

definition Frag_Less :: "Frag \<Rightarrow> Frag \<Rightarrow> bool" where
  "Frag_Less f g \<longleftrightarrow> f_Timeout f < f_Timeout g"

definition Millisecond :: int where "Millisecond = 1000000"

definition pushToTimeoutQueue :: "int \<Rightarrow> nat \<Rightarrow> int \<Rightarrow> ('t, 'a) store_scheme \<Rightarrow> ('t, 'a) store_scheme" where
  "pushToTimeoutQueue now f timeout w =
     (if timeout \<le> 0 then w
      else if f_Owner (w_frags w f) = None \<or> f_Peer (w_frags w f) = None then w
      else
        (let t = now + wrap64 (timeout * Millisecond); w = upd_frag f (\<lambda>x. x\<lparr>f_Timeout := t\<rparr>) w in
         w\<lparr>w_timeoutTree := lr_ReplaceOrInsert (w_llrb w) (t, f) (w_timeoutTree w)\<rparr>))"

definition popFromTimeoutQueue :: "('t, 'a) store_scheme \<Rightarrow> ('t, 'a) store_scheme \<times> nat option" where
  "popFromTimeoutQueue w =
     (case lr_DeleteMin (w_llrb w) (w_timeoutTree w) of (x, t) \<Rightarrow> (w\<lparr>w_timeoutTree := t\<rparr>, map_option snd x))"

definition getFromTimeoutQueue :: "('t, 'a) store_scheme \<Rightarrow> nat option" where
  "getFromTimeoutQueue w = map_option snd (lr_Min (w_llrb w) (w_timeoutTree w))"

definition deleteFromTimeoutQueue :: "nat \<Rightarrow> ('t, 'a) store_scheme \<Rightarrow> ('t, 'a) store_scheme" where
  "deleteFromTimeoutQueue f w =
     w\<lparr>w_timeoutTree := lr_Delete (w_llrb w) (f_Timeout (w_frags w f)) (w_timeoutTree w)\<rparr>"

definition deleteMinFromTimeoutQueue :: "('t, 'a) store_scheme \<Rightarrow> ('t, 'a) store_scheme" where
  "deleteMinFromTimeoutQueue w = w\<lparr>w_timeoutTree := snd (lr_DeleteMin (w_llrb w) (w_timeoutTree w))\<rparr>"

end
