(* ===== verification/Connection.thy ===== *)
theory Connection
  imports Messages
begin

text \<open>
  Connections, \<^verbatim>\<open>src/core/connection.go\<close>, with the operations of \<^verbatim>\<open>src/core/eventloop.go\<close>
  that close a connection and drain its output buffer, the poller registrations of
  \<^verbatim>\<open>src/core/internal/netpoll\<close> (epoll) and \<open>Writev\<close> of \<^verbatim>\<open>src/core/internal/io\<close>.

  A connection is named by its address. The completion callback of the asynchronous writes is nil
  everywhere in the program and is left out, and so is the recycling of the memory of socket addresses.
\<close>

type_synonym ('t, 'h) W = "('t, 'h) world"

section \<open>The kernel\<close>

definition upd_conn :: "nat \<Rightarrow> (conn \<Rightarrow> conn) \<Rightarrow> ('t, 'h) W \<Rightarrow> ('t, 'h) W" where
  "upd_conn a g w = w\<lparr>w_conns := (w_conns w)(a := g (w_conns w a))\<rparr>"

text \<open>\<open>unix.Write\<close>: the count is \<open>-1\<close> beside an error.\<close>

definition sys_write :: "int \<Rightarrow> bytes \<Rightarrow> ('t, 'h) W \<Rightarrow> ('t, 'h) W \<times> int \<times> errno option" where
  "sys_write fd data w =
     (case w_sockets w fd of
        None \<Rightarrow> (w, -1, Some EBADF)
      | Some s \<Rightarrow>
          if data = [] then (w, 0, None)
          else case w_io w of
            [] \<Rightarrow> (w, -1, Some EAGAIN)
          | Again # io \<Rightarrow> (w\<lparr>w_io := io\<rparr>, -1, Some EAGAIN)
          | Fails e # io \<Rightarrow> (w\<lparr>w_io := io\<rparr>, -1, Some (Errno e))
          | Sent k # io \<Rightarrow>
              (w\<lparr>w_io := io, w_wire := (w_wire w)(s := w_wire w s @ take (Suc k) data)\<rparr>,
               int (length (take (Suc k) data)), None))"

definition EINVAL :: errno where "EINVAL = Errno 22"

definition io_Writev :: "int \<Rightarrow> bytes list \<Rightarrow> ('t, 'h) W \<Rightarrow> ('t, 'h) W \<times> int \<times> errno option" where
  "io_Writev fd bs w =
     (if length bs = 0 then (w, 0, None)
      else if length bs > 1024 then (w, -1, Some EINVAL)
      else sys_write fd (concat bs) w)"

text \<open>The registrations with epoll: adding a descriptor twice and changing an unknown one are errors.\<close>

definition poll_fd :: "nat \<Rightarrow> ('t, 'h) W \<Rightarrow> int go" where
  "poll_fd a w = c_pollAttachment (w_conns w a)"

definition epoll_add :: "interest \<Rightarrow> int \<Rightarrow> ('t, 'h) W \<Rightarrow> ('t, 'h) W \<times> loop_err option" where
  "epoll_add i fd w =
     (if w_poll w fd = None then (w\<lparr>w_poll := (w_poll w)(fd := Some i)\<rparr>, None) else (w, Some PollError))"

definition epoll_mod :: "interest \<Rightarrow> int \<Rightarrow> ('t, 'h) W \<Rightarrow> ('t, 'h) W \<times> loop_err option" where
  "epoll_mod i fd w =
     (if w_poll w fd \<noteq> None then (w\<lparr>w_poll := (w_poll w)(fd := Some i)\<rparr>, None) else (w, Some PollError))"

definition AddReadWrite :: "nat \<Rightarrow> ('t, 'h) W \<Rightarrow> (('t, 'h) W \<times> loop_err option) go" where
  "AddReadWrite a w = do { fd \<leftarrow> poll_fd a w; Some (epoll_add ReadWrite fd w) }"

definition AddRead :: "nat \<Rightarrow> ('t, 'h) W \<Rightarrow> (('t, 'h) W \<times> loop_err option) go" where
  "AddRead a w = do { fd \<leftarrow> poll_fd a w; Some (epoll_add ReadOnly fd w) }"

definition AddWrite :: "nat \<Rightarrow> ('t, 'h) W \<Rightarrow> (('t, 'h) W \<times> loop_err option) go" where
  "AddWrite a w = do { fd \<leftarrow> poll_fd a w; Some (epoll_add WriteOnly fd w) }"

definition ModRead :: "nat \<Rightarrow> ('t, 'h) W \<Rightarrow> (('t, 'h) W \<times> loop_err option) go" where
  "ModRead a w = do { fd \<leftarrow> poll_fd a w; Some (epoll_mod ReadOnly fd w) }"

definition ModReadWrite :: "nat \<Rightarrow> ('t, 'h) W \<Rightarrow> (('t, 'h) W \<times> loop_err option) go" where
  "ModReadWrite a w = do { fd \<leftarrow> poll_fd a w; Some (epoll_mod ReadWrite fd w) }"

definition poll_Delete :: "int \<Rightarrow> ('t, 'h) W \<Rightarrow> ('t, 'h) W \<times> loop_err option" where
  "poll_Delete fd w =
     (w\<lparr>w_poll := (w_poll w)(fd := None)\<rparr>, if w_poll w fd = None then Some PollError else None)"

definition sys_close :: "int \<Rightarrow> ('t, 'h) W \<Rightarrow> ('t, 'h) W \<times> loop_err option" where
  "sys_close fd w =
     (w\<lparr>w_sockets := (w_sockets w)(fd := None), w_poll := (w_poll w)(fd := None)\<rparr>,
      if w_sockets w fd = None then Some (SyscallError EBADF) else None)"

text \<open>
  \<open>Poller.Trigger\<close>: the task joins the queue of the event loop. The write to the event descriptor
  that wakes the loop is not modelled.
\<close>

definition Trigger :: "task \<Rightarrow> ('t, 'h) W \<Rightarrow> ('t, 'h) W" where
  "Trigger t w = w\<lparr>w_tasks := w_tasks w @ [t]\<rparr>"

section \<open>Creating and releasing connections\<close>

text \<open>
  \<open>newTCPConn\<close>. \<open>elastic.New\<close> refuses a limit that is not positive; the nil buffer it returns then is
  dereferenced as soon as the connection opens.
\<close>

definition newTCPConn ::
  "int \<Rightarrow> string option \<Rightarrow> string option \<Rightarrow> ConnType \<Rightarrow> InitializeStatus \<Rightarrow> bool \<Rightarrow> ('t, 'h) W \<Rightarrow> (('t, 'h) W \<times> nat) go" where
  "newTCPConn fd localAddr remoteAddr connType status isSlave w = do {
     out \<leftarrow> eb_New (g_WriteBufferCap (w_cfg w));
     let a = w_nconn w;
     let c = \<lparr>c_localAddr = localAddr, c_remoteAddr = remoteAddr, c_outboundBuffer = out, c_pollAttachment = Some fd,
              c_inboundBuffer = None, c_buffer = [], c_fd = fd, c_inMsgQueue = Some [], c_inFragQueue = Some [],
              c_outFragQueue = Some [], c_opened = False, c_isSlave = isSlave, c_initStep = 0,
              c_initStatus = status, c_connType = connType\<rparr>;
     Some (w\<lparr>w_conns := (w_conns w)(a := c), w_nconn := Suc a\<rparr>, a)
   }"

definition releaseTCP :: "nat \<Rightarrow> ('t, 'h) W \<Rightarrow> ('t, 'h) W go" where
  "releaseTCP a w = do {
     let c = w_conns w a;
     out \<leftarrow> eb_Release (c_outboundBuffer c);
     Some (upd_conn a (\<lambda>c. c\<lparr>c_opened := False, c_buffer := [], c_localAddr := None, c_remoteAddr := None,
       c_inboundBuffer := er_Done (c_inboundBuffer c), c_outboundBuffer := out, c_pollAttachment := None,
       c_initStep := -1, c_initStatus := InitializeNone, c_isSlave := False, c_connType := ConnNone,
       c_inMsgQueue := None, c_inFragQueue := None, c_outFragQueue := None\<rparr>) w)
   }"

definition LocalAddr :: "conn \<Rightarrow> string" where
  "LocalAddr c = (case c_localAddr c of None \<Rightarrow> ''-'' | Some s \<Rightarrow> s)"

definition RemoteAddr :: "conn \<Rightarrow> string" where
  "RemoteAddr c = (case c_remoteAddr c of None \<Rightarrow> ''-'' | Some s \<Rightarrow> s)"

section \<open>The queues of a connection\<close>

definition EnqueueInMsg :: "nat \<Rightarrow> nat \<Rightarrow> ('t, 'h) W \<Rightarrow> ('t, 'h) W go" where
  "EnqueueInMsg a m w = do {
     q \<leftarrow> c_inMsgQueue (w_conns w a);
     Some (upd_conn a (\<lambda>c. c\<lparr>c_inMsgQueue := Some (q @ [m])\<rparr>) w)
   }"

definition enqueueInFrag :: "nat \<Rightarrow> nat \<Rightarrow> ('t, 'h) W \<Rightarrow> ('t, 'h) W go" where
  "enqueueInFrag a f w = do {
     q \<leftarrow> c_inFragQueue (w_conns w a);
     let w = upd_conn a (\<lambda>c. c\<lparr>c_inFragQueue := Some (q @ [f])\<rparr>) w;
     Some (pushToTimeoutQueue (w_now w) f (g_RedisRequestTimeout (w_cfg w)) w)
   }"

definition sendWriteSignal :: "nat \<Rightarrow> ('t, 'h) W \<Rightarrow> ('t, 'h) W" where
  "sendWriteSignal a w = Trigger (WriteSignal a) w"

definition EnqueueOutFrag :: "nat \<Rightarrow> nat \<Rightarrow> ('t, 'h) W \<Rightarrow> ('t, 'h) W go" where
  "EnqueueOutFrag a f w = do {
     q \<leftarrow> c_outFragQueue (w_conns w a);
     Some (sendWriteSignal a (upd_conn a (\<lambda>c. c\<lparr>c_outFragQueue := Some (q @ [f])\<rparr>) w))
   }"

definition DequeueInFrag :: "nat \<Rightarrow> ('t, 'h) W \<Rightarrow> (('t, 'h) W \<times> nat option) go" where
  "DequeueInFrag a w = do {
     q \<leftarrow> c_inFragQueue (w_conns w a);
     (case q of
        [] \<Rightarrow> Some (w, None)
      | f # fs \<Rightarrow>
          let w = upd_conn a (\<lambda>c. c\<lparr>c_inFragQueue := Some fs\<rparr>) w in
          Some (deleteFromTimeoutQueue f w, Some f))
   }"

definition dequeueOutFrag :: "nat \<Rightarrow> ('t, 'h) W \<Rightarrow> ('t, 'h) W go" where
  "dequeueOutFrag a w = do {
     q \<leftarrow> c_outFragQueue (w_conns w a);
     Some (upd_conn a (\<lambda>c. c\<lparr>c_outFragQueue := Some (drop 1 q)\<rparr>) w)
   }"

definition dequeueInMsg :: "nat \<Rightarrow> ('t, 'h) W \<Rightarrow> (('t, 'h) W \<times> nat option) go" where
  "dequeueInMsg a w = do {
     q \<leftarrow> c_inMsgQueue (w_conns w a);
     (case q of
        [] \<Rightarrow> Some (w, None)
      | m # ms \<Rightarrow> Some (upd_conn a (\<lambda>c. c\<lparr>c_inMsgQueue := Some ms\<rparr>) w, Some m))
   }"

section \<open>Closing a connection\<close>

text \<open>
  \<open>OnSClosed\<close> of \<^verbatim>\<open>src/core/server/server_s.go\<close>: the fragments that wait for a reply of a closed redis
  connection are dropped. The test of the loop reads \<open>frag.Peer.Done\<close> only for a log line.
\<close>

partial_function (option) OnSClosed :: "nat \<Rightarrow> ('t, 'h) W \<Rightarrow> ('t, 'h) W option" where
  "OnSClosed s w = do {
     (w, f) \<leftarrow> DequeueInFrag s w;
     (case f of
        None \<Rightarrow> Some w
      | Some f \<Rightarrow>
          (case f_Owner (w_frags w f) of
             None \<Rightarrow> OnSClosed s w
           | Some c \<Rightarrow>
               if \<not> c_opened (w_conns w c) \<or> f_Done (w_frags w f) then OnSClosed s w
               else do { _ \<leftarrow> f_Peer (w_frags w f); OnSClosed s w }))
   }"

text \<open>The loop of \<open>closeConn\<close> that sends the residual data.\<close>

definition iovMax :: nat where "iovMax = 1024"

partial_function (option) flush_residual :: "nat \<Rightarrow> ('t, 'h) W \<Rightarrow> ('t, 'h) W option" where
  "flush_residual a w =
     (if eb_IsEmpty (c_outboundBuffer (w_conns w a)) then Some w
      else do {
        (out, iov) \<leftarrow> eb_Peek (c_outboundBuffer (w_conns w a)) 0;
        let w = upd_conn a (\<lambda>c. c\<lparr>c_outboundBuffer := out\<rparr>) w;
        (case io_Writev (c_fd (w_conns w a)) (take iovMax iov) w of
           (w, n, Some e) \<Rightarrow> Some w
         | (w, n, None) \<Rightarrow> do {
             (out, _, _) \<leftarrow> eb_Discard (c_outboundBuffer (w_conns w a)) n;
             flush_residual a (upd_conn a (\<lambda>c. c\<lparr>c_outboundBuffer := out\<rparr>) w)
           })
      })"

definition addCConn :: "int \<Rightarrow> ('t, 'h) W \<Rightarrow> ('t, 'h) W" where
  "addCConn delta w = w\<lparr>w_cConnCount := wrap32 (w_cConnCount w + delta)\<rparr>"

definition addSConn :: "int \<Rightarrow> ('t, 'h) W \<Rightarrow> ('t, 'h) W" where
  "addSConn delta w = w\<lparr>w_sConnCount := wrap32 (w_sConnCount w + delta)\<rparr>"

text \<open>
  \<open>closeConn\<close>; the cause and the kind of the close only appear in log lines and statistics. When both
  the poller and the kernel report an error, the model keeps the first.
\<close>

definition closeConn :: "nat \<Rightarrow> ('t, 'h) W \<Rightarrow> (('t, 'h) W \<times> loop_err option) go" where
  "closeConn a w =
     (if \<not> c_opened (w_conns w a) then Some (w, None)
      else do {
        w \<leftarrow> flush_residual a w;
        let fd = c_fd (w_conns w a);
        let (w, err0) = poll_Delete fd w;
        let (w, err1) = sys_close fd w;
        let rerr = (case err0 of Some e \<Rightarrow> Some e | None \<Rightarrow> err1);
        let w = w\<lparr>w_connections := (w_connections w)(fd := None)\<rparr>;
        w \<leftarrow> (case c_connType (w_conns w a) of
           ConnClient \<Rightarrow> Some (addCConn (-1) w)
         | ConnServer \<Rightarrow> do { w \<leftarrow> OnSClosed a w; Some (addSConn (-1) w) }
         | ConnNone \<Rightarrow> Some w);
        w \<leftarrow> releaseTCP a w;
        Some (w, rerr)
      })"

section \<open>Writing\<close>

definition buf_Write :: "nat \<Rightarrow> bytes \<Rightarrow> ('t, 'h) W \<Rightarrow> ('t, 'h) W go" where
  "buf_Write a data w = do {
     (out, _) \<leftarrow> eb_Write (w_mem w) (ring_empty (w_mem w)) (c_outboundBuffer (w_conns w a)) data;
     Some (upd_conn a (\<lambda>c. c\<lparr>c_outboundBuffer := out\<rparr>) w)
   }"

definition buf_Writev :: "nat \<Rightarrow> bytes list \<Rightarrow> ('t, 'h) W \<Rightarrow> ('t, 'h) W go" where
  "buf_Writev a bs w = do {
     (out, _) \<leftarrow> eb_Writev (w_mem w) (ring_empty (w_mem w)) (c_outboundBuffer (w_conns w a)) bs;
     Some (upd_conn a (\<lambda>c. c\<lparr>c_outboundBuffer := out\<rparr>) w)
   }"

definition conn_open :: "nat \<Rightarrow> bytes \<Rightarrow> ('t, 'h) W \<Rightarrow> (('t, 'h) W \<times> loop_err option) go" where
  "conn_open a buf w =
     (case sys_write (c_fd (w_conns w a)) buf w of (w, n, err) \<Rightarrow>
        if err = Some EAGAIN then do { w \<leftarrow> buf_Write a buf w; Some (w, None) }
        else if err = None \<and> n < int (length buf) then do {
          rest \<leftarrow> slice buf n (int (length buf));
          w \<leftarrow> buf_Write a rest w;
          Some (w, None)
        }
        else Some (w, map_option SyscallError err))"

definition conn_write :: "nat \<Rightarrow> bytes \<Rightarrow> ('t, 'h) W \<Rightarrow> (('t, 'h) W \<times> int \<times> loop_err option) go" where
  "conn_write a data w =
     (let n = int (length data) in
      if \<not> eb_IsEmpty (c_outboundBuffer (w_conns w a)) then do {
        w \<leftarrow> buf_Write a data w;
        Some (w, n, None)
      }
      else case sys_write (c_fd (w_conns w a)) data w of
        (w, sent, Some e) \<Rightarrow>
          if e = EAGAIN then do {
            w \<leftarrow> buf_Write a data w;
            (w, err) \<leftarrow> ModReadWrite a w;
            Some (w, n, err)
          }
          else do { (w, err) \<leftarrow> closeConn a w; Some (w, -1, err) }
      | (w, sent, None) \<Rightarrow>
          if sent < n then do {
            rest \<leftarrow> slice data sent n;
            w \<leftarrow> buf_Write a rest w;
            (w, err) \<leftarrow> ModReadWrite a w;
            Some (w, n, err)
          }
          else Some (w, n, None))"

text \<open>The slices that are left after \<open>sent\<close> bytes: \<open>bs[pos:]\<close> after the loop of \<open>writev\<close>.\<close>

fun left_over :: "int \<Rightarrow> bytes list \<Rightarrow> bytes list option" where
  "left_over sent [] = None"
| "left_over sent (b # bs) =
     (if sent < int (length b) then Some (drop (nat sent) b # bs)
      else left_over (sent - int (length b)) bs)"

definition conn_writev :: "nat \<Rightarrow> bytes list \<Rightarrow> ('t, 'h) W \<Rightarrow> (('t, 'h) W \<times> int \<times> loop_err option) go" where
  "conn_writev a bs w =
     (let n = int (length (concat bs)) in
      if \<not> eb_IsEmpty (c_outboundBuffer (w_conns w a)) then do {
        w \<leftarrow> buf_Writev a bs w;
        Some (w, n, None)
      }
      else case io_Writev (c_fd (w_conns w a)) bs w of
        (w, sent, Some e) \<Rightarrow>
          if e = EAGAIN then do {
            w \<leftarrow> buf_Writev a bs w;
            (w, err) \<leftarrow> ModReadWrite a w;
            Some (w, n, err)
          }
          else do { (w, err) \<leftarrow> closeConn a w; Some (w, -1, err) }
      | (w, sent, None) \<Rightarrow>
          if sent < n then do {
            w \<leftarrow> buf_Writev a (case left_over sent bs of Some r \<Rightarrow> r | None \<Rightarrow> bs) w;
            (w, err) \<leftarrow> ModReadWrite a w;
            Some (w, n, err)
          }
          else Some (w, n, None))"

text \<open>\<open>eventloop.write\<close>: a writable event.\<close>

definition loop_write :: "nat \<Rightarrow> ('t, 'h) W \<Rightarrow> (('t, 'h) W \<times> loop_err option) go" where
  "loop_write a w = do {
     (out, iov) \<leftarrow> eb_Peek (c_outboundBuffer (w_conns w a)) (-1);
     let w = upd_conn a (\<lambda>c. c\<lparr>c_outboundBuffer := out\<rparr>) w;
     (w, n, err) \<leftarrow>
       (if length iov > 1 then Some (io_Writev (c_fd (w_conns w a)) (take iovMax iov) w)
        else do { b \<leftarrow> idx iov 0; Some (sys_write (c_fd (w_conns w a)) b w) });
     (out, _, _) \<leftarrow> eb_Discard (c_outboundBuffer (w_conns w a)) n;
     let w = upd_conn a (\<lambda>c. c\<lparr>c_outboundBuffer := out\<rparr>) w;
     (case err of
        Some e \<Rightarrow> if e = EAGAIN then Some (w, None) else closeConn a w
      | None \<Rightarrow>
          if eb_IsEmpty (c_outboundBuffer (w_conns w a)) then do { (w, _) \<leftarrow> ModRead a w; Some (w, None) }
          else Some (w, None))
   }"

definition conn_Flush :: "nat \<Rightarrow> ('t, 'h) W \<Rightarrow> (('t, 'h) W \<times> loop_err option) go" where
  "conn_Flush a w = (if eb_IsEmpty (c_outboundBuffer (w_conns w a)) then Some (w, None) else loop_write a w)"

section \<open>Asynchronous writes and the write signal\<close>

definition asyncWrite :: "nat \<Rightarrow> bytes \<Rightarrow> ('t, 'h) W \<Rightarrow> (('t, 'h) W \<times> loop_err option) go" where
  "asyncWrite a data w =
     (if \<not> c_opened (w_conns w a) then Some (w, None)
      else do { (w, _, err) \<leftarrow> conn_write a data w; Some (w, err) })"

definition asyncWritev :: "nat \<Rightarrow> bytes list \<Rightarrow> ('t, 'h) W \<Rightarrow> (('t, 'h) W \<times> loop_err option) go" where
  "asyncWritev a bs w =
     (if \<not> c_opened (w_conns w a) then Some (w, None)
      else do { (w, _, err) \<leftarrow> conn_writev a bs w; Some (w, err) })"

text \<open>The first loop of \<open>handleWriteSignal\<close>, over the content of \<open>outFragQueue\<close>.\<close>

fun take_out_frags :: "nat \<Rightarrow> nat list \<Rightarrow> ('t, 'h) W \<Rightarrow> bytes list \<Rightarrow> (('t, 'h) W \<times> bytes list) go" where
  "take_out_frags a [] w bs = Some (w, bs)"
| "take_out_frags a (f # fs) w bs = do {
     w \<leftarrow> dequeueOutFrag a w;
     w \<leftarrow> enqueueInFrag a f w;
     take_out_frags a fs w (bs @ [f_Req (w_frags w f)])
   }"

text \<open>
  The loop that writes at most \<open>iovMax\<close> slices at a time, also used for the replies to a client: it
  returns the slices that are left when a write failed.
\<close>

function write_batches :: "nat \<Rightarrow> bytes list \<Rightarrow> ('t, 'h) W \<Rightarrow> (('t, 'h) W \<times> bytes list \<times> loop_err option) go" where
  "write_batches a bs w =
     (if bs = [] then Some (w, bs, None)
      else do {
        let r = min (length bs) iovMax;
        (w, _, err) \<leftarrow> conn_writev a (take r bs) w;
        (if err \<noteq> None then Some (w, bs, err)
         else if \<not> c_opened (w_conns w a) then Some (w, bs, None)
         else write_batches a (drop r bs) w)
      })"
  by pat_completeness auto
termination
  by (relation "measure (\<lambda>(a, bs, w). length bs)") (auto simp: iovMax_def)

declare write_batches.simps [simp del]

definition handleWriteSignal :: "nat \<Rightarrow> ('t, 'h) W \<Rightarrow> (('t, 'h) W \<times> loop_err option) go" where
  "handleWriteSignal a w =
     (if \<not> c_opened (w_conns w a) then Some (w, None)
      else case c_outFragQueue (w_conns w a) of
        None \<Rightarrow> Some (w, None)
      | Some q \<Rightarrow>
          if length q < 1 then Some (w, None)
          else do {
            (w, bs) \<leftarrow> take_out_frags a q w [];
            (w, bs, _) \<leftarrow> write_batches a bs w;
            (w, _, err) \<leftarrow> conn_writev a bs w;
            Some (w, err)
          })"

definition ReqClusterNodes :: bytes where
  "ReqClusterNodes = ''*2'' @ CRLF @ ''$7'' @ CRLF @ ''cluster'' @ CRLF @ ''$5'' @ CRLF @ ''nodes'' @ CRLF"

definition writeClusterNodes :: "nat \<Rightarrow> ('t, 'h) W \<Rightarrow> ('t, 'h) W go" where
  "writeClusterNodes a w =
     (if \<not> c_opened (w_conns w a) then Some w
      else
        let (w, f) = FragPool_Get (w_now w) w;
            w = upd_frag f (\<lambda>x. x\<lparr>f_Req := f_Req x @ ReqClusterNodes\<rparr>) w
        in EnqueueOutFrag a f w)"

text \<open>The operations that other goroutines may call: they only leave a task for the event loop.\<close>

definition conn_WriteClusterNodes :: "nat \<Rightarrow> ('t, 'h) W \<Rightarrow> ('t, 'h) W" where
  "conn_WriteClusterNodes a w = Trigger (WriteClusterNodes a) w"

definition conn_AsyncWrite :: "nat \<Rightarrow> bytes \<Rightarrow> ('t, 'h) W \<Rightarrow> ('t, 'h) W" where
  "conn_AsyncWrite a buf w = Trigger (AsyncWrite a buf) w"

definition conn_AsyncWritev :: "nat \<Rightarrow> bytes list \<Rightarrow> ('t, 'h) W \<Rightarrow> ('t, 'h) W" where
  "conn_AsyncWritev a bs w = Trigger (AsyncWritev a bs) w"

definition conn_Close :: "nat \<Rightarrow> ('t, 'h) W \<Rightarrow> ('t, 'h) W" where
  "conn_Close a w = Trigger (CloseTask a) w"

text \<open>The run of one task by the event loop.\<close>

fun run_task :: "task \<Rightarrow> ('t, 'h) W \<Rightarrow> (('t, 'h) W \<times> loop_err option) go" where
  "run_task (WriteSignal a) w = handleWriteSignal a w"
| "run_task (WriteClusterNodes a) w = do { w \<leftarrow> writeClusterNodes a w; Some (w, None) }"
| "run_task (AsyncWrite a data) w = asyncWrite a data w"
| "run_task (AsyncWritev a bs) w = asyncWritev a bs w"
| "run_task (CloseTask a) w = closeConn a w"

section \<open>Reading\<close>

datatype io_err = EOF | ErrShortBuffer

definition resetBuffer :: "conn \<Rightarrow> conn" where
  "resetBuffer c = c\<lparr>c_buffer := [], c_inboundBuffer := er_Reset (c_inboundBuffer c)\<rparr>"

text \<open>\<open>Read\<close> into a slice of length \<open>plen\<close>: the bytes copied, whose number is the returned count.\<close>

definition conn_Read :: "conn \<Rightarrow> nat \<Rightarrow> (conn \<times> bytes \<times> io_err option) go" where
  "conn_Read c plen =
     (if er_IsEmpty (c_inboundBuffer c) then
        (let d = take plen (c_buffer c) in
         Some (c\<lparr>c_buffer := drop (length d) (c_buffer c)\<rparr>, d, if length d = 0 \<and> plen > 0 then Some EOF else None))
      else do {
        (rb, d, _) \<leftarrow> er_Read (c_inboundBuffer c) (int plen);
        let c = c\<lparr>c_inboundBuffer := rb\<rparr>;
        (if length d = plen then Some (c, d, None)
         else
           let d' = take (plen - length d) (c_buffer c) in
           Some (c\<lparr>c_buffer := drop (length d') (c_buffer c)\<rparr>, d @ d', None))
      })"

definition conn_Next :: "conn \<Rightarrow> int \<Rightarrow> (conn \<times> (io_err + bytes)) go" where
  "conn_Next c n =
     (let inBufferLen = er_Buffered (c_inboundBuffer c); totalLen = inBufferLen + int (length (c_buffer c)) in
      if n > totalLen then Some (c, Inl ErrShortBuffer)
      else
        let n = (if n \<le> 0 then totalLen else n) in
        if er_IsEmpty (c_inboundBuffer c) then do {
          buf \<leftarrow> slice (c_buffer c) 0 n;
          rest \<leftarrow> slice (c_buffer c) n (int (length (c_buffer c)));
          Some (c\<lparr>c_buffer := rest\<rparr>, Inr buf)
        }
        else do {
          (head, tail) \<leftarrow> er_Peek (c_inboundBuffer c) n;
          (rb, _, _) \<leftarrow> er_Discard (c_inboundBuffer c) n;
          let c = c\<lparr>c_inboundBuffer := rb\<rparr>;
          (if int (length head) \<ge> n then do { buf \<leftarrow> slice head 0 n; Some (c, Inr buf) }
           else if inBufferLen \<ge> n then Some (c, Inr (head @ tail))
           else do {
             let remaining = n - inBufferLen;
             front \<leftarrow> slice (c_buffer c) 0 remaining;
             rest \<leftarrow> slice (c_buffer c) remaining (int (length (c_buffer c)));
             Some (c\<lparr>c_buffer := rest\<rparr>, Inr (head @ tail @ front))
           })
        })"

definition conn_Peek :: "conn \<Rightarrow> int \<Rightarrow> (io_err + bytes) go" where
  "conn_Peek c n =
     (let inBufferLen = er_Buffered (c_inboundBuffer c); totalLen = inBufferLen + int (length (c_buffer c)) in
      if n > totalLen then Some (Inl ErrShortBuffer)
      else
        let n = (if n \<le> 0 then totalLen else n) in
        if er_IsEmpty (c_inboundBuffer c) then do { buf \<leftarrow> slice (c_buffer c) 0 n; Some (Inr buf) }
        else do {
          (head, tail) \<leftarrow> er_Peek (c_inboundBuffer c) n;
          (if int (length head) \<ge> n then do { buf \<leftarrow> slice head 0 n; Some (Inr buf) }
           else if inBufferLen \<ge> n then Some (Inr (head @ tail))
           else do {
             front \<leftarrow> slice (c_buffer c) 0 (n - inBufferLen);
             Some (Inr (head @ tail @ front))
           })
        })"

definition conn_Discard :: "conn \<Rightarrow> int \<Rightarrow> (conn \<times> int) go" where
  "conn_Discard c n =
     (let inBufferLen = er_Buffered (c_inboundBuffer c); tempBufferLen = int (length (c_buffer c)) in
      if inBufferLen + tempBufferLen < n \<or> n \<le> 0 then Some (resetBuffer c, inBufferLen + tempBufferLen)
      else if er_IsEmpty (c_inboundBuffer c) then do {
        rest \<leftarrow> slice (c_buffer c) n (int (length (c_buffer c)));
        Some (c\<lparr>c_buffer := rest\<rparr>, n)
      }
      else do {
        (rb, discarded, _) \<leftarrow> er_Discard (c_inboundBuffer c) n;
        let c = c\<lparr>c_inboundBuffer := rb\<rparr>;
        (if discarded < inBufferLen then Some (c, discarded)
         else do {
           rest \<leftarrow> slice (c_buffer c) (n - inBufferLen) (int (length (c_buffer c)));
           Some (c\<lparr>c_buffer := rest\<rparr>, n)
         })
      })"

definition InboundBuffered :: "conn \<Rightarrow> int" where
  "InboundBuffered c = er_Buffered (c_inboundBuffer c) + int (length (c_buffer c))"

definition OutboundBuffered :: "conn \<Rightarrow> int" where
  "OutboundBuffered c = eb_Buffered (c_outboundBuffer c)"

definition conn_WriteTo ::
  "('w \<Rightarrow> bytes \<Rightarrow> 'w \<times> int \<times> ring_err option) \<Rightarrow> 'w \<Rightarrow> conn \<Rightarrow> ('w \<times> conn \<times> int \<times> ring_err option) go" where
  "conn_WriteTo wr st c = do {
     (st, c, n, err) \<leftarrow>
       (if er_IsEmpty (c_inboundBuffer c) then Some (st, c, 0, None)
        else do {
          (st, rb, n, err) \<leftarrow> er_WriteTo wr st (c_inboundBuffer c);
          Some (st, c\<lparr>c_inboundBuffer := rb\<rparr>, n, err)
        });
     (if err \<noteq> None then Some (st, c, n, err)
      else
        (case wr st (c_buffer c) of (st, m, err) \<Rightarrow> do {
           rest \<leftarrow> slice (c_buffer c) m (int (length (c_buffer c)));
           Some (st, c\<lparr>c_buffer := rest\<rparr>, n + m, err)
         }))
   }"

definition conn_ReadFrom ::
  "('r \<Rightarrow> int \<Rightarrow> 'r \<times> bytes \<times> ring_err option) \<Rightarrow> bytes \<Rightarrow> ring \<Rightarrow> 'r \<Rightarrow> conn \<Rightarrow> ('r \<times> conn \<times> int \<times> ring_err option) go" where
  "conn_ReadFrom rd dirty fresh st c = do {
     (st, out, n, err) \<leftarrow> eb_ReadFrom rd dirty fresh st (c_outboundBuffer c);
     Some (st, c\<lparr>c_outboundBuffer := out\<rparr>, n, err)
   }"

section \<open>The input of a connection is one stream\<close>

text \<open>The bytes a connection has received and not yet consumed.\<close>

definition conn_in :: "conn \<Rightarrow> bytes" where
  "conn_in c = er_abs (c_inboundBuffer c) @ c_buffer c"

lemma er_IsEmpty_abs: "er_inv b \<Longrightarrow> er_IsEmpty b \<longleftrightarrow> er_abs b = []"
  by (auto simp: er_inv_def er_IsEmpty_def er_abs_def ring_IsEmpty_abs split: option.splits)

lemma InboundBuffered_in: "er_inv (c_inboundBuffer c) \<Longrightarrow> InboundBuffered c = int (length (conn_in c))"
  by (simp add: InboundBuffered_def conn_in_def er_Buffered_abs)

lemma er_Reset_abs: "er_inv b \<Longrightarrow> er_inv (er_Reset b) \<and> er_abs (er_Reset b) = []"
  by (auto simp: er_inv_def er_abs_def er_Reset_def ring_Reset_def ring_inv_def ring_abs_def split: option.splits)

lemma slice_ends: "k \<le> length xs \<Longrightarrow> slice xs (int k) (int (length xs)) = Some (drop k xs)"
  "k \<le> length xs \<Longrightarrow> slice xs 0 (int k) = Some (take k xs)"
  by (simp_all add: slice_def)

lemma peek_parts:
  assumes "er_inv b" "0 < n"
  obtains head tail where "er_Peek b (int n) = Some (head, tail)" "head @ tail = take n (er_abs b)"
  using er_Peek_abs [of b "int n"] assms by auto

lemma conn_Peek_in:
  assumes inv: "er_inv (c_inboundBuffer c)"
  shows "conn_Peek c n =
    Some (if n > int (length (conn_in c)) then Inl ErrShortBuffer
          else Inr (if n \<le> 0 then conn_in c else take (nat n) (conn_in c)))"
proof (cases "n > int (length (conn_in c))")
  case True
  with inv show ?thesis by (simp add: conn_Peek_def Let_def conn_in_def er_Buffered_abs)
next
  case False
  define k where "k = (if n \<le> 0 then length (conn_in c) else nat n)"
  have k: "(if n \<le> 0 then er_Buffered (c_inboundBuffer c) + int (length (c_buffer c)) else n) = int k"
    "k \<le> length (conn_in c)" "\<not> n > er_Buffered (c_inboundBuffer c) + int (length (c_buffer c))"
    "(if n \<le> 0 then conn_in c else take (nat n) (conn_in c)) = take k (conn_in c)"
    using False inv by (auto simp: k_def conn_in_def er_Buffered_abs)
  let ?a = "er_abs (c_inboundBuffer c)"
  have eq: "conn_Peek c n =
    (if ?a = [] then do { buf \<leftarrow> slice (c_buffer c) 0 (int k); Some (Inr buf) }
     else do {
       (head, tail) \<leftarrow> er_Peek (c_inboundBuffer c) (int k);
       (if k \<le> length head then do { buf \<leftarrow> slice head 0 (int k); Some (Inr buf) }
        else if k \<le> length ?a then Some (Inr (head @ tail))
        else do {
          front \<leftarrow> slice (c_buffer c) 0 (int k - int (length ?a));
          Some (Inr (head @ tail @ front))
        })
     })"
    unfolding conn_Peek_def Let_def k(1) using k(3)
    unfolding er_IsEmpty_abs [OF inv] er_Buffered_abs [OF inv] by (simp cong: if_cong)
  have "conn_Peek c n = Some (Inr (take k (conn_in c)))"
  proof (cases "?a = []")
    case True
    with inv k(2) show ?thesis by (simp add: eq slice_ends conn_in_def)
  next
    case ne: False
    show ?thesis
    proof (cases "k = 0")
      case True
      with k(1) ne inv show ?thesis by (auto simp: conn_in_def er_Buffered_abs k_def split: if_splits)
    next
      case False
      then obtain head tail where ht: "er_Peek (c_inboundBuffer c) (int k) = Some (head, tail)" "head @ tail = take k ?a"
        using peek_parts [OF inv, of k] by auto
      consider "k \<le> length head" | "length head < k" "k \<le> length ?a" | "length head < k" "length ?a < k" by linarith
      then show ?thesis
      proof cases
        case 1
        moreover have "k \<le> length ?a" using 1 arg_cong [OF ht(2), of length] by simp
        ultimately have "take k head = take k (conn_in c)"
          using arg_cong [OF ht(2), of "take k"] by (simp add: conn_in_def)
        with 1 ht(1) ne show ?thesis by (simp add: eq slice_ends)
      next
        case 2
        with ht ne show ?thesis by (simp add: eq conn_in_def)
      next
        case 3
        then obtain j where j: "k = length ?a + j" "0 < j" using less_imp_add_positive by blast
        with 3 k(2) ht ne show ?thesis by (simp add: eq conn_in_def slice_ends)
      qed
    qed
  qed
  with False k(4) show ?thesis by simp
qed

lemma conn_Discard_in:
  assumes inv: "er_inv (c_inboundBuffer c)" and n: "0 < n" "n \<le> length (conn_in c)"
  shows "\<exists>rb buf. conn_Discard c (int n) = Some (c\<lparr>c_inboundBuffer := rb, c_buffer := buf\<rparr>, int n) \<and>
    er_inv rb \<and> er_abs rb @ buf = drop n (conn_in c)"
proof (cases "er_abs (c_inboundBuffer c) = []")
  case True
  with inv n show ?thesis
    by (intro exI [of _ "c_inboundBuffer c"] exI [of _ "drop n (c_buffer c)"])
      (simp add: conn_Discard_def Let_def er_IsEmpty_abs er_Buffered_abs conn_in_def slice_ends)
next
  case ne: False
  let ?a = "er_abs (c_inboundBuffer c)"
  obtain rb e where rb: "er_Discard (c_inboundBuffer c) (int n) = Some (rb, int (min n (length ?a)), e)" "er_inv rb"
    "er_abs rb = drop n ?a" using er_Discard_abs [OF inv] by blast
  show ?thesis
  proof (cases "n < length ?a")
    case True
    with inv n ne rb show ?thesis
      by (intro exI [of _ rb] exI [of _ "c_buffer c"])
        (simp add: conn_Discard_def Let_def er_IsEmpty_abs er_Buffered_abs conn_in_def)
  next
    case False
    then obtain j where j: "n = length ?a + j" using le_Suc_ex not_less by blast
    have neg: "int (length ?a) + int j \<le> 0 \<longleftrightarrow> False" using ne by (cases ?a) simp_all
    show ?thesis using inv n ne rb j
      by (intro exI [of _ rb] exI [of _ "drop j (c_buffer c)"])
        (simp add: conn_Discard_def Let_def er_IsEmpty_abs er_Buffered_abs conn_in_def slice_ends neg)
  qed
qed

text \<open>A count of zero, or one larger than what is there, drops everything.\<close>

lemma conn_Discard_all:
  assumes inv: "er_inv (c_inboundBuffer c)" and n: "n \<le> 0 \<or> int (length (conn_in c)) < n"
  shows "\<exists>rb. conn_Discard c n = Some (c\<lparr>c_inboundBuffer := rb, c_buffer := []\<rparr>, int (length (conn_in c))) \<and>
    er_inv rb \<and> er_abs rb = []"
  using assms er_Reset_abs [OF inv]
  by (intro exI [of _ "er_Reset (c_inboundBuffer c)"])
    (auto simp: conn_Discard_def Let_def er_Buffered_abs conn_in_def resetBuffer_def)

lemma conn_Read_in:
  assumes inv: "er_inv (c_inboundBuffer c)"
  shows "\<exists>rb buf e. conn_Read c n = Some (c\<lparr>c_inboundBuffer := rb, c_buffer := buf\<rparr>, take n (conn_in c), e) \<and>
    er_inv rb \<and> er_abs rb @ buf = drop n (conn_in c)"
proof (cases "er_abs (c_inboundBuffer c) = []")
  case True
  with inv show ?thesis
    by (intro exI [of _ "c_inboundBuffer c"] exI [of _ "drop n (c_buffer c)"] exI)
      (auto simp: conn_Read_def Let_def er_IsEmpty_abs conn_in_def min_def)
next
  case ne: False
  let ?a = "er_abs (c_inboundBuffer c)"
  obtain rb e where rb: "er_Read (c_inboundBuffer c) (int n) = Some (rb, take n ?a, e)" "er_inv rb"
    "er_abs rb = drop n ?a" using er_Read_abs [OF inv] by blast
  show ?thesis
  proof (cases "n \<le> length ?a")
    case True
    with inv ne rb show ?thesis
      by (intro exI [of _ rb] exI [of _ "c_buffer c"] exI [of _ None])
        (simp add: conn_Read_def Let_def er_IsEmpty_abs conn_in_def)
  next
    case False
    then obtain j where j: "n = length ?a + j" "0 < j" using less_imp_add_positive [of "length ?a" n] by auto
    with inv ne rb show ?thesis
      by (intro exI [of _ rb] exI [of _ "drop j (c_buffer c)"] exI [of _ None])
        (auto simp: conn_Read_def Let_def er_IsEmpty_abs conn_in_def min_def)
  qed
qed

lemma conn_Next_in:
  assumes inv: "er_inv (c_inboundBuffer c)" and n: "n \<le> int (length (conn_in c))"
    and k: "k = (if n \<le> 0 then length (conn_in c) else nat n)"
  shows "\<exists>rb buf. conn_Next c n = Some (c\<lparr>c_inboundBuffer := rb, c_buffer := buf\<rparr>, Inr (take k (conn_in c))) \<and>
    er_inv rb \<and> er_abs rb @ buf = drop k (conn_in c)"
proof -
  let ?a = "er_abs (c_inboundBuffer c)"
  have k': "(if n \<le> 0 then er_Buffered (c_inboundBuffer c) + int (length (c_buffer c)) else n) = int k"
    "k \<le> length (conn_in c)" "\<not> n > er_Buffered (c_inboundBuffer c) + int (length (c_buffer c))"
    using n inv by (auto simp: k conn_in_def er_Buffered_abs)
  have eq: "conn_Next c n =
    (if ?a = [] then do {
       buf \<leftarrow> slice (c_buffer c) 0 (int k);
       rest \<leftarrow> slice (c_buffer c) (int k) (int (length (c_buffer c)));
       Some (c\<lparr>c_buffer := rest\<rparr>, Inr buf)
     }
     else do {
       (head, tail) \<leftarrow> er_Peek (c_inboundBuffer c) (int k);
       (rb, _, _) \<leftarrow> er_Discard (c_inboundBuffer c) (int k);
       let c = c\<lparr>c_inboundBuffer := rb\<rparr>;
       (if k \<le> length head then do { buf \<leftarrow> slice head 0 (int k); Some (c, Inr buf) }
        else if k \<le> length ?a then Some (c, Inr (head @ tail))
        else do {
          let remaining = int k - int (length ?a);
          front \<leftarrow> slice (c_buffer c) 0 remaining;
          rest \<leftarrow> slice (c_buffer c) remaining (int (length (c_buffer c)));
          Some (c\<lparr>c_buffer := rest\<rparr>, Inr (head @ tail @ front))
        })
     })"
    unfolding conn_Next_def Let_def k'(1) using k'(3)
    unfolding er_IsEmpty_abs [OF inv] er_Buffered_abs [OF inv] by (simp cong: if_cong)
  show ?thesis
  proof (cases "?a = []")
    case True
    with inv k'(2) show ?thesis
      by (intro exI [of _ "c_inboundBuffer c"] exI [of _ "drop k (c_buffer c)"])
        (simp add: eq slice_ends conn_in_def)
  next
    case ne: False
    then have "0 < k" using n by (auto simp: k conn_in_def)
    then obtain head tail where ht: "er_Peek (c_inboundBuffer c) (int k) = Some (head, tail)" "head @ tail = take k ?a"
      using peek_parts [OF inv, of k] by auto
    obtain rb e where rb: "er_Discard (c_inboundBuffer c) (int k) = Some (rb, int (min k (length ?a)), e)" "er_inv rb"
      "er_abs rb = drop k ?a" using er_Discard_abs [OF inv] by blast
    have len: "length head \<le> k" using arg_cong [OF ht(2), of length] by simp
    show ?thesis
    proof (cases "k \<le> length ?a")
      case True
      then have "take k head = take k ?a \<or> \<not> k \<le> length head" using arg_cong [OF ht(2), of "take k"] by auto
      with True ht ne rb show ?thesis
        by (intro exI [of _ rb] exI [of _ "c_buffer c"]) (auto simp: eq slice_ends conn_in_def Let_def)
    next
      case False
      then obtain j where j: "k = length ?a + j" "0 < j" using less_imp_add_positive [of "length ?a" k] by auto
      then have "\<not> k \<le> length head" using arg_cong [OF ht(2), of length] by simp
      with False j k'(2) ht ne rb show ?thesis
        by (intro exI [of _ rb] exI [of _ "drop j (c_buffer c)"]) (simp add: eq slice_ends conn_in_def Let_def)
    qed
  qed
qed

section \<open>Open connections\<close>

text \<open>
  What holds of every open connection between two events: its descriptor is open, is its own and is
  registered, its buffers are well formed, and its queues exist.
\<close>

definition live :: "('t, 'h) W \<Rightarrow> nat \<Rightarrow> bool" where
  "live w a \<longleftrightarrow> (let c = w_conns w a in
     c_opened c \<and> c_pollAttachment c = Some (c_fd c) \<and> w_sockets w (c_fd c) = Some a \<and>
     w_poll w (c_fd c) \<noteq> None \<and> w_connections w (c_fd c) = Some a \<and> eb_inv (c_outboundBuffer c) \<and>
     er_inv (c_inboundBuffer c) \<and> c_inMsgQueue c \<noteq> None \<and> c_inFragQueue c \<noteq> None \<and>
     c_outFragQueue c \<noteq> None \<and> c_connType c \<noteq> ConnNone)"

definition closed_conn :: "('t, 'h) W \<Rightarrow> nat \<Rightarrow> bool" where
  "closed_conn w a \<longleftrightarrow> (let c = w_conns w a in
     \<not> c_opened c \<and> w_sockets w (c_fd c) = None \<and> eb_inv (c_outboundBuffer c) \<and> eb_abs (c_outboundBuffer c) = [] \<and>
     w_connections w (c_fd c) = None)"

text \<open>A fragment that belongs to a client belongs to a message.\<close>

definition frags_ok :: "('t, 'h) W \<Rightarrow> bool" where
  "frags_ok w \<longleftrightarrow> (\<forall>f. f_Owner (w_frags w f) \<noteq> None \<longrightarrow> f_Peer (w_frags w f) \<noteq> None)"

text \<open>
  Everything that was handed to the connection for its peer: what the kernel has taken, followed by
  what waits in the output buffer.
\<close>

definition out_stream :: "('t, 'h) W \<Rightarrow> nat \<Rightarrow> bytes" where
  "out_stream w a = w_wire w a @ eb_abs (c_outboundBuffer (w_conns w a))"

text \<open>What an operation on the connection \<open>a\<close> leaves alone.\<close>

definition only :: "nat \<Rightarrow> ('t, 'h) W \<Rightarrow> ('t, 'h) W \<Rightarrow> bool" where
  "only a w w' \<longleftrightarrow>
     (\<forall>b. b \<noteq> a \<longrightarrow> w_conns w' b = w_conns w b \<and> w_wire w' b = w_wire w b) \<and>
     (\<forall>fd. fd \<noteq> c_fd (w_conns w a) \<longrightarrow>
        w_sockets w' fd = w_sockets w fd \<and> w_poll w' fd = w_poll w fd \<and> w_connections w' fd = w_connections w fd) \<and>
     c_fd (w_conns w' a) = c_fd (w_conns w a) \<and> w_nconn w' = w_nconn w \<and> w_cfg w' = w_cfg w \<and>
     w_msgs w' = w_msgs w \<and> w_ProxyPool w' = w_ProxyPool w \<and> w_now w' = w_now w \<and>
     w_dials w' = w_dials w \<and> w_Slots2Node w' = w_Slots2Node w \<and> w_nmsg w' = w_nmsg w \<and> w_msgPool w' = w_msgPool w \<and>
     w_fragId w' = w_fragId w \<and> w_ClusterNodes w' = w_ClusterNodes w \<and> w_authCmd w' = w_authCmd w \<and>
     (\<forall>f. \<exists>t. w_frags w' f = (w_frags w f)\<lparr>f_Timeout := t\<rparr>)"

named_theorems world_simps \<open>the updates of the state\<close>

lemmas conn_upd = upd_conn_def upd_frag_def

lemma Frag_Timeout_id: "\<exists>t. x = (x :: Frag)\<lparr>f_Timeout := t\<rparr>"
  by (intro exI [of _ "f_Timeout x"]) simp

lemma only_refl [simp]: "only a w w"
  by (simp add: only_def Frag_Timeout_id)

lemma only_trans [trans]:
  assumes "only a w1 w2" "only a w2 w3"
  shows "only a w1 w3"
proof -
  have "\<exists>t. w_frags w3 f = (w_frags w1 f)\<lparr>f_Timeout := t\<rparr>" for f
  proof -
    from assms obtain t1 t2 where "w_frags w2 f = (w_frags w1 f)\<lparr>f_Timeout := t1\<rparr>"
      "w_frags w3 f = (w_frags w2 f)\<lparr>f_Timeout := t2\<rparr>" unfolding only_def by meson
    then show ?thesis by (intro exI [of _ t2]) simp
  qed
  with assms show ?thesis by (simp add: only_def)
qed

lemma only_frags_ok: "only a w w' \<Longrightarrow> frags_ok w \<Longrightarrow> frags_ok w'"
proof -
  assume a: "only a w w'" "frags_ok w"
  have "f_Owner (w_frags w' f) \<noteq> None \<longrightarrow> f_Peer (w_frags w' f) \<noteq> None" for f
  proof -
    from a(1) obtain t where "w_frags w' f = (w_frags w f)\<lparr>f_Timeout := t\<rparr>" unfolding only_def by blast
    with a(2) show ?thesis unfolding frags_ok_def by simp
  qed
  then show ?thesis unfolding frags_ok_def by blast
qed

lemma only_live:
  assumes "only a w w'" "live w b" "b \<noteq> a" "w_sockets w (c_fd (w_conns w a)) \<in> {None, Some a}"
  shows "live w' b"
proof -
  have "c_fd (w_conns w b) \<noteq> c_fd (w_conns w a)" using assms(2-4) by (auto simp: live_def Let_def)
  with assms(1,2,3) show ?thesis by (simp add: only_def live_def Let_def)
qed

abbreviation set_out :: "nat \<Rightarrow> ebuf \<Rightarrow> ('t, 'h) W \<Rightarrow> ('t, 'h) W" where
  "set_out a out w \<equiv> upd_conn a (\<lambda>c. c\<lparr>c_outboundBuffer := out\<rparr>) w"

definition sent_to :: "nat \<Rightarrow> bytes \<Rightarrow> io_answer list \<Rightarrow> ('t, 'h) W \<Rightarrow> ('t, 'h) W" where
  "sent_to s d io w = w\<lparr>w_io := io, w_wire := (w_wire w)(s := w_wire w s @ d)\<rparr>"

lemma only_upd_conn: "(\<And>c. c_fd (g c) = c_fd c) \<Longrightarrow> only a w (upd_conn a g w)"
  by (simp add: only_def upd_conn_def Frag_Timeout_id)

lemma only_sent_to [simp]: "only a w (sent_to a d io w)"
  by (simp add: only_def sent_to_def Frag_Timeout_id)

lemma sent_to_simps [simp]:
  "w_conns (sent_to s d io w) = w_conns w" "w_sockets (sent_to s d io w) = w_sockets w"
  "w_poll (sent_to s d io w) = w_poll w" "w_connections (sent_to s d io w) = w_connections w"
  "w_wire (sent_to s d io w) = (w_wire w)(s := w_wire w s @ d)" "w_frags (sent_to s d io w) = w_frags w"
  "w_mem (sent_to s d io w) = w_mem w" "w_cfg (sent_to s d io w) = w_cfg w" "w_io (sent_to s d io w) = io"
  "w_msgs (sent_to s d io w) = w_msgs w"
  by (simp_all add: sent_to_def)

lemma upd_conn_simps [simp]:
  "w_conns (upd_conn a g w) = (w_conns w)(a := g (w_conns w a))" "w_sockets (upd_conn a g w) = w_sockets w"
  "w_poll (upd_conn a g w) = w_poll w" "w_connections (upd_conn a g w) = w_connections w"
  "w_wire (upd_conn a g w) = w_wire w" "w_frags (upd_conn a g w) = w_frags w"
  "w_mem (upd_conn a g w) = w_mem w" "w_cfg (upd_conn a g w) = w_cfg w" "w_io (upd_conn a g w) = w_io w"
  "w_msgs (upd_conn a g w) = w_msgs w" "w_tasks (upd_conn a g w) = w_tasks w" "w_now (upd_conn a g w) = w_now w"
  by (simp_all add: upd_conn_def)

lemma sys_write_cases:
  assumes "w_sockets w fd = Some s" "data \<noteq> []"
  obtains (sent) n io where "0 < n" "n \<le> length data" "sys_write fd data w = (sent_to s (take n data) io w, int n, None)"
  | (again) io where "sys_write fd data w = (sent_to s [] io w, -1, Some EAGAIN)"
  | (fails) io e where "sys_write fd data w = (sent_to s [] io w, -1, Some (Errno e))"
proof -
  have "(w_wire w)(s := w_wire w s) = w_wire w" by simp
  note nil = this
  show thesis
  proof (cases "w_io w")
    case Nil
    have "w = sent_to s [] (w_io w) w" by (simp add: sent_to_def)
    with Nil have "sys_write fd data w = (sent_to s [] [] w, -1, Some EAGAIN)"
      using assms by (simp add: sys_write_def)
    then show thesis by (rule again)
  next
    case (Cons x io)
    show thesis
    proof (cases x)
      case (Sent k)
      have "sys_write fd data w = (sent_to s (take (min (Suc k) (length data)) data) io w, int (min (Suc k) (length data)), None)"
        using assms Cons Sent by (simp add: sys_write_def sent_to_def min_def)
      with assms(2) show thesis by (intro sent [of "min (Suc k) (length data)" io]) simp_all
    next
      case Again
      then have "sys_write fd data w = (sent_to s [] io w, -1, Some EAGAIN)"
        using assms Cons nil by (simp add: sys_write_def sent_to_def)
      then show thesis by (rule again)
    next
      case (Fails e)
      then have "sys_write fd data w = (sent_to s [] io w, -1, Some (Errno e))"
        using assms Cons nil by (simp add: sys_write_def sent_to_def)
      then show thesis by (rule fails)
    qed
  qed
qed

section \<open>Closing\<close>

lemma DequeueInFrag_simp:
  "c_inFragQueue (w_conns w a) = Some [] \<Longrightarrow> DequeueInFrag a w = Some (w, None)"
  "c_inFragQueue (w_conns w a) = Some (f # fs) \<Longrightarrow>
   DequeueInFrag a w = Some (deleteFromTimeoutQueue f (upd_conn a (\<lambda>c. c\<lparr>c_inFragQueue := Some fs\<rparr>) w), Some f)"
  by (simp_all add: DequeueInFrag_def Let_def)

lemma delete_timeout_simps [simp]:
  "w_conns (deleteFromTimeoutQueue f w) = w_conns w" "w_sockets (deleteFromTimeoutQueue f w) = w_sockets w"
  "w_poll (deleteFromTimeoutQueue f w) = w_poll w" "w_connections (deleteFromTimeoutQueue f w) = w_connections w"
  "w_wire (deleteFromTimeoutQueue f w) = w_wire w" "w_frags (deleteFromTimeoutQueue f w) = w_frags w"
  "w_mem (deleteFromTimeoutQueue f w) = w_mem w" "w_cfg (deleteFromTimeoutQueue f w) = w_cfg w"
  "w_io (deleteFromTimeoutQueue f w) = w_io w" "w_msgs (deleteFromTimeoutQueue f w) = w_msgs w"
  "w_now (deleteFromTimeoutQueue f w) = w_now w" "w_nconn (deleteFromTimeoutQueue f w) = w_nconn w"
  "w_tasks (deleteFromTimeoutQueue f w) = w_tasks w" "w_ProxyPool (deleteFromTimeoutQueue f w) = w_ProxyPool w"
  "w_dials (deleteFromTimeoutQueue f w) = w_dials w" "w_Slots2Node (deleteFromTimeoutQueue f w) = w_Slots2Node w" "w_nmsg (deleteFromTimeoutQueue f w) = w_nmsg w"
  "w_msgPool (deleteFromTimeoutQueue f w) = w_msgPool w" "w_fragId (deleteFromTimeoutQueue f w) = w_fragId w" "w_ClusterNodes (deleteFromTimeoutQueue f w) = w_ClusterNodes w" "w_authCmd (deleteFromTimeoutQueue f w) = w_authCmd w"
  by (simp_all add: deleteFromTimeoutQueue_def)

lemma only_delete_timeout [simp]: "only a w (deleteFromTimeoutQueue f w)"
  by (simp add: only_def Frag_Timeout_id)

text \<open>What \<open>OnSClosed\<close> changes: the queue of the connection and the pending timeouts.\<close>

lemma OnSClosed_ends:
  "frags_ok w \<Longrightarrow> c_inFragQueue (w_conns w s) = Some q \<Longrightarrow>
   \<exists>w'. OnSClosed s w = Some w' \<and> only s w w' \<and> w_wire w' = w_wire w \<and> w_sockets w' = w_sockets w \<and>
     w_poll w' = w_poll w \<and> w_connections w' = w_connections w \<and> w_io w' = w_io w \<and>
     w_conns w' = (w_conns w)(s := (w_conns w s)\<lparr>c_inFragQueue := Some []\<rparr>)"
proof (induction q arbitrary: w)
  case Nil
  have "(w_conns w)(s := (w_conns w s)\<lparr>c_inFragQueue := Some []\<rparr>) = w_conns w"
    using Nil(2) by (metis conn.surjective conn.update_convs(9) fun_upd_triv)
  with Nil show ?case by (subst OnSClosed.simps) (simp add: DequeueInFrag_simp)
next
  case (Cons f q)
  define w1 where "w1 = deleteFromTimeoutQueue f (upd_conn s (\<lambda>c. c\<lparr>c_inFragQueue := Some q\<rparr>) w)"
  have o: "only s w w1" unfolding w1_def
    by (rule only_trans [OF only_upd_conn only_delete_timeout]) simp
  have "frags_ok w1" by (rule only_frags_ok [OF o Cons.prems(1)])
  moreover have "c_inFragQueue (w_conns w1 s) = Some q" by (simp add: w1_def)
  ultimately obtain w' where w': "OnSClosed s w1 = Some w'" "only s w1 w'" "w_wire w' = w_wire w1" "w_sockets w' = w_sockets w1"
    "w_poll w' = w_poll w1" "w_connections w' = w_connections w1" "w_io w' = w_io w1"
    "w_conns w' = (w_conns w1)(s := (w_conns w1 s)\<lparr>c_inFragQueue := Some []\<rparr>)" using Cons.IH [of w1] by blast
  have "OnSClosed s w = OnSClosed s w1"
    using Cons.prems \<open>frags_ok w1\<close>
    by (subst OnSClosed.simps)
      (auto simp: DequeueInFrag_simp w1_def [symmetric] frags_ok_def split: option.splits)
  moreover have "w_conns w' = (w_conns w)(s := (w_conns w s)\<lparr>c_inFragQueue := Some []\<rparr>)"
    using w'(8) by (simp add: w1_def)
  moreover have "w_wire w1 = w_wire w" "w_sockets w1 = w_sockets w" "w_poll w1 = w_poll w"
    "w_connections w1 = w_connections w" "w_io w1 = w_io w" by (simp_all add: w1_def)
  ultimately show ?case using w' only_trans [OF o w'(2)] by metis
qed

lemma flush_residual_ends:
  "eb_inv (c_outboundBuffer (w_conns w a)) \<Longrightarrow> w_sockets w (c_fd (w_conns w a)) = Some a \<Longrightarrow>
   \<exists>out d io w'. flush_residual a w = Some w' \<and> w' = set_out a out (sent_to a d io w) \<and> eb_inv out \<and>
     d @ eb_abs out = eb_abs (c_outboundBuffer (w_conns w a))"
proof (induction "length (eb_abs (c_outboundBuffer (w_conns w a)))" arbitrary: w rule: less_induct)
  case less
  let ?out = "c_outboundBuffer (w_conns w a)"
  show ?case
  proof (cases "eb_abs ?out = []")
    case True
    have "w = set_out a ?out (sent_to a [] (w_io w) w)" by (simp add: upd_conn_def sent_to_def)
    with True less.prems show ?thesis
      by (intro exI [of _ ?out] exI [of _ "[]"] exI [of _ "w_io w"] exI [of _ w])
        (subst flush_residual.simps, simp add: eb_IsEmpty_abs)
  next
    case False
    from eb_Peek_progress [OF less.prems(1) False, of iovMax 0] obtain out iov k where
      p: "eb_Peek ?out 0 = Some (out, iov)" "eb_inv out" "eb_abs out = eb_abs ?out" "iov \<noteq> []" "0 < k"
        "k \<le> length (eb_abs ?out)" "concat (take iovMax iov) = take k (eb_abs ?out)"
      by (auto simp: iovMax_def simp del: split_paired_Ex)
    let ?w = "set_out a out w" and ?d = "concat (take iovMax iov)"
    have ne: "?d \<noteq> []" using p(5-7) by auto
    have sock: "w_sockets ?w (c_fd (w_conns w a)) = Some a" using less.prems(2) by simp
    have wv: "io_Writev (c_fd (w_conns w a)) (take iovMax iov) ?w = sys_write (c_fd (w_conns w a)) ?d ?w"
      using p(4) by (cases iov) (simp_all add: io_Writev_def iovMax_def)
    have step: "flush_residual a w =
        (case sys_write (c_fd (w_conns w a)) ?d ?w of
           (w, n, Some e) \<Rightarrow> Some w
         | (w, n, None) \<Rightarrow> do {
             (out, _, _) \<leftarrow> eb_Discard (c_outboundBuffer (w_conns w a)) n;
             flush_residual a (upd_conn a (\<lambda>c. c\<lparr>c_outboundBuffer := out\<rparr>) w)
           })"
      using False less.prems(1) p(1) by (subst flush_residual.simps) (simp add: eb_IsEmpty_abs Let_def wv)
    have swap: "sent_to a d io ?w = set_out a out (sent_to a d io w)" for d io
      by (simp add: sent_to_def upd_conn_def)
    from sock ne show ?thesis
    proof (cases rule: sys_write_cases)
      case (sent n io)
      let ?w1 = "sent_to a (take n ?d) io ?w"
      obtain out1 e where out1: "eb_Discard out (int n) = Some (out1, int (min n (length (eb_abs out))), e)" "eb_inv out1"
        "eb_abs out1 = drop n (eb_abs out)" using eb_Discard_abs [OF p(2)] by blast
      let ?w2 = "set_out a out1 ?w1"
      have "length (eb_abs (c_outboundBuffer (w_conns ?w2 a))) < length (eb_abs ?out)"
        using out1(3) p(3) sent(1) False by simp
      moreover have "eb_inv (c_outboundBuffer (w_conns ?w2 a))" "w_sockets ?w2 (c_fd (w_conns ?w2 a)) = Some a"
        using out1(2) less.prems(2) by simp_all
      ultimately obtain out' d' io' where 2: "flush_residual a ?w2 = Some (set_out a out' (sent_to a d' io' ?w2))"
        "eb_inv out'" "d' @ eb_abs out' = eb_abs out1" using less.hyps [of ?w2] by auto
      have "flush_residual a w = flush_residual a ?w2" using step sent(3) out1(1) by simp
      moreover have "set_out a out' (sent_to a d' io' ?w2) = set_out a out' (sent_to a (take n ?d @ d') io' w)"
        by (simp add: sent_to_def upd_conn_def)
      moreover have "(take n ?d @ d') @ eb_abs out' = eb_abs ?out"
        using 2(3) out1(3) p(3,6,7) sent(2) by (simp add: min_absorb1)
      ultimately show ?thesis using 2 by metis
    next
      case (again io)
      with step swap p(2,3) show ?thesis
        by (intro exI [of _ out] exI [of _ "[]"] exI [of _ io]) simp
    next
      case (fails io e)
      with step swap p(2,3) show ?thesis
        by (intro exI [of _ out] exI [of _ "[]"] exI [of _ io]) simp
    qed
  qed
qed

lemma count_simps [simp]:
  "w_conns (addCConn i w) = w_conns w" "w_sockets (addCConn i w) = w_sockets w"
  "w_connections (addCConn i w) = w_connections w" "w_wire (addCConn i w) = w_wire w"
  "w_conns (addSConn i w) = w_conns w" "w_sockets (addSConn i w) = w_sockets w"
  "w_connections (addSConn i w) = w_connections w" "w_wire (addSConn i w) = w_wire w"
  "w_poll (addCConn i w) = w_poll w" "w_poll (addSConn i w) = w_poll w"
  by (simp_all add: addCConn_def addSConn_def)

lemma only_count [simp]: "only a w (addCConn i w)" "only a w (addSConn i w)"
  by (simp_all add: only_def Frag_Timeout_id addCConn_def addSConn_def)

lemma releaseTCP_ok:
  assumes "eb_inv (c_outboundBuffer (w_conns w a))" "w_sockets w (c_fd (w_conns w a)) = None"
    "w_connections w (c_fd (w_conns w a)) = None"
  shows "\<exists>w'. releaseTCP a w = Some w' \<and> only a w w' \<and> w_wire w' = w_wire w \<and> closed_conn w' a"
proof -
  obtain out where out: "eb_Release (c_outboundBuffer (w_conns w a)) = Some out" "eb_inv out" "eb_abs out = []"
    using eb_Release_abs [OF assms(1)] by blast
  then show ?thesis
    using assms by (auto simp: releaseTCP_def Let_def closed_conn_def intro!: only_upd_conn)
qed

lemma closeConn_live:
  assumes live: "live w a" and ok: "frags_ok w"
  shows "\<exists>w' d rest. closeConn a w = Some (w', None) \<and> only a w w' \<and> closed_conn w' a \<and>
    w_wire w' a = w_wire w a @ d \<and> d @ rest = eb_abs (c_outboundBuffer (w_conns w a))"
proof -
  let ?fd = "c_fd (w_conns w a)"
  have l: "c_opened (w_conns w a)" "w_sockets w ?fd = Some a" "w_poll w ?fd \<noteq> None"
    "eb_inv (c_outboundBuffer (w_conns w a))" "c_inFragQueue (w_conns w a) \<noteq> None"
    using live by (simp_all add: live_def Let_def)
  from flush_residual_ends [OF l(4,2)] obtain out d io where
    f: "flush_residual a w = Some (set_out a out (sent_to a d io w))" "eb_inv out"
      "d @ eb_abs out = eb_abs (c_outboundBuffer (w_conns w a))" by blast
  define w1 where "w1 = set_out a out (sent_to a d io w)"
  define w2 where "w2 = w1\<lparr>w_sockets := (w_sockets w1)(?fd := None), w_poll := (w_poll w1)(?fd := None),
    w_connections := (w_connections w1)(?fd := None)\<rparr>"
  obtain i where i: "w_poll w ?fd = Some i" using l(3) by auto
  have c1: "c_fd (w_conns w1 a) = ?fd" "w_sockets w1 ?fd = Some a" "w_poll w1 ?fd = Some i"
    using l(2) i by (simp_all add: w1_def)
  have o1: "only a w w1" unfolding w1_def
    by (rule only_trans [OF only_sent_to only_upd_conn]) simp
  have o2: "only a w w2" using o1 by (simp add: only_def w2_def)
  have ok2: "frags_ok w2" by (rule only_frags_ok [OF o2 ok])
  have c2: "w_conns w2 a = (w_conns w a)\<lparr>c_outboundBuffer := out\<rparr>" "w_wire w2 a = w_wire w a @ d"
    "w_sockets w2 ?fd = None" "w_connections w2 ?fd = None" by (simp_all add: w2_def w1_def)
  have step: "closeConn a w = do {
      w \<leftarrow> (case c_connType (w_conns w2 a) of
           ConnClient \<Rightarrow> Some (addCConn (-1) w2)
         | ConnServer \<Rightarrow> do { w \<leftarrow> OnSClosed a w2; Some (addSConn (-1) w) }
         | ConnNone \<Rightarrow> Some w2);
      w \<leftarrow> releaseTCP a w;
      Some (w, None) }"
    using l(1) c1 by (cases "c_connType (w_conns w1 a)")
      (simp_all add: closeConn_def f(1) w1_def [symmetric] Let_def poll_Delete_def sys_close_def w2_def)
  have "\<exists>w3. (case c_connType (w_conns w2 a) of
           ConnClient \<Rightarrow> Some (addCConn (-1) w2)
         | ConnServer \<Rightarrow> do { w \<leftarrow> OnSClosed a w2; Some (addSConn (-1) w) }
         | ConnNone \<Rightarrow> Some w2) = Some w3 \<and> only a w2 w3 \<and> w_wire w3 a = w_wire w2 a \<and>
      c_outboundBuffer (w_conns w3 a) = out \<and> w_sockets w3 ?fd = None \<and> w_connections w3 ?fd = None"
  proof (cases "c_connType (w_conns w2 a)")
    case ConnServer
    obtain q where "c_inFragQueue (w_conns w2 a) = Some q" using l(5) c2(1) by auto
    from OnSClosed_ends [OF ok2 this] obtain w' where "OnSClosed a w2 = Some w'" "only a w2 w'" "w_wire w' = w_wire w2"
      "w_sockets w' = w_sockets w2" "w_connections w' = w_connections w2"
      "w_conns w' = (w_conns w2)(a := (w_conns w2 a)\<lparr>c_inFragQueue := Some []\<rparr>)" by blast
    with ConnServer c2 only_trans [OF \<open>only a w2 w'\<close> only_count(2)] show ?thesis by auto
  qed (use c2 in auto)
  then obtain w3 where 3: "(case c_connType (w_conns w2 a) of
           ConnClient \<Rightarrow> Some (addCConn (-1) w2)
         | ConnServer \<Rightarrow> do { w \<leftarrow> OnSClosed a w2; Some (addSConn (-1) w) }
         | ConnNone \<Rightarrow> Some w2) = Some w3" "only a w2 w3" "w_wire w3 a = w_wire w2 a"
      "c_outboundBuffer (w_conns w3 a) = out" "w_sockets w3 ?fd = None" "w_connections w3 ?fd = None" by blast
  have fd3: "c_fd (w_conns w3 a) = ?fd" using only_trans [OF o2 3(2)] by (simp add: only_def)
  from releaseTCP_ok [of w3 a] 3(4-6) f(2) fd3 obtain w' where
    "releaseTCP a w3 = Some w'" "only a w3 w'" "w_wire w' = w_wire w3" "closed_conn w' a" by auto
  with step 3(1,3) c2(2) f(3) only_trans [OF only_trans [OF o2 3(2)] \<open>only a w3 w'\<close>] show ?thesis
    by (intro exI [of _ w'] exI [of _ d] exI [of _ "eb_abs out"]) simp
qed

lemma closeConn_closed: "\<not> c_opened (w_conns w a) \<Longrightarrow> closeConn a w = Some (w, None)"
  by (simp add: closeConn_def)

section \<open>Writing keeps the stream in order\<close>

text \<open>The two ways a write can end: the data is behind everything written before, or the connection is gone.\<close>

definition appended :: "nat \<Rightarrow> bytes \<Rightarrow> ('t, 'h) W \<Rightarrow> ('t, 'h) W \<Rightarrow> bool" where
  "appended a data w w' \<longleftrightarrow> live w' a \<and> out_stream w' a = out_stream w a @ data \<and>
     (\<exists>d. w_wire w' a = w_wire w a @ d) \<and> c_inFragQueue (w_conns w' a) = c_inFragQueue (w_conns w a) \<and>
     c_outFragQueue (w_conns w' a) = c_outFragQueue (w_conns w a) \<and>
     c_inMsgQueue (w_conns w' a) = c_inMsgQueue (w_conns w a) \<and> conn_in (w_conns w' a) = conn_in (w_conns w a)"

definition lost :: "nat \<Rightarrow> bytes \<Rightarrow> ('t, 'h) W \<Rightarrow> ('t, 'h) W \<Rightarrow> bool" where
  "lost a data w w' \<longleftrightarrow> closed_conn w' a \<and>
     (\<exists>d rest. w_wire w' a = w_wire w a @ d \<and> w_wire w' a @ rest = out_stream w a @ data)"

abbreviation out_room :: "nat \<Rightarrow> bytes \<Rightarrow> ('t, 'h) W \<Rightarrow> bool" where
  "out_room a data w \<equiv> int (length (eb_abs (c_outboundBuffer (w_conns w a)) @ data)) \<le> 2 ^ 62"

lemma buf_Write_ok:
  assumes "eb_inv (c_outboundBuffer (w_conns w a))" "out_room a data w"
  shows "\<exists>out. buf_Write a data w = Some (set_out a out w) \<and> eb_inv out \<and>
    eb_abs out = eb_abs (c_outboundBuffer (w_conns w a)) @ data"
proof -
  obtain out where "eb_Write (w_mem w) (ring_empty (w_mem w)) (c_outboundBuffer (w_conns w a)) data = Some (out, int (length data))"
    "eb_inv out" "eb_abs out = eb_abs (c_outboundBuffer (w_conns w a)) @ data"
    using eb_Write_abs [OF assms(1) ring_inv_shapes(1) ring_abs_shapes(1) assms(2)] by blast
  then show ?thesis by (intro exI [of _ out]) (simp add: buf_Write_def)
qed

lemma buf_Writev_ok:
  assumes "eb_inv (c_outboundBuffer (w_conns w a))" "out_room a (concat bs) w"
  shows "\<exists>out. buf_Writev a bs w = Some (set_out a out w) \<and> eb_inv out \<and>
    eb_abs out = eb_abs (c_outboundBuffer (w_conns w a)) @ concat bs"
proof -
  obtain out where "eb_Writev (w_mem w) (ring_empty (w_mem w)) (c_outboundBuffer (w_conns w a)) bs = Some (out, int (length (concat bs)))"
    "eb_inv out" "eb_abs out = eb_abs (c_outboundBuffer (w_conns w a)) @ concat bs"
    using eb_Writev_abs [OF assms(1) ring_inv_shapes(1) ring_abs_shapes(1) assms(2)] by blast
  then show ?thesis by (intro exI [of _ out]) (simp add: buf_Writev_def)
qed

lemma live_sent_to [simp]: "live (sent_to s d io w) a = live w a"
  by (simp add: live_def Let_def)

lemma frags_ok_sent_to [simp]: "frags_ok (sent_to s d io w) = frags_ok w"
  by (simp add: frags_ok_def)

lemma live_set_out: "live w a \<Longrightarrow> eb_inv out \<Longrightarrow> live (set_out a out w) a"
  by (simp add: live_def Let_def)

lemma only_set_out [simp]: "only a w (set_out a out w)"
  by (rule only_upd_conn) simp

lemma buffered_appended:
  assumes "live w a" "eb_inv out" "eb_abs out = eb_abs (c_outboundBuffer (w_conns w a)) @ data"
  shows "appended a data w (set_out a out w)"
  using assms by (simp add: appended_def live_set_out out_stream_def conn_in_def)

lemma rearm:
  assumes "live w a" "eb_inv out"
  shows "\<exists>w'. ModReadWrite a (set_out a out w) = Some (w', None) \<and> only a w w' \<and> live w' a \<and>
    w_wire w' = w_wire w \<and> w_conns w' a = (w_conns w a)\<lparr>c_outboundBuffer := out\<rparr>"
proof -
  let ?w = "set_out a out w" and ?fd = "c_fd (w_conns w a)"
  let ?w' = "?w\<lparr>w_poll := (w_poll w)(?fd := Some ReadWrite)\<rparr>"
  have "ModReadWrite a ?w = Some (?w', None)"
    using assms(1) by (simp add: ModReadWrite_def poll_fd_def epoll_mod_def live_def Let_def)
  moreover have "only a w ?w'" by (simp add: only_def upd_conn_def Frag_Timeout_id)
  moreover have "live ?w' a" using live_set_out [OF assms] by (simp add: live_def Let_def)
  moreover have "w_wire ?w' = w_wire w" "w_conns ?w' a = (w_conns w a)\<lparr>c_outboundBuffer := out\<rparr>" by simp_all
  ultimately show ?thesis by blast
qed

text \<open>The rest of some data goes to the empty output buffer after the kernel took the first \<open>n\<close> bytes.\<close>

lemma stored_rest:
  assumes live: "live w a" and empty: "eb_abs (c_outboundBuffer (w_conns w a)) = []"
    and out: "eb_inv out" "eb_abs out = drop n data"
  shows "\<exists>w'. ModReadWrite a (set_out a out (sent_to a (take n data) io w)) = Some (w', None) \<and> only a w w' \<and>
    appended a data w w'"
proof -
  let ?w = "sent_to a (take n data) io w"
  have "live ?w a" using live by simp
  from rearm [OF this out(1)] obtain w' where w': "ModReadWrite a (set_out a out ?w) = Some (w', None)" "only a ?w w'"
    "live w' a" "w_wire w' = w_wire ?w" "w_conns w' a = (w_conns ?w a)\<lparr>c_outboundBuffer := out\<rparr>" by blast
  moreover have "only a w w'" by (rule only_trans [OF only_sent_to w'(2)])
  moreover have "appended a data w w'"
    using w'(3-5) empty out(2) by (auto simp: appended_def out_stream_def conn_in_def)
  ultimately show ?thesis by blast
qed

lemma failed_lost:
  assumes "live w a" "frags_ok w"
  shows "\<exists>w'. closeConn a (sent_to a [] io w) = Some (w', None) \<and> only a w w' \<and> lost a data w w'"
proof -
  let ?w = "sent_to a [] io w"
  have "live ?w a" "frags_ok ?w" using assms by simp_all
  from closeConn_live [OF this] obtain w' d rest where w': "closeConn a ?w = Some (w', None)" "only a ?w w'"
    "closed_conn w' a" "w_wire w' a = w_wire ?w a @ d" "d @ rest = eb_abs (c_outboundBuffer (w_conns ?w a))" by blast
  moreover have "eb_abs (c_outboundBuffer (w_conns w a)) = d @ rest" using w'(5) by simp
  moreover from this have "lost a data w w'" unfolding lost_def out_stream_def using w'(3,4)
    by (auto intro!: exI [of _ "rest @ data"])
  ultimately show ?thesis using only_trans [OF only_sent_to w'(2)] by blast
qed

lemma conn_write_ok:
  assumes live: "live w a" and ok: "frags_ok w" and room: "out_room a data w"
  shows "\<exists>w' n. conn_write a data w = Some (w', n, None) \<and> only a w w' \<and> (appended a data w w' \<or> lost a data w w')"
proof -
  let ?out = "c_outboundBuffer (w_conns w a)" and ?fd = "c_fd (w_conns w a)"
  have l: "eb_inv ?out" "w_sockets w ?fd = Some a" using live by (simp_all add: live_def Let_def)
  show ?thesis
  proof (cases "eb_abs ?out = []")
    case False
    from buf_Write_ok [OF l(1) room] obtain out where
      "buf_Write a data w = Some (set_out a out w)" "eb_inv out" "eb_abs out = eb_abs ?out @ data" by blast
    with False l(1) buffered_appended [OF live, of out data] show ?thesis
      by (auto simp: conn_write_def Let_def eb_IsEmpty_abs)
  next
    case empty: True
    have room': "out_room a (drop n data) (sent_to a d io w)" for n d io using room by simp
    have bw: "\<exists>out. buf_Write a (drop n data) (sent_to a d io w) = Some (set_out a out (sent_to a d io w)) \<and>
        eb_inv out \<and> eb_abs out = drop n data" for n d io
      using buf_Write_ok [of "sent_to a d io w" a "drop n data", OF _ room'] l(1) empty by simp
    show ?thesis
    proof (cases "data = []")
      case True
      have "appended a [] w w" using live by (simp add: appended_def)
      with True empty l show ?thesis by (simp add: conn_write_def sys_write_def eb_IsEmpty_abs)
    next
      case False
      with l(2) show ?thesis
      proof (cases rule: sys_write_cases)
        case (sent n io)
        show ?thesis
        proof (cases "n < length data")
          case True
          from bw [of n "take n data" io] obtain out where out:
            "buf_Write a (drop n data) (sent_to a (take n data) io w) = Some (set_out a out (sent_to a (take n data) io w))"
            "eb_inv out" "eb_abs out = drop n data" by blast
          from stored_rest [OF live empty out(2,3)] obtain w' where
            "ModReadWrite a (set_out a out (sent_to a (take n data) io w)) = Some (w', None)" "only a w w'"
            "appended a data w w'" by blast
          with sent(3) True empty l(1) out(1) show ?thesis
            by (simp add: conn_write_def eb_IsEmpty_abs slice_ends)
        next
          case False
          with sent(2) have "n = length data" by simp
          moreover have "appended a data w (sent_to a data io w)"
            using live empty by (simp add: appended_def out_stream_def)
          ultimately show ?thesis using sent(3) empty l(1) by (simp add: conn_write_def eb_IsEmpty_abs)
        qed
      next
        case (again io)
        from bw [of 0 "[]" io] obtain out where out:
          "buf_Write a data (sent_to a [] io w) = Some (set_out a out (sent_to a [] io w))"
          "eb_inv out" "eb_abs out = drop 0 data" by auto
        from stored_rest [OF live empty out(2,3), of io] again empty l(1) out(1) show ?thesis
          by (auto simp: conn_write_def eb_IsEmpty_abs)
      next
        case (fails io e)
        with failed_lost [OF live ok, of io data] empty l(1) show ?thesis
          by (auto simp: conn_write_def eb_IsEmpty_abs)
      qed
    qed
  qed
qed

lemma left_over_concat:
  "n < length (concat bs) \<Longrightarrow> \<exists>r. left_over (int n) bs = Some r \<and> concat r = drop n (concat bs)"
proof (induction bs arbitrary: n)
  case (Cons b bs)
  show ?case
  proof (cases "n < length b")
    case False
    then obtain k where k: "n = length b + k" using le_Suc_ex not_less by blast
    with Cons.prems Cons.IH [of k] show ?thesis by simp
  qed simp
qed simp

lemma conn_writev_ok:
  assumes live: "live w a" and ok: "frags_ok w" and room: "out_room a (concat bs) w" and len: "length bs \<le> iovMax"
  shows "\<exists>w' n. conn_writev a bs w = Some (w', n, None) \<and> only a w w' \<and>
    (appended a (concat bs) w w' \<or> lost a (concat bs) w w')"
proof -
  let ?out = "c_outboundBuffer (w_conns w a)" and ?fd = "c_fd (w_conns w a)" and ?data = "concat bs"
  have l: "eb_inv ?out" "w_sockets w ?fd = Some a" using live by (simp_all add: live_def Let_def)
  show ?thesis
  proof (cases "eb_abs ?out = []")
    case False
    from buf_Writev_ok [OF l(1) room] obtain out where
      "buf_Writev a bs w = Some (set_out a out w)" "eb_inv out" "eb_abs out = eb_abs ?out @ ?data" by blast
    with False l(1) buffered_appended [OF live, of out ?data] show ?thesis
      by (auto simp: conn_writev_def Let_def eb_IsEmpty_abs)
  next
    case empty: True
    have bw: "\<exists>out. buf_Writev a r (sent_to a d io w) = Some (set_out a out (sent_to a d io w)) \<and>
        eb_inv out \<and> eb_abs out = drop n ?data" if "concat r = drop n ?data" for n d io r
      using buf_Writev_ok [of "sent_to a d io w" a r] l(1) empty room that by simp
    show ?thesis
    proof (cases "?data = []")
      case True
      have "appended a [] w w" using live by (simp add: appended_def)
      moreover have "io_Writev ?fd bs w = (w, 0, None)"
        using True len l(2) by (simp add: io_Writev_def iovMax_def sys_write_def del: concat_eq_Nil_conv)
      ultimately show ?thesis using True empty l(1) by (simp add: conn_writev_def eb_IsEmpty_abs del: concat_eq_Nil_conv)
    next
      case False
      have wv: "io_Writev ?fd bs w = sys_write ?fd ?data w"
        using False len by (auto simp: io_Writev_def iovMax_def)
      from l(2) False show ?thesis
      proof (cases rule: sys_write_cases)
        case (sent n io)
        show ?thesis
        proof (cases "n < length ?data")
          case True
          from left_over_concat [OF this] obtain r where r: "left_over (int n) bs = Some r" "concat r = drop n ?data" by blast
          from bw [OF r(2), of "take n ?data" io] obtain out where out:
            "buf_Writev a r (sent_to a (take n ?data) io w) = Some (set_out a out (sent_to a (take n ?data) io w))"
            "eb_inv out" "eb_abs out = drop n ?data" by blast
          from stored_rest [OF live empty out(2,3)] obtain w' where
            "ModReadWrite a (set_out a out (sent_to a (take n ?data) io w)) = Some (w', None)" "only a w w'"
            "appended a ?data w w'" by blast
          with sent(3) True empty l(1) out(1) r(1) wv show ?thesis
            by (simp add: conn_writev_def eb_IsEmpty_abs)
        next
          case False
          with sent(2) have "n = length ?data" by simp
          moreover have "appended a ?data w (sent_to a ?data io w)"
            using live empty by (simp add: appended_def out_stream_def)
          ultimately show ?thesis using sent(3) empty l(1) wv by (simp add: conn_writev_def eb_IsEmpty_abs)
        qed
      next
        case (again io)
        from bw [of bs 0 "[]" io] obtain out where out:
          "buf_Writev a bs (sent_to a [] io w) = Some (set_out a out (sent_to a [] io w))"
          "eb_inv out" "eb_abs out = drop 0 ?data" by auto
        from stored_rest [OF live empty out(2,3), of io] again empty l(1) out(1) wv show ?thesis
          by (auto simp: conn_writev_def eb_IsEmpty_abs)
      next
        case (fails io e)
        with failed_lost [OF live ok, of io ?data] empty l(1) wv show ?thesis
          by (auto simp: conn_writev_def eb_IsEmpty_abs)
      qed
    qed
  qed
qed

lemma conn_writev_Nil: "conn_writev a [] w = Some (w, 0, None)"
  by (simp add: conn_writev_def io_Writev_def buf_Writev_def eb_Writev_def Let_def upd_conn_def)

text \<open>A write on a closed connection changes nothing.\<close>

lemma conn_writev_closed:
  assumes "closed_conn w a"
  shows "\<exists>n. conn_writev a bs w = Some (w, n, None)"
  using assms closeConn_closed [of w a]
  by (auto simp: closed_conn_def Let_def conn_writev_def io_Writev_def sys_write_def eb_IsEmpty_abs EINVAL_def)

lemma conn_write_closed:
  assumes "closed_conn w a"
  shows "\<exists>n. conn_write a data w = Some (w, n, None)"
  using assms closeConn_closed [of w a]
  by (auto simp: closed_conn_def Let_def conn_write_def sys_write_def eb_IsEmpty_abs)

lemma appended_trans: "appended a x w1 w2 \<Longrightarrow> appended a y w2 w3 \<Longrightarrow> appended a (x @ y) w1 w3"
  by (auto simp: appended_def)

lemma appended_lost: "appended a x w1 w2 \<Longrightarrow> lost a y w2 w3 \<Longrightarrow> lost a (x @ y) w1 w3"
  by (auto simp: appended_def lost_def)

lemma lost_longer: "lost a x w1 w2 \<Longrightarrow> lost a (x @ y) w1 w2"
  unfolding lost_def by (metis append_assoc)

lemma appended_room:
  assumes "appended a x w w'" "out_room a (x @ y) w"
  shows "out_room a y w'"
proof -
  from assms(1) obtain d where "w_wire w' a = w_wire w a @ d" "out_stream w' a = out_stream w a @ x"
    by (auto simp: appended_def)
  then have "length d + length (eb_abs (c_outboundBuffer (w_conns w' a))) =
      length (eb_abs (c_outboundBuffer (w_conns w a))) + length x"
    by (simp add: out_stream_def) (metis append_assoc length_append same_append_eq)
  then have "length (eb_abs (c_outboundBuffer (w_conns w' a)) @ y) \<le> length (eb_abs (c_outboundBuffer (w_conns w a)) @ x @ y)"
    by simp
  with assms(2) show ?thesis by linarith
qed

lemma write_batches_ok:
  assumes "live w a" "frags_ok w" "out_room a (concat bs) w"
  shows "\<exists>w' bs'. write_batches a bs w = Some (w', bs', None) \<and> only a w w' \<and>
    (appended a (concat bs) w w' \<and> bs' = [] \<or> lost a (concat bs) w w')"
  using assms
proof (induction "length bs" arbitrary: bs w rule: less_induct)
  case less
  show ?case
  proof (cases "bs = []")
    case True
    with less.prems show ?thesis by (subst write_batches.simps) (simp add: appended_def)
  next
    case False
    let ?r = "min (length bs) iovMax" and ?x = "take (min (length bs) iovMax) bs" and ?y = "drop (min (length bs) iovMax) bs"
    have xy: "concat ?x @ concat ?y = concat bs" by (metis append_take_drop_id concat_append)
    have room: "out_room a (concat ?x @ concat ?y) w" using less.prems(3) by (simp add: xy del: append_take_drop_id)
    then have "out_room a (concat ?x) w" "length ?x \<le> iovMax" by simp_all
    from conn_writev_ok [OF less.prems(1,2) this] obtain w1 n where
      1: "conn_writev a ?x w = Some (w1, n, None)" "only a w w1" "appended a (concat ?x) w w1 \<or> lost a (concat ?x) w w1" by blast
    have step: "write_batches a bs w = (if \<not> c_opened (w_conns w1 a) then Some (w1, bs, None) else write_batches a ?y w1)"
      using False 1(1) by (subst write_batches.simps) (simp add: Let_def)
    from 1(3) show ?thesis
    proof
      assume ap: "appended a (concat ?x) w w1"
      then have "live w1 a" by (simp add: appended_def)
      moreover have "length ?y < length bs" using False by (cases bs) (simp_all add: iovMax_def)
      ultimately obtain w' bs' where 2: "write_batches a ?y w1 = Some (w', bs', None)" "only a w1 w'"
        "appended a (concat ?y) w1 w' \<and> bs' = [] \<or> lost a (concat ?y) w1 w'"
        using less.hyps [OF _ _ only_frags_ok [OF 1(2) less.prems(2)] appended_room [OF ap room]] by blast
      have "c_opened (w_conns w1 a)" using \<open>live w1 a\<close> by (simp add: live_def Let_def)
      with step 2(1) only_trans [OF 1(2) 2(2)] 2(3) appended_trans [OF ap, of "concat ?y" w'] appended_lost [OF ap, of "concat ?y" w']
      show ?thesis unfolding xy by auto
    next
      assume lo: "lost a (concat ?x) w w1"
      then have "\<not> c_opened (w_conns w1 a)" by (simp add: lost_def closed_conn_def Let_def)
      with step 1(2) lost_longer [OF lo, of "concat ?y"] show ?thesis unfolding xy by auto
    qed
  qed
qed

section \<open>Sending requests\<close>

lemma push_timeout_simps [simp]:
  "w_conns (pushToTimeoutQueue now f k w) = w_conns w" "w_sockets (pushToTimeoutQueue now f k w) = w_sockets w"
  "w_poll (pushToTimeoutQueue now f k w) = w_poll w" "w_connections (pushToTimeoutQueue now f k w) = w_connections w"
  "w_wire (pushToTimeoutQueue now f k w) = w_wire w" "w_cfg (pushToTimeoutQueue now f k w) = w_cfg w"
  "w_msgs (pushToTimeoutQueue now f k w) = w_msgs w" "w_now (pushToTimeoutQueue now f k w) = w_now w"
  "w_nconn (pushToTimeoutQueue now f k w) = w_nconn w" "w_ProxyPool (pushToTimeoutQueue now f k w) = w_ProxyPool w"
  "w_dials (pushToTimeoutQueue now f k w) = w_dials w" "w_Slots2Node (pushToTimeoutQueue now f k w) = w_Slots2Node w" "w_nmsg (pushToTimeoutQueue now f k w) = w_nmsg w"
  "w_msgPool (pushToTimeoutQueue now f k w) = w_msgPool w" "w_fragId (pushToTimeoutQueue now f k w) = w_fragId w" "w_ClusterNodes (pushToTimeoutQueue now f k w) = w_ClusterNodes w" "w_authCmd (pushToTimeoutQueue now f k w) = w_authCmd w"
  by (simp_all add: pushToTimeoutQueue_def Let_def upd_frag_def)

lemma only_push_timeout [simp]: "only a w (pushToTimeoutQueue now f k w)"
proof -
  have "\<exists>t. w_frags (pushToTimeoutQueue now f k w) g = (w_frags w g)\<lparr>f_Timeout := t\<rparr>" for g
  proof -
    have "\<exists>t. (w_frags w g)\<lparr>f_Timeout := now + wrap64 (k * Millisecond)\<rparr> = (w_frags w g)\<lparr>f_Timeout := t\<rparr>" by blast
    then show ?thesis by (auto simp: pushToTimeoutQueue_def Let_def upd_frag_def Frag_Timeout_id)
  qed
  then show ?thesis by (simp add: only_def)
qed

lemma only_Req:
  assumes "only a w w'"
  shows "f_Req (w_frags w' f) = f_Req (w_frags w f)"
proof -
  from assms obtain t where "w_frags w' f = (w_frags w f)\<lparr>f_Timeout := t\<rparr>" unfolding only_def by blast
  then show ?thesis by simp
qed

lemma take_out_frags_ok:
  assumes "c_outFragQueue (w_conns w a) = Some q" "c_inFragQueue (w_conns w a) = Some p"
  shows "\<exists>w'. take_out_frags a q w bs = Some (w', bs @ map (\<lambda>f. f_Req (w_frags w f)) q) \<and> only a w w' \<and>
    w_wire w' = w_wire w \<and> w_sockets w' = w_sockets w \<and> w_poll w' = w_poll w \<and> w_connections w' = w_connections w \<and>
    w_conns w' a = (w_conns w a)\<lparr>c_inFragQueue := Some (p @ q), c_outFragQueue := Some []\<rparr>"
  using assms
proof (induction q arbitrary: w p bs)
  case Nil
  have "(w_conns w a)\<lparr>c_inFragQueue := Some p, c_outFragQueue := Some []\<rparr> = w_conns w a"
    using Nil by (cases "w_conns w a") simp
  with Nil show ?case by simp
next
  case (Cons f q)
  define w1 where "w1 = upd_conn a (\<lambda>c. c\<lparr>c_outFragQueue := Some q\<rparr>) w"
  define w2 where "w2 = pushToTimeoutQueue (w_now w) f (g_RedisRequestTimeout (w_cfg w))
    (upd_conn a (\<lambda>c. c\<lparr>c_inFragQueue := Some (p @ [f])\<rparr>) w1)"
  have o: "only a w w2" unfolding w1_def w2_def
    by (rule only_trans [OF only_trans [OF only_upd_conn only_upd_conn] only_push_timeout]) simp_all
  have c: "w_conns w2 a = (w_conns w a)\<lparr>c_outFragQueue := Some q, c_inFragQueue := Some (p @ [f])\<rparr>"
    "w_wire w2 = w_wire w" "w_sockets w2 = w_sockets w" "w_poll w2 = w_poll w" "w_connections w2 = w_connections w"
    by (simp_all add: w1_def w2_def)
  then have "c_outFragQueue (w_conns w2 a) = Some q" "c_inFragQueue (w_conns w2 a) = Some (p @ [f])" by simp_all
  from Cons.IH [OF this, of "bs @ [f_Req (w_frags w f)]"] obtain w' where
    w': "take_out_frags a q w2 (bs @ [f_Req (w_frags w f)]) =
        Some (w', (bs @ [f_Req (w_frags w f)]) @ map (\<lambda>f. f_Req (w_frags w2 f)) q)" "only a w2 w'"
      "w_wire w' = w_wire w2" "w_sockets w' = w_sockets w2" "w_poll w' = w_poll w2" "w_connections w' = w_connections w2"
      "w_conns w' a = (w_conns w2 a)\<lparr>c_inFragQueue := Some ((p @ [f]) @ q), c_outFragQueue := Some []\<rparr>" by blast
  have "dequeueOutFrag a w = Some w1" using Cons.prems by (simp add: dequeueOutFrag_def w1_def)
  moreover have "enqueueInFrag a f w1 = Some w2" using Cons.prems by (simp add: enqueueInFrag_def w1_def w2_def Let_def)
  ultimately have "take_out_frags a (f # q) w bs = Some (w', bs @ map (\<lambda>f. f_Req (w_frags w f)) (f # q))"
    using w'(1) only_Req [OF o] by simp
  with w' c only_trans [OF o w'(2)] show ?case by (intro exI [of _ w']) simp
qed

lemma handleWriteSignal_ok:
  assumes live: "live w a" and ok: "frags_ok w" and q: "c_outFragQueue (w_conns w a) = Some q"
    and p: "c_inFragQueue (w_conns w a) = Some p"
    and room: "out_room a (concat (map (\<lambda>f. f_Req (w_frags w f)) q)) w"
  shows "\<exists>w'. handleWriteSignal a w = Some (w', None) \<and> only a w w' \<and>
    (live w' a \<and> out_stream w' a = out_stream w a @ concat (map (\<lambda>f. f_Req (w_frags w f)) q) \<and>
       c_inFragQueue (w_conns w' a) = Some (p @ q) \<and> c_outFragQueue (w_conns w' a) = Some []
     \<or> lost a (concat (map (\<lambda>f. f_Req (w_frags w f)) q)) w w')"
proof (cases "q = []")
  case True
  with assms show ?thesis by (simp add: handleWriteSignal_def live_def Let_def)
next
  case False
  let ?bs = "map (\<lambda>f. f_Req (w_frags w f)) q"
  from take_out_frags_ok [OF q p, of "[]"] obtain w1 where
    1: "take_out_frags a q w [] = Some (w1, ?bs)" "only a w w1" "w_wire w1 = w_wire w" "w_sockets w1 = w_sockets w"
      "w_poll w1 = w_poll w" "w_connections w1 = w_connections w"
      "w_conns w1 a = (w_conns w a)\<lparr>c_inFragQueue := Some (p @ q), c_outFragQueue := Some []\<rparr>" by auto
  have l1: "live w1 a" using live 1(3-7) by (simp add: live_def Let_def)
  have "frags_ok w1" by (rule only_frags_ok [OF 1(2) ok])
  moreover have "out_room a (concat ?bs) w1" using room 1(7) by simp
  ultimately obtain w2 bs' where 2: "write_batches a ?bs w1 = Some (w2, bs', None)" "only a w1 w2"
    "appended a (concat ?bs) w1 w2 \<and> bs' = [] \<or> lost a (concat ?bs) w1 w2"
    using write_batches_ok [OF l1] by blast
  have fin: "\<exists>n. conn_writev a bs' w2 = Some (w2, n, None)"
  proof (cases "lost a (concat ?bs) w1 w2")
    case True
    then show ?thesis using conn_writev_closed by (auto simp: lost_def)
  next
    case False
    with 2(3) show ?thesis by (simp add: conn_writev_Nil)
  qed
  have str: "out_stream w1 a = out_stream w a" using 1(3,7) by (simp add: out_stream_def)
  have "c_opened (w_conns w a)" using live by (simp add: live_def Let_def)
  with False q 1(1) 2(1) fin have "handleWriteSignal a w = Some (w2, None)"
    by (auto simp: handleWriteSignal_def)
  moreover have "live w2 a \<and> out_stream w2 a = out_stream w a @ concat ?bs \<and>
       c_inFragQueue (w_conns w2 a) = Some (p @ q) \<and> c_outFragQueue (w_conns w2 a) = Some []
     \<or> lost a (concat ?bs) w w2"
    using 2(3) str 1(3,7) by (auto simp: appended_def lost_def)
  ultimately show ?thesis using only_trans [OF 1(2) 2(2)] by blast
qed

lemma eb_Discard_neg:
  assumes "eb_inv mb"
  shows "\<exists>mb' e. eb_Discard mb (-1) = Some (mb', 0, e) \<and> eb_inv mb' \<and> eb_abs mb' = eb_abs mb"
  using assms er_done_inv
  by (cases "eb_ring mb")
    (auto simp: eb_Discard_def er_Discard_def ring_Discard_def eb_inv_def eb_abs_def er_inv_def er_abs_def)

lemma loop_write_ok:
  assumes live: "live w a" and ok: "frags_ok w" and ne: "eb_abs (c_outboundBuffer (w_conns w a)) \<noteq> []"
  shows "\<exists>w'. loop_write a w = Some (w', None) \<and> only a w w' \<and> (appended a [] w w' \<or> lost a [] w w')"
proof -
  let ?out = "c_outboundBuffer (w_conns w a)" and ?fd = "c_fd (w_conns w a)"
  have l: "eb_inv ?out" "w_sockets w ?fd = Some a" using live by (simp_all add: live_def Let_def)
  from eb_Peek_progress [OF l(1) ne, of iovMax "-1"] obtain out iov k where
    p: "eb_Peek ?out (-1) = Some (out, iov)" "eb_inv out" "eb_abs out = eb_abs ?out" "iov \<noteq> []" "0 < k"
      "k \<le> length (eb_abs ?out)" "concat (take iovMax iov) = take k (eb_abs ?out)"
    by (auto simp: iovMax_def simp del: split_paired_Ex)
  let ?w = "set_out a out w" and ?d = "concat (take iovMax iov)"
  have ne': "?d \<noteq> []" using p(5-7) ne by auto
  have sock: "w_sockets ?w ?fd = Some a" using l(2) by simp
  have lw: "live ?w a" by (rule live_set_out [OF live p(2)])
  have okw: "frags_ok ?w" by (rule only_frags_ok [OF only_set_out ok])
  have iow: "length iov > 1 \<Longrightarrow> io_Writev ?fd (take iovMax iov) ?w = sys_write ?fd ?d ?w"
    "\<not> length iov > 1 \<Longrightarrow> idx iov 0 = Some ?d"
    using p(4) by (cases iov; simp add: io_Writev_def iovMax_def idx_def)+
  have step: "loop_write a w = (case sys_write ?fd ?d ?w of (w, n, err) \<Rightarrow> do {
     (out, _, _) \<leftarrow> eb_Discard (c_outboundBuffer (w_conns w a)) n;
     let w = upd_conn a (\<lambda>c. c\<lparr>c_outboundBuffer := out\<rparr>) w;
     (case err of
        Some e \<Rightarrow> if e = EAGAIN then Some (w, None) else closeConn a w
      | None \<Rightarrow>
          if eb_IsEmpty (c_outboundBuffer (w_conns w a)) then do { (w, _) \<leftarrow> ModRead a w; Some (w, None) }
          else Some (w, None)) })"
    using p(1) iow by (cases "length iov > 1") (simp_all add: loop_write_def Let_def)
  have ext: "appended a [] w (set_out a out1 (sent_to a (take n ?d) io ?w))"
    if "eb_inv out1" "take n ?d @ eb_abs out1 = eb_abs ?out" for out1 n io
    using that lw by (auto simp: appended_def live_set_out out_stream_def conn_in_def)
  have o: "only a w (set_out a out1 (sent_to a d io ?w))" for out1 d io
    by (rule only_trans [OF only_trans [OF only_set_out only_sent_to] only_set_out])
  obtain out0 e0 where neg: "eb_Discard out (-1) = Some (out0, 0, e0)" "eb_inv out0" "eb_abs out0 = eb_abs ?out"
    using eb_Discard_neg [OF p(2)] p(3) by auto
  from sock ne' show ?thesis
  proof (cases rule: sys_write_cases)
    case (sent n io)
    obtain out1 e where out1: "eb_Discard out (int n) = Some (out1, int (min n (length (eb_abs out))), e)" "eb_inv out1"
      "eb_abs out1 = drop n (eb_abs out)" using eb_Discard_abs [OF p(2)] by blast
    let ?w1 = "set_out a out1 (sent_to a (take n ?d) io ?w)"
    have "take n ?d @ eb_abs out1 = eb_abs ?out"
      using out1(3) p(3,6,7) sent(2) by (simp add: min_absorb1)
    then have ap: "appended a [] w ?w1" by (rule ext [OF out1(2)])
    have "\<exists>w'. ModRead a ?w1 = Some (w', None) \<and> only a ?w1 w' \<and> appended a [] ?w1 w'"
    proof -
      let ?w' = "?w1\<lparr>w_poll := (w_poll ?w1)(?fd := Some ReadOnly)\<rparr>"
      have l1: "live ?w1 a" using ap by (simp add: appended_def)
      then have "ModRead a ?w1 = Some (?w', None)"
        by (simp add: ModRead_def poll_fd_def epoll_mod_def live_def Let_def)
      moreover have "only a ?w1 ?w'" by (simp add: only_def Frag_Timeout_id)
      moreover have "appended a [] ?w1 ?w'" using l1 by (simp add: appended_def live_def Let_def out_stream_def)
      ultimately show ?thesis by blast
    qed
    then obtain w' where w': "ModRead a ?w1 = Some (w', None)" "only a ?w1 w'" "appended a [] ?w1 w'" by blast
    have "loop_write a w = (if eb_IsEmpty out1 then Some (w', None) else Some (?w1, None))"
      using step sent(3) out1(1) w'(1) by simp
    with ap o [of out1 "take n ?d" io] only_trans [OF o w'(2)] appended_trans [OF ap w'(3)] show ?thesis by auto
  next
    case (again io)
    with step neg(1) have "loop_write a w = Some (set_out a out0 (sent_to a (take 0 ?d) io ?w), None)" by simp
    with ext [of out0 0 io, OF neg(2)] neg(3) o [of out0 "take 0 ?d" io] show ?thesis by auto
  next
    case (fails io e)
    let ?w1 = "set_out a out0 (sent_to a [] io ?w)"
    have l1: "live ?w1 a" using lw neg(2) by (simp add: live_set_out)
    from closeConn_live [OF l1 only_frags_ok [OF o ok]] obtain w' d rest where
      "closeConn a ?w1 = Some (w', None)" "only a ?w1 w'" "closed_conn w' a" "w_wire w' a = w_wire ?w1 a @ d"
      "d @ rest = eb_abs (c_outboundBuffer (w_conns ?w1 a))" by blast
    moreover from this have "lost a [] w w'" unfolding lost_def out_stream_def
      using neg(3) by (auto intro!: exI [of _ rest])
    moreover have "only a w w'" by (rule only_trans [OF o \<open>only a ?w1 w'\<close>])
    ultimately show ?thesis using step fails neg(1) by auto
  qed
qed

lemma asyncWrite_ok:
  assumes "live w a" "frags_ok w" "out_room a data w"
  shows "\<exists>w'. asyncWrite a data w = Some (w', None) \<and> only a w w' \<and> (appended a data w w' \<or> lost a data w w')"
  using conn_write_ok [OF assms] assms(1) by (auto simp: asyncWrite_def live_def Let_def)

section \<open>A concrete state\<close>

text \<open>
  An instance of the tree of timeouts (a list sorted by timeout) and a state with one open redis
  connection of descriptor 5 and two fragments to be sent to it.
\<close>

fun put_timeout :: "int \<times> nat \<Rightarrow> (int \<times> nat) list \<Rightarrow> (int \<times> nat) list" where
  "put_timeout x [] = [x]"
| "put_timeout x (y # ys) =
     (if fst x < fst y then x # y # ys else if fst x = fst y then x # ys else y # put_timeout x ys)"

definition list_llrb :: "(int \<times> nat) list llrb" where
  "list_llrb = \<lparr>lr_ReplaceOrInsert = put_timeout, lr_Delete = (\<lambda>k. filter (\<lambda>x. fst x \<noteq> k)),
     lr_DeleteMin = (\<lambda>xs. (case xs of [] \<Rightarrow> None | x # _ \<Rightarrow> Some x, drop 1 xs)),
     lr_Min = (\<lambda>xs. case xs of [] \<Rightarrow> None | x # _ \<Rightarrow> Some x)\<rparr>"

definition example_config :: config where
  "example_config = \<lparr>g_WriteBufferCap = 4, g_MsgMaxLength = 1000, g_RedisRequestTimeout = 200,
     g_RedisServerConnections = 1, g_RedisPasswd = [], g_Password = [], g_DisableSlave = False,
     g_ServerRetryTimeout = 10\<rparr>"

definition example_conn :: "ConnType \<Rightarrow> int \<Rightarrow> conn" where
  "example_conn ct fd = \<lparr>c_localAddr = None, c_remoteAddr = Some ''10.0.0.1:6379'',
     c_outboundBuffer = \<lparr>eb_max = 4, eb_ring = None, eb_list = llb_empty\<rparr>, c_pollAttachment = Some fd,
     c_inboundBuffer = None, c_buffer = [], c_fd = fd, c_inMsgQueue = Some [], c_inFragQueue = Some [],
     c_outFragQueue = Some [], c_opened = True, c_isSlave = False, c_initStep = 0, c_initStatus = Initialized,
     c_connType = ct\<rparr>"

definition example_world :: "io_answer list \<Rightarrow> ((int \<times> nat) list, (string \<times> ClusterNode) list) world" where
  "example_world io =
     \<lparr>w_msgs = (\<lambda>_. new_Msg), w_nmsg = 0, w_msgPool = [], w_picks = [], w_msgId = 0,
      w_frags = (\<lambda>f. new_Frag\<lparr>f_Id := f, f_Req := if f = 1 then ''GET'' else if f = 2 then ''PUT'' else []\<rparr>),
      w_fragId = 2, w_timeoutTree = [], w_llrb = list_llrb,
      w_conns = (\<lambda>a. (example_conn ConnServer 5)\<lparr>c_outFragQueue := Some [1, 2], c_opened := a = 0\<rparr>), w_nconn = 1,
      w_connections = (\<lambda>fd. if fd = 5 then Some 0 else None),
      w_poll = (\<lambda>fd. if fd = 5 then Some ReadOnly else None),
      w_sockets = (\<lambda>fd. if fd = 5 then Some 0 else None), w_wire = (\<lambda>_. []), w_io = io, w_dials = [],
      w_tasks = [], w_now = 7, w_mem = [],
      w_cConnCount = 0, w_sConnCount = 1, w_nextTicker = 0, w_clusterChan = [], w_ProxyPool = [], w_ProxyAddrs = [],
      w_Slots2Node = (\<lambda>_. None),
      w_ClusterNodes = \<lparr>cn_ServerMap = [], cn_Replicasets = [], cn_lastServerNames = [], cn_serverChanged = False\<rparr>, w_hashmap = example_map, w_authCmd = [], w_Validate = (\<lambda>_. True), w_rand = [],
      w_cfg = example_config\<rparr>"

lemma example_buffer: "eb_inv \<lparr>eb_max = 4, eb_ring = None, eb_list = llb_empty\<rparr>"
  "eb_abs \<lparr>eb_max = 4, eb_ring = None, eb_list = llb_empty\<rparr> = []"
  using eb_New_inv [of 4] by (auto simp: eb_New_def)

lemma example_live: "live (example_world io) 0" "frags_ok (example_world io)"
  by (simp_all add: live_def Let_def example_world_def example_conn_def example_buffer er_inv_def frags_ok_def new_Frag_def)

section \<open>Stated properties\<close>

text \<open>
  C23: what a connection has received is one stream, however much of it is in the ring buffer and how
  much still in the read buffer: \<open>Peek\<close> shows its next bytes, and \<open>Next\<close>, \<open>Read\<close> and \<open>Discard\<close>
  remove exactly these.
\<close>

theorem connection_reads_one_stream:
  assumes "er_inv (c_inboundBuffer c)" "0 < n" "n \<le> length (conn_in c)"
  shows "conn_Peek c (int n) = Some (Inr (take n (conn_in c))) \<and>
    (\<exists>c'. conn_Next c (int n) = Some (c', Inr (take n (conn_in c))) \<and> conn_in c' = drop n (conn_in c)) \<and>
    (\<exists>c' e. conn_Read c n = Some (c', take n (conn_in c), e) \<and> conn_in c' = drop n (conn_in c)) \<and>
    (\<exists>c'. conn_Discard c (int n) = Some (c', int n) \<and> conn_in c' = drop n (conn_in c))"
proof (intro conjI)
  show "conn_Peek c (int n) = Some (Inr (take n (conn_in c)))" using conn_Peek_in assms by simp
  show "\<exists>c'. conn_Next c (int n) = Some (c', Inr (take n (conn_in c))) \<and> conn_in c' = drop n (conn_in c)"
    using conn_Next_in [OF assms(1), of "int n" n] assms(2,3) by (auto simp: conn_in_def)
  show "\<exists>c' e. conn_Read c n = Some (c', take n (conn_in c), e) \<and> conn_in c' = drop n (conn_in c)"
    using conn_Read_in [OF assms(1), of n] by (auto simp: conn_in_def)
  show "\<exists>c'. conn_Discard c (int n) = Some (c', int n) \<and> conn_in c' = drop n (conn_in c)"
    using conn_Discard_in [OF assms] by (auto simp: conn_in_def)
qed

theorem connection_reads_one_stream_witness:
  "conn_Peek ((example_conn ConnClient 5)\<lparr>c_buffer := ''abcd''\<rparr>) 3 = Some (Inr ''abc'')"
  using connection_reads_one_stream [of "(example_conn ConnClient 5)\<lparr>c_buffer := ''abcd''\<rparr>" 3]
  by (simp add: example_conn_def er_inv_def conn_in_def er_abs_def)

text \<open>
  C21: a write to an open connection, whatever the kernel accepts of it, leaves the data behind
  everything that was written before, partly taken by the kernel and partly in the output buffer; or
  the connection is closed, and then the kernel has taken a prefix of that stream. Other connections
  are not touched, and the write always returns.
\<close>

theorem writes_stay_in_order:
  assumes "live w a" "frags_ok w" "int (length (eb_abs (c_outboundBuffer (w_conns w a)) @ data)) \<le> 2 ^ 62"
  shows "\<exists>w' n. conn_write a data w = Some (w', n, None) \<and> (\<forall>b. b \<noteq> a \<longrightarrow> out_stream w' b = out_stream w b) \<and>
    (live w' a \<and> out_stream w' a = out_stream w a @ data \<or>
     \<not> c_opened (w_conns w' a) \<and> (\<exists>rest. w_wire w' a @ rest = out_stream w a @ data))"
proof -
  from conn_write_ok [OF assms] obtain w' n where
    "conn_write a data w = Some (w', n, None)" "only a w w'" "appended a data w w' \<or> lost a data w w'" by blast
  moreover from this have "\<forall>b. b \<noteq> a \<longrightarrow> out_stream w' b = out_stream w b"
    by (simp add: only_def out_stream_def)
  ultimately show ?thesis by (auto simp: appended_def lost_def closed_conn_def Let_def)
qed

theorem writes_stay_in_order_witness:
  "\<exists>w' n. conn_write 0 ''hello'' (example_world [Sent 1]) = Some (w', n, None) \<and>
    (\<forall>b. b \<noteq> 0 \<longrightarrow> out_stream w' b = []) \<and>
    (live w' 0 \<and> out_stream w' 0 = ''hello'' \<or>
     \<not> c_opened (w_conns w' 0) \<and> (\<exists>rest. w_wire w' 0 @ rest = ''hello''))"
  using writes_stay_in_order [OF example_live, of "[Sent 1]" "''hello''"]
  by (simp add: example_world_def example_conn_def example_buffer out_stream_def)

text \<open>
  C22: when the event loop serves the write signal of a redis connection, the requests of all queued
  fragments are written in the order of the queue behind what was written before, and the fragments
  join the queue of those that wait for a reply in the same order, so that replies can be matched with
  requests by position; unless the connection is lost.
\<close>

theorem requests_sent_in_queue_order:
  assumes "live w a" "frags_ok w" "c_outFragQueue (w_conns w a) = Some q" "c_inFragQueue (w_conns w a) = Some p"
    and "reqs = concat (map (\<lambda>f. f_Req (w_frags w f)) q)"
    and "int (length (eb_abs (c_outboundBuffer (w_conns w a)) @ reqs)) \<le> 2 ^ 62"
  shows "\<exists>w'. handleWriteSignal a w = Some (w', None) \<and>
    (live w' a \<and> out_stream w' a = out_stream w a @ reqs \<and>
       c_inFragQueue (w_conns w' a) = Some (p @ q) \<and> c_outFragQueue (w_conns w' a) = Some []
     \<or> \<not> c_opened (w_conns w' a) \<and> (\<exists>rest. w_wire w' a @ rest = out_stream w a @ reqs))"
  using handleWriteSignal_ok [OF assms(1-4)] assms(5,6) by (auto simp: lost_def closed_conn_def Let_def)

theorem requests_sent_in_queue_order_witness:
  "\<exists>w'. handleWriteSignal 0 (example_world [Sent 1]) = Some (w', None) \<and>
    (live w' 0 \<and> out_stream w' 0 = ''GETPUT'' \<and>
       c_inFragQueue (w_conns w' 0) = Some [1, 2] \<and> c_outFragQueue (w_conns w' 0) = Some []
     \<or> \<not> c_opened (w_conns w' 0) \<and> (\<exists>rest. w_wire w' 0 @ rest = ''GETPUT''))"
  using requests_sent_in_queue_order [OF example_live, of "[Sent 1]" "[1, 2]" "[]" "''GETPUT''"]
  by (simp add: example_world_def example_conn_def example_buffer out_stream_def)

end
