(* ===== verification/Server_Reply.thy ===== *)
theory Server_Reply
  imports Connection
begin

text \<open>
  What the proxy does with a reply of redis, \<^verbatim>\<open>src/core/codec_s.go\<close> and \<open>sread\<close> of
  \<^verbatim>\<open>src/core/connection.go\<close>: the handshake of a new connection, the matching of a reply with the oldest
  waiting fragment, and the assembly of the reply to the client from the replies to its fragments.

  The lemmas follow a message through the replies to its fragments. The stated properties say that,
  in whatever order the redis nodes answer, the client of an \<open>mget\<close> gets the values in the order of its
  keys, the client of a \<open>del\<close> the sum, the client of an \<open>mset\<close> one \<open>OK\<close>.
\<close>

section \<open>The handshake\<close>

definition ShortcutOK :: "(int \<times> bytes) list" where
  "ShortcutOK = [(1, OK), (2, OK @ OK)]"

text \<open>\<open>s.Peek(0)\<close>, whose error is ignored.\<close>

definition peek_all :: "nat \<Rightarrow> ('t, 'h) W \<Rightarrow> bytes go" where
  "peek_all s w = do {
     r \<leftarrow> conn_Peek (w_conns w s) 0;
     Some (case r of Inl _ \<Rightarrow> [] | Inr bs \<Rightarrow> bs)
   }"

definition discard_in :: "nat \<Rightarrow> int \<Rightarrow> ('t, 'h) W \<Rightarrow> ('t, 'h) W go" where
  "discard_in s n w = do {
     (c, _) \<leftarrow> conn_Discard (w_conns w s) n;
     Some (upd_conn s (\<lambda>_. c) w)
   }"

definition InitializingDecode :: "nat \<Rightarrow> ('t, 'h) W \<Rightarrow> (('t, 'h) W \<times> err option) go" where
  "InitializingDecode s w = do {
     bs \<leftarrow> peek_all s w;
     (if bs = [] then Some (w, Some ErrIncompletePacket)
      else
        (let totalStep = c_initStep (w_conns w s) in
         if totalStep < 1 then Some (w, Some ErrInvalidInitializing)
         else case map_of ShortcutOK totalStep of
           None \<Rightarrow> Some (w, Some ErrInvalidInitializing)
         | Some shortcut \<Rightarrow>
             if int (length bs) \<ge> totalStep * int (length OK) \<and> HasPrefix bs shortcut then do {
               w \<leftarrow> discard_in s (totalStep * int (length OK)) w;
               Some (upd_conn s (\<lambda>c. c\<lparr>c_initStatus := Initialized\<rparr>) w, None)
             }
             else do {
               b \<leftarrow> idx bs 0;
               (if b \<noteq> CHR ''-'' \<and> b \<noteq> CHR ''+'' then Some (w, Some ErrInvalidInitializing)
                else if HasPrefix shortcut bs then Some (w, Some ErrIncompletePacket)
                else Some (w, None))
             }))
   }"

section \<open>Matching a reply with a fragment\<close>

definition S_Decode :: "nat \<Rightarrow> ('t, 'h) W \<Rightarrow> (('t, 'h) W \<times> (err + nat)) go" where
  "S_Decode s w = do {
     bs \<leftarrow> peek_all s w;
     let buf = NewBuffer bs;
     (if Empty buf then Some (w, Inl ErrIncompletePacket)
      else do {
        (buf, rType) \<leftarrow> S_readReply buf;
        (case rType of
           Inl e \<Rightarrow> Some (w, Inl e)
         | Inr rType \<Rightarrow> do {
             (w, f) \<leftarrow> DequeueInFrag s w;
             (case f of
                None \<Rightarrow> Some (w, Inl ErrUnKnown)
              | Some f \<Rightarrow> do {
                  body \<leftarrow> ReadBuf buf;
                  let w = upd_frag f (\<lambda>x. x\<lparr>f_Type := rType, f_RspBody := body\<rparr>) w;
                  w \<leftarrow> discard_in s (ReadSize buf) w;
                  Some (w, Inr f)
                })
           })
      })
   }"

section \<open>Assembling the reply to the client\<close>

text \<open>The inner loop of \<open>MGet\<close>: the first position of a key among the keys of its fragment.\<close>

fun index_of :: "string \<Rightarrow> string list \<Rightarrow> nat option" where
  "index_of k [] = None"
| "index_of k (x # xs) = (if x = k then Some 0 else map_option Suc (index_of k xs))"

fun mget_values :: "('t, 'h) W \<Rightarrow> Msg \<Rightarrow> string list \<Rightarrow> bytes go" where
  "mget_values w m [] = Some []"
| "mget_values w m (k # ks) = do {
     v \<leftarrow> (case map_of (m_Frags m) (Hash k) of
            None \<Rightarrow> Some []
          | Some keys \<Rightarrow>
              (case index_of k keys of
                 None \<Rightarrow> Some []
               | Some i \<Rightarrow> do {
                   f \<leftarrow> map_of (m_Body m) (Hash k);
                   idx (f_Rsp (w_frags w f)) (int i)
                 }));
     vs \<leftarrow> mget_values w m ks;
     Some (v @ vs)
   }"

definition S_MGet :: "nat \<Rightarrow> ('t, 'h) W \<Rightarrow> (('t, 'h) W \<times> err option) go" where
  "S_MGet f w = do {
     rsp \<leftarrow> parseMGet (f_RspBody (w_frags w f));
     let w = upd_frag f (\<lambda>x. x\<lparr>f_Rsp := rsp, f_Done := True\<rparr>) w;
     (if length rsp < 1 then Some (upd_frag f (\<lambda>x. x\<lparr>f_Error := ErrUnKnownMget\<rparr>) w, None)
      else do {
        m \<leftarrow> f_Peer (w_frags w f);
        (if m_FragDoneNumber (w_msgs w m) < int (length (m_Body (w_msgs w m))) then Some (w, Some Continue)
         else do {
           vs \<leftarrow> mget_values w (w_msgs w m) (m_Keys (w_msgs w m));
           let body = CHR ''*'' # itoa_nat (length (m_Keys (w_msgs w m))) @ CRLF @ vs;
           let w = upd_msg m (\<lambda>x. x\<lparr>m_Done := True, m_RspBody := body\<rparr>) w;
           Some (if int (length body) > g_MsgMaxLength (w_cfg w)
                 then upd_msg m (\<lambda>x. x\<lparr>m_Error := ErrMsgRspTooLarge, m_RspBody := ErrMsgRspTooLarge\<rparr>) w
                 else w, None)
         })
      })
   }"

definition S_MSet :: "nat \<Rightarrow> ('t, 'h) W \<Rightarrow> (('t, 'h) W \<times> err option) go" where
  "S_MSet f w = do {
     let w = upd_frag f (\<lambda>x. x\<lparr>f_Ok := f_Type x = RspOk, f_Done := True\<rparr>) w;
     m \<leftarrow> f_Peer (w_frags w f);
     (if m_FragDoneNumber (w_msgs w m) < int (length (m_Body (w_msgs w m))) then Some (w, Some Continue)
      else
        let ok = (\<forall>(slot, g) \<in> set (m_Body (w_msgs w m)). f_Ok (w_frags w g)) in
        Some (upd_msg m (\<lambda>x. x\<lparr>m_Done := True, m_RspBody := if ok then OK else ErrUnKnown_reply\<rparr>) w, None))
   }"

definition S_Del :: "nat \<Rightarrow> ('t, 'h) W \<Rightarrow> (('t, 'h) W \<times> err option) go" where
  "S_Del f w = do {
     line \<leftarrow> slice (f_RspBody (w_frags w f)) 1 (int (length (f_RspBody (w_frags w f))) - 2);
     let n = fst (parseLen line);
     m \<leftarrow> f_Peer (w_frags w f);
     let w = upd_msg m (\<lambda>x. x\<lparr>m_DelNum := wrap64 (m_DelNum x + n)\<rparr>) w;
     let w = upd_frag f (\<lambda>x. x\<lparr>f_Done := True\<rparr>) w;
     (if m_FragDoneNumber (w_msgs w m) < int (length (m_Body (w_msgs w m))) then Some (w, Some Continue)
      else
        Some (upd_msg m (\<lambda>x. x\<lparr>m_Done := True, m_RspBody := CHR '':'' # itoa (m_DelNum x) @ CRLF\<rparr>) w, None))
   }"

definition S_Default :: "nat \<Rightarrow> ('t, 'h) W \<Rightarrow> (('t, 'h) W \<times> err option) go" where
  "S_Default f w = do {
     let w = upd_frag f (\<lambda>x. x\<lparr>f_Done := True\<rparr>) w;
     m \<leftarrow> f_Peer (w_frags w f);
     let w = upd_msg m (\<lambda>x. x\<lparr>m_Done := True\<rparr>) w;
     (if int (length (f_RspBody (w_frags w f))) > g_MsgMaxLength (w_cfg w)
      then Some (upd_msg m (\<lambda>x. x\<lparr>m_Error := ErrMsgRspTooLarge, m_RspBody := ErrMsgRspTooLarge\<rparr>) w, None)
      else Some (upd_msg m (\<lambda>x. x\<lparr>m_RspBody := f_RspBody (w_frags w f)\<rparr>) w, None))
   }"

definition S_sizeTooLarge :: "('t, 'h) W \<Rightarrow> int \<Rightarrow> bool" where
  "S_sizeTooLarge w sz = (if sz > g_MsgMaxLength (w_cfg w) then True else False)"

text \<open>The part of \<open>sread\<close> that follows the decoding of a reply.\<close>

definition mark_done :: "(int \<times> nat) list \<Rightarrow> ('t, 'h) W \<Rightarrow> ('t, 'h) W" where
  "mark_done body w = foldl (\<lambda>w (slot, g). upd_frag g (\<lambda>x. x\<lparr>f_Done := True\<rparr>) w) w body"

definition frag_replied :: "nat \<Rightarrow> ('t, 'h) W \<Rightarrow> (('t, 'h) W \<times> nat option \<times> err option) go" where
  "frag_replied f w =
     (let F = w_frags w f in
      if f_Owner F = None then Some (w, Some f, None)
      else case f_Peer F of
        None \<Rightarrow> Some (w, Some f, None)
      | Some m \<Rightarrow>
          if f_Type F = RspMoved \<or> f_Type F = RspAsk then Some (w, Some f, Some MovedOrAsk)
          else if f_Done F then Some (w, None, Some Continue)
          else do {
            let w = (if S_sizeTooLarge w (int (length (f_RspBody F)))
                     then upd_frag f (\<lambda>x. x\<lparr>f_Error := ErrMsgRspTooLarge\<rparr>) w else w);
            let w = upd_msg m (\<lambda>x. x\<lparr>m_FragDoneNumber := m_FragDoneNumber x + 1\<rparr>) w;
            (w, e) \<leftarrow>
              (if Error_Nil (f_Error (w_frags w f)) then
                 (if m_Type (w_msgs w m) = ReqMget then S_MGet f w
                  else if m_Type (w_msgs w m) = ReqMset then S_MSet f w
                  else if m_Type (w_msgs w m) = ReqDel then S_Del f w
                  else S_Default f w)
               else Some (w, None));
            (if Error_NotNil (f_Error (w_frags w f)) then
               let err = f_Error (w_frags w f);
                   w = upd_msg m (\<lambda>x. x\<lparr>m_Error := err, m_FragDoneNumber := int (length (m_Body x)), m_RspBody := err,
                         m_Done := True\<rparr>) w
               in Some (mark_done (m_Body (w_msgs w m)) w, Some f, None)
             else Some (w, Some f, e))
          })"

definition conn_sread :: "nat \<Rightarrow> ('t, 'h) W \<Rightarrow> (('t, 'h) W \<times> nat option \<times> err option) go" where
  "conn_sread s w = do {
     (w, err) \<leftarrow> (if c_initStatus (w_conns w s) = Initializing then InitializingDecode s w else Some (w, None));
     (if err \<noteq> None then Some (w, None, err)
      else do {
        (w, r) \<leftarrow> S_Decode s w;
        (case r of Inl e \<Rightarrow> Some (w, None, Some e) | Inr f \<Rightarrow> frag_replied f w)
      })
   }"

section \<open>Reading one reply\<close>

lemma upd_frag_simps [simp]:
  "w_conns (upd_frag f g w) = w_conns w" "w_msgs (upd_frag f g w) = w_msgs w" "w_cfg (upd_frag f g w) = w_cfg w"
  "w_frags (upd_frag f g w) = (w_frags w)(f := g (w_frags w f))"
  by (simp_all add: upd_frag_def)

lemma upd_msg_simps [simp]:
  "w_conns (upd_msg m g w) = w_conns w" "w_frags (upd_msg m g w) = w_frags w" "w_cfg (upd_msg m g w) = w_cfg w"
  "w_msgs (upd_msg m g w) = (w_msgs w)(m := g (w_msgs w m))"
  by (simp_all add: upd_msg_def)

lemma peek_all_in: "er_inv (c_inboundBuffer (w_conns w s)) \<Longrightarrow> peek_all s w = Some (conn_in (w_conns w s))"
  by (simp add: peek_all_def conn_Peek_in)

lemma enc_reply_nonempty: "enc_reply r \<noteq> []"
  by (cases r) (simp_all add: enc_bulk_def enc_header_def)

text \<open>A whole reply goes to the fragment at the head of the queue and leaves the input.\<close>

lemma S_Decode_reply:
  assumes inv: "er_inv (c_inboundBuffer (w_conns w s))" and q: "c_inFragQueue (w_conns w s) = Some (f # q)"
    and inp: "conn_in (w_conns w s) = enc_reply r @ rest" and ok: "reply_ok r"
  shows "\<exists>w'. S_Decode s w = Some (w', Inr f) \<and> w_msgs w' = w_msgs w \<and> w_cfg w' = w_cfg w \<and>
    w_frags w' = (w_frags w)(f := (w_frags w f)\<lparr>f_Type := reply_type r, f_RspBody := enc_reply r\<rparr>) \<and>
    (\<forall>b. b \<noteq> s \<longrightarrow> w_conns w' b = w_conns w b) \<and> conn_in (w_conns w' s) = rest \<and>
    er_inv (c_inboundBuffer (w_conns w' s)) \<and> c_inFragQueue (w_conns w' s) = Some q \<and>
    c_initStatus (w_conns w' s) = c_initStatus (w_conns w s)"
proof -
  define w1 where "w1 = deleteFromTimeoutQueue f (upd_conn s (\<lambda>c. c\<lparr>c_inFragQueue := Some q\<rparr>) w)"
  define w2 where "w2 = upd_frag f (\<lambda>x. x\<lparr>f_Type := reply_type r, f_RspBody := enc_reply r\<rparr>) w1"
  have c2: "w_conns w2 s = (w_conns w s)\<lparr>c_inFragQueue := Some q\<rparr>" by (simp add: w1_def w2_def)
  then have "conn_in (w_conns w2 s) = enc_reply r @ rest" "er_inv (c_inboundBuffer (w_conns w2 s))"
    using inp inv by (simp_all add: conn_in_def)
  with conn_Discard_in [of "w_conns w2 s" "length (enc_reply r)"] enc_reply_nonempty [of r] obtain rb buf where
    d: "conn_Discard (w_conns w2 s) (int (length (enc_reply r))) =
      Some ((w_conns w2 s)\<lparr>c_inboundBuffer := rb, c_buffer := buf\<rparr>, int (length (enc_reply r)))"
      "er_inv rb" "er_abs rb @ buf = rest" by auto
  let ?w = "upd_conn s (\<lambda>_. (w_conns w2 s)\<lparr>c_inboundBuffer := rb, c_buffer := buf\<rparr>) w2"
  have c12: "w_conns w1 s = w_conns w2 s" by (simp add: w2_def)
  have "S_Decode s w = Some (?w, Inr f)"
    using S_readReply_enc [OF ok, of rest] enc_reply_nonempty [of r] inp d(1)
    by (simp add: S_Decode_def peek_all_in [OF inv] Let_def Empty_def NewBuffer_cursor DequeueInFrag_simp(2) [OF q]
        w1_def [symmetric] ReadSize_def w2_def [symmetric] discard_in_def c12)
  moreover have "w_msgs ?w = w_msgs w" "w_cfg ?w = w_cfg w"
    "w_frags ?w = (w_frags w)(f := (w_frags w f)\<lparr>f_Type := reply_type r, f_RspBody := enc_reply r\<rparr>)"
    "\<forall>b. b \<noteq> s \<longrightarrow> w_conns ?w b = w_conns w b" "conn_in (w_conns ?w s) = rest"
    "er_inv (c_inboundBuffer (w_conns ?w s))" "c_inFragQueue (w_conns ?w s) = Some q"
    "c_initStatus (w_conns ?w s) = c_initStatus (w_conns w s)"
    using d c2 by (simp_all add: w2_def w1_def conn_in_def)
  ultimately show ?thesis by blast
qed

text \<open>Part of a reply changes nothing.\<close>

lemma S_Decode_partial:
  assumes "er_inv (c_inboundBuffer (w_conns w s))" "strict_prefix (conn_in (w_conns w s)) (enc_reply r)" "reply_ok r"
  shows "\<exists>e. S_Decode s w = Some (w, Inl e) \<and> waits e"
proof (cases "conn_in (w_conns w s) = []")
  case True
  then show ?thesis by (simp add: S_Decode_def peek_all_in [OF assms(1)] Let_def Empty_def NewBuffer_def waits_def)
next
  case False
  from S_readReply_prefix [OF assms(3,2)] obtain buf e where
    "S_readReply (NewBuffer (conn_in (w_conns w s))) = Some (buf, Inl e)" "waits e" by blast
  with False show ?thesis
    by (simp add: S_Decode_def peek_all_in [OF assms(1)] Let_def Empty_def NewBuffer_def)
qed

section \<open>Gathering the replies to the fragments of a message\<close>

text \<open>A sequence of replies, each read from the connection named in the list.\<close>

fun sreads :: "nat list \<Rightarrow> ('t, 'h) W \<Rightarrow> ('t, 'h) W go" where
  "sreads [] w = Some w"
| "sreads (s # ss) w = do { (w, _, _) \<leftarrow> conn_sread s w; sreads ss w }"

text \<open>
  The fragments \<open>fs\<close> wait for their replies \<open>rep\<close>, which have arrived on the connections
  \<open>server\<close>: on every connection the fragments and the replies are in the same order.
\<close>

definition waiting :: "(nat \<Rightarrow> nat) \<Rightarrow> (nat \<Rightarrow> reply) \<Rightarrow> nat list \<Rightarrow> ('t, 'h) W \<Rightarrow> bool" where
  "waiting server rep fs w \<longleftrightarrow> (\<forall>s \<in> server ` set fs. let c = w_conns w s; mine = filter (\<lambda>f. server f = s) fs in
     er_inv (c_inboundBuffer c) \<and> c_initStatus c \<noteq> Initializing \<and>
     (\<exists>q. c_inFragQueue c = Some (mine @ q)) \<and> (\<exists>rest. conn_in c = concat (map (enc_reply \<circ> rep) mine) @ rest))"

lemma waiting_conns: "w_conns w' = w_conns w \<Longrightarrow> waiting server rep fs w \<Longrightarrow> waiting server rep fs w'"
  by (simp add: waiting_def)

lemma waiting_Cons:
  assumes "waiting server rep (f # fs) w" "reply_ok (rep f)"
  shows "\<exists>w'. S_Decode (server f) w = Some (w', Inr f) \<and> waiting server rep fs w' \<and> w_msgs w' = w_msgs w \<and>
    w_cfg w' = w_cfg w \<and> c_initStatus (w_conns w (server f)) \<noteq> Initializing \<and>
    w_frags w' = (w_frags w)(f := (w_frags w f)\<lparr>f_Type := reply_type (rep f), f_RspBody := enc_reply (rep f)\<rparr>)"
proof -
  let ?s = "server f" and ?mine = "filter (\<lambda>g. server g = server f) fs"
  from assms(1) obtain q rest where h: "er_inv (c_inboundBuffer (w_conns w ?s))" "c_initStatus (w_conns w ?s) \<noteq> Initializing"
    "c_inFragQueue (w_conns w ?s) = Some (f # ?mine @ q)"
    "conn_in (w_conns w ?s) = enc_reply (rep f) @ concat (map (enc_reply \<circ> rep) ?mine) @ rest"
    by (auto simp: waiting_def Let_def)
  from S_Decode_reply [OF h(1,3,4) assms(2)] obtain w' where
    w': "S_Decode ?s w = Some (w', Inr f)" "w_msgs w' = w_msgs w" "w_cfg w' = w_cfg w"
      "w_frags w' = (w_frags w)(f := (w_frags w f)\<lparr>f_Type := reply_type (rep f), f_RspBody := enc_reply (rep f)\<rparr>)"
      "\<forall>b. b \<noteq> ?s \<longrightarrow> w_conns w' b = w_conns w b"
      "conn_in (w_conns w' ?s) = concat (map (enc_reply \<circ> rep) ?mine) @ rest"
      "er_inv (c_inboundBuffer (w_conns w' ?s))" "c_inFragQueue (w_conns w' ?s) = Some (?mine @ q)"
      "c_initStatus (w_conns w' ?s) = c_initStatus (w_conns w ?s)" by blast
  have "let c = w_conns w' s; mine = filter (\<lambda>f. server f = s) fs in
      er_inv (c_inboundBuffer c) \<and> c_initStatus c \<noteq> Initializing \<and>
      (\<exists>q. c_inFragQueue c = Some (mine @ q)) \<and> (\<exists>rest. conn_in c = concat (map (enc_reply \<circ> rep) mine) @ rest)"
    if "s \<in> server ` set fs" for s
  proof (cases "s = ?s")
    case True
    with w'(6-9) h(2) show ?thesis by (simp add: Let_def)
  next
    case False
    with assms(1) that have "let c = w_conns w s; mine = filter (\<lambda>f. server f = s) fs in
      er_inv (c_inboundBuffer c) \<and> c_initStatus c \<noteq> Initializing \<and>
      (\<exists>q. c_inFragQueue c = Some (mine @ q)) \<and> (\<exists>rest. conn_in c = concat (map (enc_reply \<circ> rep) mine) @ rest)"
      by (auto simp: waiting_def Let_def)
    with False w'(5) show ?thesis by simp
  qed
  then have "waiting server rep fs w'" unfolding waiting_def by blast
  with w' h(2) show ?thesis by blast
qed

text \<open>
  The message \<open>m\<close>, split like \<open>M\<close>, of whose fragments those in \<open>D\<close> have been answered.
\<close>

definition parts :: "Msg \<Rightarrow> nat \<Rightarrow> nat list \<Rightarrow> ('t, 'h) W \<Rightarrow> bool" where
  "parts M m D w \<longleftrightarrow>
     m_Body (w_msgs w m) = m_Body M \<and> m_Keys (w_msgs w m) = m_Keys M \<and> m_Frags (w_msgs w m) = m_Frags M \<and>
     m_Type (w_msgs w m) = m_Type M \<and> m_FragDoneNumber (w_msgs w m) = int (length D) \<and>
     (\<forall>f \<in> snd ` set (m_Body M). let F = w_frags w f in f_Owner F \<noteq> None \<and> f_Peer F = Some m \<and>
        (f_Done F \<longleftrightarrow> f \<in> set D) \<and> f_Error F = [])"

abbreviation count_frag :: "nat \<Rightarrow> ('t, 'h) W \<Rightarrow> ('t, 'h) W" where
  "count_frag m w \<equiv> upd_msg m (\<lambda>x. x\<lparr>m_FragDoneNumber := m_FragDoneNumber x + 1\<rparr>) w"

text \<open>
  A command whose reply is put together from the replies to its fragments: \<open>op\<close> treats the reply
  to one fragment, \<open>kept\<close> says what the state remembers of the replies to the fragments in \<open>D\<close>,
  \<open>fits\<close> which replies are expected, and \<open>answer\<close> is the reply to the client.
\<close>

locale gather =
  fixes ty :: Command
    and op :: "nat \<Rightarrow> ('t, 'h) W \<Rightarrow> (('t, 'h) W \<times> err option) go"
    and kept :: "(nat \<Rightarrow> reply) \<Rightarrow> nat \<Rightarrow> nat list \<Rightarrow> ('t, 'h) W \<Rightarrow> bool"
    and fits :: "(nat \<Rightarrow> reply) \<Rightarrow> Msg \<Rightarrow> nat \<Rightarrow> bool"
    and answer :: "(nat \<Rightarrow> reply) \<Rightarrow> Msg \<Rightarrow> bytes"
  assumes dispatch: "m_Type (w_msgs w m) = ty \<Longrightarrow>
      (if m_Type (w_msgs w m) = ReqMget then S_MGet f w
       else if m_Type (w_msgs w m) = ReqMset then S_MSet f w
       else if m_Type (w_msgs w m) = ReqDel then S_Del f w
       else S_Default f w) = op f w"
    and stable: "kept rep m D w \<Longrightarrow> w_msgs w' = w_msgs w \<Longrightarrow> \<forall>g \<in> set D. w_frags w' g = w_frags w g \<Longrightarrow> kept rep m D w'"
    and part: "parts M m D w \<Longrightarrow> m_Type M = ty \<Longrightarrow> f \<in> snd ` set (m_Body M) \<Longrightarrow> f \<notin> set D \<Longrightarrow> kept rep m D w \<Longrightarrow>
      \<forall>g \<in> snd ` set (m_Body M). fits rep M g \<Longrightarrow>
      f_Type (w_frags w f) = reply_type (rep f) \<Longrightarrow> f_RspBody (w_frags w f) = enc_reply (rep f) \<Longrightarrow>
      length D + 1 < length (m_Body M) \<Longrightarrow>
      \<exists>w'. op f (count_frag m w) = Some (w', Some Continue) \<and> w_conns w' = w_conns w \<and> w_cfg w' = w_cfg w \<and>
        parts M m (f # D) w' \<and> kept rep m (f # D) w'"
    and last: "parts M m D w \<Longrightarrow> m_Type M = ty \<Longrightarrow> f \<in> snd ` set (m_Body M) \<Longrightarrow> f \<notin> set D \<Longrightarrow> kept rep m D w \<Longrightarrow>
      \<forall>g \<in> snd ` set (m_Body M). fits rep M g \<Longrightarrow>
      f_Type (w_frags w f) = reply_type (rep f) \<Longrightarrow> f_RspBody (w_frags w f) = enc_reply (rep f) \<Longrightarrow>
      length D + 1 = length (m_Body M) \<Longrightarrow> set (f # D) = snd ` set (m_Body M) \<Longrightarrow> distinct (f # D) \<Longrightarrow>
      int (length (answer rep M)) \<le> g_MsgMaxLength (w_cfg w) \<Longrightarrow>
      \<exists>w'. op f (count_frag m w) = Some (w', None) \<and> m_Done (w_msgs w' m) \<and> m_RspBody (w_msgs w' m) = answer rep M \<and>
        f_Error (w_frags w' f) = []"
begin

lemma replied:
  assumes "parts M m D w" "m_Type M = ty" "f \<in> snd ` set (m_Body M)" "f \<notin> set D"
    and got: "f_Type (w_frags w f) = reply_type r" "f_RspBody (w_frags w f) = enc_reply r"
    and r: "reply_type r \<notin> {RspMoved, RspAsk}" "int (length (enc_reply r)) \<le> g_MsgMaxLength (w_cfg w)"
    and op: "op f (count_frag m w) = Some (w', e)" "f_Error (w_frags w' f) = []"
  shows "frag_replied f w = Some (w', Some f, e)"
proof -
  obtain c where c: "f_Owner (w_frags w f) = Some c" using assms(1,3) by (auto simp: parts_def Let_def)
  have F: "f_Peer (w_frags w f) = Some m" "\<not> f_Done (w_frags w f)" "f_Error (w_frags w f) = []"
    "m_Type (w_msgs w m) = ty"
    using assms(1-4) by (auto simp: parts_def Let_def)
  have "m_Type (w_msgs (count_frag m w) m) = ty" using F(4) by simp
  from dispatch [OF this, of f] c F got r op show ?thesis
    by (simp add: frag_replied_def Let_def S_sizeTooLarge_def Error_Nil_def Error_NotNil_def)
qed

lemma gathered:
  assumes "parts M m D w" "m_Type M = ty" "kept rep m D w" "waiting server rep fs w"
    and "distinct (map snd (m_Body M))" "distinct (fs @ D)" "set (fs @ D) = snd ` set (m_Body M)" "fs \<noteq> []"
    and "\<forall>f \<in> snd ` set (m_Body M). fits rep M f \<and> reply_ok (rep f) \<and> reply_type (rep f) \<notin> {RspMoved, RspAsk} \<and>
      int (length (enc_reply (rep f))) \<le> g_MsgMaxLength (w_cfg w)"
    and "int (length (answer rep M)) \<le> g_MsgMaxLength (w_cfg w)"
  shows "\<exists>w'. sreads (map server fs) w = Some w' \<and> m_Done (w_msgs w' m) \<and> m_RspBody (w_msgs w' m) = answer rep M"
  using assms
proof (induction fs arbitrary: D w)
  case (Cons f fs)
  have f: "f \<in> snd ` set (m_Body M)" "f \<notin> set D" using Cons.prems(6,7) by auto
  have rf: "reply_ok (rep f)" "reply_type (rep f) \<notin> {RspMoved, RspAsk}"
    "int (length (enc_reply (rep f))) \<le> g_MsgMaxLength (w_cfg w)" using Cons.prems(9) f(1) by auto
  from waiting_Cons [OF Cons.prems(4) rf(1)] obtain w1 where
    w1: "S_Decode (server f) w = Some (w1, Inr f)" "waiting server rep fs w1" "w_msgs w1 = w_msgs w" "w_cfg w1 = w_cfg w"
      "c_initStatus (w_conns w (server f)) \<noteq> Initializing"
      "w_frags w1 = (w_frags w)(f := (w_frags w f)\<lparr>f_Type := reply_type (rep f), f_RspBody := enc_reply (rep f)\<rparr>)" by blast
  have p1: "parts M m D w1" using Cons.prems(1) w1(3,6) by (auto simp: parts_def Let_def)
  have k1: "kept rep m D w1" using Cons.prems(3) w1(3,6) f(2) by (intro stable [of rep m D w w1]) auto
  have g1: "f_Type (w_frags w1 f) = reply_type (rep f)" "f_RspBody (w_frags w1 f) = enc_reply (rep f)"
    using w1(6) by simp_all
  have fits: "\<forall>g \<in> snd ` set (m_Body M). fits rep M g" using Cons.prems(9) by blast
  have card: "length (f # fs) + length D = length (m_Body M)"
    using distinct_card [OF Cons.prems(6)] distinct_card [OF Cons.prems(5)] Cons.prems(7) by simp
  have r1: "int (length (enc_reply (rep f))) \<le> g_MsgMaxLength (w_cfg w1)" using rf(3) w1(4) by simp
  have run: "sreads (map server (f # fs)) w = (case frag_replied f w1 of None \<Rightarrow> None | Some (w2, _, _) \<Rightarrow> sreads (map server fs) w2)"
    using w1(1,5) by (simp add: conn_sread_def split: option.splits)
  show ?case
  proof (cases "fs = []")
    case True
    then have "length D + 1 = length (m_Body M)" "set (f # D) = snd ` set (m_Body M)" "distinct (f # D)"
      using card Cons.prems(6,7) by simp_all
    from last [OF p1 Cons.prems(2) f k1 fits g1 this] Cons.prems(10) w1(4) obtain w' where
      "op f (count_frag m w1) = Some (w', None)" "m_Done (w_msgs w' m)" "m_RspBody (w_msgs w' m) = answer rep M"
      "f_Error (w_frags w' f) = []" by auto
    with replied [OF p1 Cons.prems(2) f g1 rf(2) r1] run True show ?thesis by simp
  next
    case False
    then have "length D + 1 < length (m_Body M)" using card by (cases fs) simp_all
    from part [OF p1 Cons.prems(2) f k1 fits g1 this] obtain w2 where
      w2: "op f (count_frag m w1) = Some (w2, Some Continue)" "w_conns w2 = w_conns w1" "w_cfg w2 = w_cfg w1"
        "parts M m (f # D) w2" "kept rep m (f # D) w2" by blast
    have "f_Error (w_frags w2 f) = []" using w2(4) f(1) by (auto simp: parts_def Let_def)
    with replied [OF p1 Cons.prems(2) f g1 rf(2) r1 w2(1)] have "frag_replied f w1 = Some (w2, Some f, Some Continue)" by simp
    moreover have "\<exists>w'. sreads (map server fs) w2 = Some w' \<and> m_Done (w_msgs w' m) \<and> m_RspBody (w_msgs w' m) = answer rep M"
    proof (rule Cons.IH [OF w2(4) Cons.prems(2) w2(5) waiting_conns [OF w2(2) w1(2)] Cons.prems(5) _ _ False])
      show "distinct (fs @ f # D)" "set (fs @ f # D) = snd ` set (m_Body M)" using Cons.prems(6,7) by auto
    qed (use Cons.prems(9,10) w2(3) w1(4) in simp_all)
    ultimately show ?thesis using run by simp
  qed
qed simp

end

section \<open>mget\<close>

definition kept_mget :: "(nat \<Rightarrow> reply) \<Rightarrow> nat \<Rightarrow> nat list \<Rightarrow> ('t, 'h) W \<Rightarrow> bool" where
  "kept_mget rep m D w \<longleftrightarrow> (\<forall>f \<in> set D. \<forall>vs. rep f = Array vs \<longrightarrow> f_Rsp (w_frags w f) = map enc_reply vs)"

text \<open>The value of a key in the reply to the fragment of its slot.\<close>

definition value_in :: "(nat \<Rightarrow> reply) \<Rightarrow> Msg \<Rightarrow> string \<Rightarrow> reply" where
  "value_in rep M k =
     (case rep (the (map_of (m_Body M) (Hash k))) of
        Array vs \<Rightarrow> vs ! the (index_of k (the (map_of (m_Frags M) (Hash k))))
      | _ \<Rightarrow> Nil)"

text \<open>
  The reply to every fragment is an array of values, one per key of its slot, and the keys of the
  message are split over the fragments.
\<close>

definition fits_mget :: "(nat \<Rightarrow> reply) \<Rightarrow> Msg \<Rightarrow> nat \<Rightarrow> bool" where
  "fits_mget rep M f \<longleftrightarrow>
     (\<exists>vs. rep f = Array vs \<and> vs \<noteq> [] \<and> list_all is_value vs \<and> int (length vs) < 2 ^ 63 \<and>
        (\<forall>s ks. map_of (m_Body M) s = Some f \<longrightarrow> map_of (m_Frags M) s = Some ks \<longrightarrow> length ks = length vs)) \<and>
     (\<forall>k \<in> set (m_Keys M). \<exists>ks g. map_of (m_Frags M) (Hash k) = Some ks \<and> k \<in> set ks \<and> map_of (m_Body M) (Hash k) = Some g)"

definition answer_mget :: "(nat \<Rightarrow> reply) \<Rightarrow> Msg \<Rightarrow> bytes" where
  "answer_mget rep M = enc_reply (Array (map (value_in rep M) (m_Keys M)))"

lemma index_of_mem: "k \<in> set ks \<Longrightarrow> \<exists>i. index_of k ks = Some i \<and> i < length ks \<and> ks ! i = k"
  by (induction ks) auto

lemma mget_values_ok:
  assumes "\<forall>f \<in> snd ` set (m_Body M). fits_mget rep M f"
    and "\<forall>f \<in> snd ` set (m_Body M). \<forall>vs. rep f = Array vs \<longrightarrow> f_Rsp (w_frags w f) = map enc_reply vs"
    and "m_Frags m = m_Frags M" "m_Body m = m_Body M" "set ks \<subseteq> set (m_Keys M)" "m_Body M \<noteq> []"
  shows "mget_values w m ks = Some (concat (map (enc_reply \<circ> value_in rep M) ks))"
  using assms(5)
proof (induction ks)
  case (Cons k ks)
  obtain f0 where "f0 \<in> snd ` set (m_Body M)" using assms(6) by (cases "m_Body M") auto
  with assms(1) have "fits_mget rep M f0" by blast
  with Cons.prems obtain xs g where g: "map_of (m_Frags M) (Hash k) = Some xs" "k \<in> set xs" "map_of (m_Body M) (Hash k) = Some g"
    by (auto simp: fits_mget_def)
  then have gb: "g \<in> snd ` set (m_Body M)" by (force dest: map_of_SomeD)
  with assms(1) obtain vs where vs: "rep g = Array vs"
    "\<forall>s ks. map_of (m_Body M) s = Some g \<longrightarrow> map_of (m_Frags M) s = Some ks \<longrightarrow> length ks = length vs"
    unfolding fits_mget_def by blast
  obtain i where i: "index_of k xs = Some i" "i < length xs" using index_of_mem [OF g(2)] by blast
  have "idx (f_Rsp (w_frags w g)) (int i) = Some (enc_reply (vs ! i))"
    using assms(2) gb vs g i by (auto simp: idx_def)
  with Cons g i vs(1) assms(3,4) show ?case by (simp add: value_in_def)
qed simp

interpretation mget: gather ReqMget S_MGet kept_mget fits_mget answer_mget
proof
  fix M :: Msg and m D f rep and w :: "('t, 'h) W"
  assume h: "parts M m D w" "m_Type M = ReqMget" "f \<in> snd ` set (m_Body M)" "f \<notin> set D" "kept_mget rep m D w"
    "\<forall>g \<in> snd ` set (m_Body M). fits_mget rep M g" "f_RspBody (w_frags w f) = enc_reply (rep f)"
  then obtain vs where vs: "rep f = Array vs" "vs \<noteq> []" "list_all is_value vs" "int (length vs) < 2 ^ 63"
    by (auto simp: fits_mget_def)
  define w1 where "w1 = upd_frag f (\<lambda>x. x\<lparr>f_Rsp := map enc_reply vs, f_Done := True\<rparr>) (count_frag m w)"
  have peer: "f_Peer (w_frags w f) = Some m" using h(1,3) by (auto simp: parts_def Let_def)
  have M1: "m_Body (w_msgs w1 m) = m_Body M" "m_Frags (w_msgs w1 m) = m_Frags M" "m_Keys (w_msgs w1 m) = m_Keys M"
    "m_FragDoneNumber (w_msgs w1 m) = int (length D) + 1" "f_Peer (w_frags w1 f) = Some m"
    using h(1) peer by (simp_all add: parts_def w1_def)
  have step: "S_MGet f (count_frag m w) =
     (if m_FragDoneNumber (w_msgs w1 m) < int (length (m_Body (w_msgs w1 m))) then Some (w1, Some Continue)
         else do {
           vs \<leftarrow> mget_values w1 (w_msgs w1 m) (m_Keys (w_msgs w1 m));
           let body = CHR ''*'' # itoa_nat (length (m_Keys (w_msgs w1 m))) @ CRLF @ vs;
           let w = upd_msg m (\<lambda>x. x\<lparr>m_Done := True, m_RspBody := body\<rparr>) w1;
           Some (if int (length body) > g_MsgMaxLength (w_cfg w)
                 then upd_msg m (\<lambda>x. x\<lparr>m_Error := ErrMsgRspTooLarge, m_RspBody := ErrMsgRspTooLarge\<rparr>) w
                 else w, None)
         })"
    using parseMGet_array [OF vs(3,4)] vs(1,2) h(7) M1(5)
    by (simp add: S_MGet_def w1_def [symmetric] Let_def)
  have kept1: "\<forall>g \<in> set (f # D). \<forall>vs. rep g = Array vs \<longrightarrow> f_Rsp (w_frags w1 g) = map enc_reply vs"
    using h(5) vs(1) by (auto simp: kept_mget_def w1_def)
  have P1: "parts M m (f # D) w1" using h(1,4) by (auto simp: parts_def Let_def w1_def)
  show "\<exists>w'. S_MGet f (count_frag m w) = Some (w', Some Continue) \<and> w_conns w' = w_conns w \<and> w_cfg w' = w_cfg w \<and>
        parts M m (f # D) w' \<and> kept_mget rep m (f # D) w'"
    if "length D + 1 < length (m_Body M)"
    using that step M1(1,4) P1 kept1 by (intro exI [of _ w1]) (auto simp: kept_mget_def, simp_all add: w1_def)
  show "\<exists>w'. S_MGet f (count_frag m w) = Some (w', None) \<and> m_Done (w_msgs w' m) \<and>
        m_RspBody (w_msgs w' m) = answer_mget rep M \<and> f_Error (w_frags w' f) = []"
    if l: "length D + 1 = length (m_Body M)" "set (f # D) = snd ` set (m_Body M)" "distinct (f # D)"
      "int (length (answer_mget rep M)) \<le> g_MsgMaxLength (w_cfg w)"
  proof -
    have "m_Body M \<noteq> []" using l(1) by auto
    from mget_values_ok [OF h(6) kept1 [unfolded l(2)] M1(2,1) order_refl this] have
      "mget_values w1 (w_msgs w1 m) (m_Keys M) = Some (concat (map (enc_reply \<circ> value_in rep M) (m_Keys M)))" .
    moreover have ans: "answer_mget rep M = CHR ''*'' # itoa_nat (length (m_Keys M)) @ CRLF @
        concat (map (enc_reply \<circ> value_in rep M) (m_Keys M))" by (simp add: answer_mget_def enc_header_def comp_def)
    moreover have "w_cfg w1 = w_cfg w" "f_Error (w_frags w1 f) = []"
      using h(1,3) by (auto simp: w1_def parts_def Let_def)
    ultimately show ?thesis using step M1 l(1) l(4) [unfolded ans] by (simp add: Let_def)
  qed
qed (auto simp: kept_mget_def)

section \<open>mset and del\<close>

definition kept_mset :: "(nat \<Rightarrow> reply) \<Rightarrow> nat \<Rightarrow> nat list \<Rightarrow> ('t, 'h) W \<Rightarrow> bool" where
  "kept_mset rep m D w \<longleftrightarrow> (\<forall>f \<in> set D. f_Ok (w_frags w f) \<longleftrightarrow> reply_type (rep f) = RspOk)"

definition answer_mset :: "(nat \<Rightarrow> reply) \<Rightarrow> Msg \<Rightarrow> bytes" where
  "answer_mset rep M =
     (if \<forall>f \<in> snd ` set (m_Body M). reply_type (rep f) = RspOk then OK else ErrUnKnown_reply)"

interpretation mset: gather ReqMset S_MSet kept_mset "\<lambda>_ _ _. True" answer_mset
proof
  fix M :: Msg and m D f rep and w :: "('t, 'h) W"
  assume h: "parts M m D w" "m_Type M = ReqMset" "f \<in> snd ` set (m_Body M)" "f \<notin> set D" "kept_mset rep m D w"
    "f_Type (w_frags w f) = reply_type (rep f)"
  define w1 where "w1 = upd_frag f (\<lambda>x. x\<lparr>f_Ok := f_Type x = RspOk, f_Done := True\<rparr>) (count_frag m w)"
  have peer: "f_Peer (w_frags w f) = Some m" using h(1,3) by (auto simp: parts_def Let_def)
  have M1: "m_Body (w_msgs w1 m) = m_Body M" "m_FragDoneNumber (w_msgs w1 m) = int (length D) + 1"
    "f_Peer (w_frags w1 f) = Some m"
    using h(1) peer by (simp_all add: parts_def w1_def)
  have step: "S_MSet f (count_frag m w) =
     (if int (length D) + 1 < int (length (m_Body M)) then Some (w1, Some Continue)
      else
        let ok = (\<forall>(slot, g) \<in> set (m_Body M). f_Ok (w_frags w1 g)) in
        Some (upd_msg m (\<lambda>x. x\<lparr>m_Done := True, m_RspBody := if ok then OK else ErrUnKnown_reply\<rparr>) w1, None))"
    using M1 by (simp add: S_MSet_def w1_def [symmetric] Let_def)
  have kept1: "kept_mset rep m (f # D) w1" using h(4-6) by (auto simp: kept_mset_def w1_def)
  have P1: "parts M m (f # D) w1" using h(1,4) by (auto simp: parts_def Let_def w1_def)
  show "\<exists>w'. S_MSet f (count_frag m w) = Some (w', Some Continue) \<and> w_conns w' = w_conns w \<and> w_cfg w' = w_cfg w \<and>
        parts M m (f # D) w' \<and> kept_mset rep m (f # D) w'"
    if "length D + 1 < length (m_Body M)"
    using that step P1 kept1 by (intro exI [of _ w1]) (simp, simp add: w1_def)
  show "\<exists>w'. S_MSet f (count_frag m w) = Some (w', None) \<and> m_Done (w_msgs w' m) \<and>
        m_RspBody (w_msgs w' m) = answer_mset rep M \<and> f_Error (w_frags w' f) = []"
    if l: "length D + 1 = length (m_Body M)" "set (f # D) = snd ` set (m_Body M)"
  proof -
    have "(\<forall>(slot, g) \<in> set (m_Body M). f_Ok (w_frags w1 g)) \<longleftrightarrow> (\<forall>g \<in> snd ` set (m_Body M). reply_type (rep g) = RspOk)"
      using kept1 unfolding kept_mset_def l(2) by (simp add: split_beta)
    moreover have "f_Error (w_frags w1 f) = []" using P1 h(3) by (auto simp: parts_def Let_def)
    ultimately show ?thesis using step l(1) by (simp add: answer_mset_def)
  qed
qed (auto simp: kept_mset_def)

definition del_num :: "reply \<Rightarrow> int" where
  "del_num r = (case r of Integer s \<Rightarrow> dec_val s | _ \<Rightarrow> 0)"

definition kept_del :: "(nat \<Rightarrow> reply) \<Rightarrow> nat \<Rightarrow> nat list \<Rightarrow> ('t, 'h) W \<Rightarrow> bool" where
  "kept_del rep m D w \<longleftrightarrow> distinct D \<and> m_DelNum (w_msgs w m) = wrap64 (\<Sum>f \<in> set D. del_num (rep f))"

definition fits_del :: "(nat \<Rightarrow> reply) \<Rightarrow> Msg \<Rightarrow> nat \<Rightarrow> bool" where
  "fits_del rep M f \<longleftrightarrow> (\<exists>n. rep f = Integer (itoa_nat n) \<and> int n < 2 ^ 63)"

definition answer_del :: "(nat \<Rightarrow> reply) \<Rightarrow> Msg \<Rightarrow> bytes" where
  "answer_del rep M = CHR '':'' # itoa (wrap64 (\<Sum>f \<in> snd ` set (m_Body M). del_num (rep f))) @ CRLF"

interpretation del: gather ReqDel S_Del kept_del fits_del answer_del
proof
  fix M :: Msg and m D f rep and w :: "('t, 'h) W"
  assume h: "parts M m D w" "m_Type M = ReqDel" "f \<in> snd ` set (m_Body M)" "f \<notin> set D" "kept_del rep m D w"
    "\<forall>g \<in> snd ` set (m_Body M). fits_del rep M g" "f_RspBody (w_frags w f) = enc_reply (rep f)"
  then obtain n where n: "rep f = Integer (itoa_nat n)" "int n < 2 ^ 63" by (auto simp: fits_del_def)
  have num: "del_num (rep f) = int n" using n(1) by (simp add: del_num_def dec_val_itoa)
  have line: "slice (enc_reply (rep f)) 1 (int (length (enc_reply (rep f))) - 2) = Some (itoa_nat n)"
    "fst (parseLen (itoa_nat n)) = int n"
    using n parseLen_itoa [OF n(2)] by (simp_all add: slice_def)
  define w1 where "w1 = upd_frag f (\<lambda>x. x\<lparr>f_Done := True\<rparr>)
    (upd_msg m (\<lambda>x. x\<lparr>m_DelNum := wrap64 (m_DelNum x + int n)\<rparr>) (count_frag m w))"
  have peer: "f_Peer (w_frags w f) = Some m" using h(1,3) by (auto simp: parts_def Let_def)
  have M0: "m_Body (w_msgs w m) = m_Body M" "m_FragDoneNumber (w_msgs w m) = int (length D)"
    using h(1) by (simp_all add: parts_def)
  have step: "S_Del f (count_frag m w) =
     (if int (length D) + 1 < int (length (m_Body M)) then Some (w1, Some Continue)
      else Some (upd_msg m (\<lambda>x. x\<lparr>m_Done := True, m_RspBody := CHR '':'' # itoa (m_DelNum x) @ CRLF\<rparr>) w1, None))"
    using M0 line h(7) peer by (simp add: S_Del_def w1_def [symmetric] Let_def)
  have kept1: "kept_del rep m (f # D) w1"
    using h(4,5) num wrap64_add_left by (simp add: kept_del_def w1_def add.commute)
  have P1: "parts M m (f # D) w1" using h(1,4) by (auto simp: parts_def Let_def w1_def)
  show "\<exists>w'. S_Del f (count_frag m w) = Some (w', Some Continue) \<and> w_conns w' = w_conns w \<and> w_cfg w' = w_cfg w \<and>
        parts M m (f # D) w' \<and> kept_del rep m (f # D) w'"
    if "length D + 1 < length (m_Body M)"
    using that step P1 kept1 by (intro exI [of _ w1]) (simp, simp add: w1_def)
  show "\<exists>w'. S_Del f (count_frag m w) = Some (w', None) \<and> m_Done (w_msgs w' m) \<and>
        m_RspBody (w_msgs w' m) = answer_del rep M \<and> f_Error (w_frags w' f) = []"
    if l: "length D + 1 = length (m_Body M)" "set (f # D) = snd ` set (m_Body M)" "distinct (f # D)"
  proof -
    have "f_Error (w_frags w1 f) = []" using P1 h(3) by (auto simp: parts_def Let_def)
    moreover have "m_DelNum (w_msgs w1 m) = wrap64 (\<Sum>f \<in> snd ` set (m_Body M). del_num (rep f))"
      using kept1 unfolding kept_del_def l(2) by simp
    ultimately show ?thesis using step l(1) by (simp add: answer_del_def)
  qed
qed (auto simp: kept_del_def)

section \<open>A message split by the decoder\<close>

lemma map_of_keys: "k \<in> fst ` set xs \<Longrightarrow> \<exists>v. map_of xs k = Some v"
  by (metis map_of_eq_None_iff not_None_eq)

lemma map_of_key_in: "map_of xs k = Some v \<Longrightarrow> k \<in> fst ` set xs"
  by (metis map_of_eq_None_iff option.distinct(1))

lemma group_by_key: "k \<in> set keys \<Longrightarrow> map_of (group_by f [] keys) (f k) = Some (filter (\<lambda>x. f x = f k) keys)"
  by (auto simp: map_of_group_by filter_empty_conv)

lemma value_is_reply: "is_value r \<Longrightarrow> reply_ok r"
  by (cases r) simp_all

text \<open>The value found for a key is the value redis returned for that key.\<close>

lemma value_in_split:
  assumes frags: "m_Frags M = group_by Hash [] keys" and k: "k \<in> set keys" and body: "map_of (m_Body M) (Hash k) = Some f"
    and rep: "rep f = Array (map val (filter (\<lambda>x. Hash x = Hash k) keys))"
  shows "value_in rep M k = val k"
proof -
  let ?ks = "filter (\<lambda>x. Hash x = Hash k) keys"
  from index_of_mem [of k ?ks] k obtain i where "index_of k ?ks = Some i" "i < length ?ks" "?ks ! i = k" by auto
  with frags k body rep show ?thesis by (simp add: value_in_def group_by_key)
qed

lemma fits_mget_split:
  assumes keys: "m_Keys M = keys" "m_Frags M = group_by Hash [] keys" "map fst (m_Body M) = map fst (m_Frags M)"
      "int (length keys) < 2 ^ 63"
    and rep: "\<forall>(s, f) \<in> set (m_Body M). rep f = Array (map val (filter (\<lambda>k. Hash k = s) keys))" "\<forall>k. is_value (val k)"
    and f: "f \<in> snd ` set (m_Body M)"
  shows "fits_mget rep M f"
proof -
  have dist: "distinct (map fst (m_Body M))" using keys(2,3) by (simp add: distinct_group_by)
  from f obtain s where s: "(s, f) \<in> set (m_Body M)" by auto
  have slots: "fst ` set (m_Body M) = fst ` set (m_Frags M)" using arg_cong [OF keys(3), of set] by simp
  then have "s \<in> fst ` set (m_Frags M)" using imageI [OF s, of fst] by simp
  then have ne: "filter (\<lambda>k. Hash k = s) keys \<noteq> []"
    using map_of_keys [of s "m_Frags M"] keys(2) by (auto simp: map_of_group_by split: if_splits)
  have r: "rep f = Array (map val (filter (\<lambda>k. Hash k = s) keys))" using rep(1) s by blast
  have "\<exists>ks g. map_of (m_Frags M) (Hash k) = Some ks \<and> k \<in> set ks \<and> map_of (m_Body M) (Hash k) = Some g"
    if "k \<in> set (m_Keys M)" for k
  proof -
    have fr: "map_of (m_Frags M) (Hash k) = Some (filter (\<lambda>x. Hash x = Hash k) keys)"
      using group_by_key [of k keys Hash] that keys(1,2) by simp
    then have "Hash k \<in> fst ` set (m_Body M)" unfolding slots by (rule map_of_key_in)
    with map_of_keys [of "Hash k" "m_Body M"] obtain g where "map_of (m_Body M) (Hash k) = Some g" by blast
    with fr that keys(1) show ?thesis by simp
  qed
  moreover have "length ks = length (filter (\<lambda>k. Hash k = s) keys)"
    if "map_of (m_Body M) s' = Some f" "map_of (m_Frags M) s' = Some ks" for s' ks
  proof -
    have "rep f = Array (map val (filter (\<lambda>k. Hash k = s') keys))" using rep(1) map_of_SomeD [OF that(1)] by blast
    with r have "map val (filter (\<lambda>k. Hash k = s') keys) = map val (filter (\<lambda>k. Hash k = s) keys)" by simp
    then have "length (filter (\<lambda>k. Hash k = s') keys) = length (filter (\<lambda>k. Hash k = s) keys)" by (metis length_map)
    with that(2) keys(2) show ?thesis by (auto simp: map_of_group_by split: if_splits)
  qed
  moreover have "int (length (filter (\<lambda>k. Hash k = s) keys)) < 2 ^ 63"
    using length_filter_le [of "\<lambda>k. Hash k = s" keys] keys(4) by linarith
  ultimately show ?thesis using r ne rep(2) by (auto simp: fits_mget_def list_all_iff)
qed

lemma answer_mget_split:
  assumes keys: "m_Keys M = keys" "m_Frags M = group_by Hash [] keys" "map fst (m_Body M) = map fst (m_Frags M)"
    and rep: "\<forall>(s, f) \<in> set (m_Body M). rep f = Array (map val (filter (\<lambda>k. Hash k = s) keys))"
  shows "answer_mget rep M = enc_reply (Array (map val keys))"
proof -
  have "value_in rep M k = val k" if k: "k \<in> set keys" for k
  proof -
    have "Hash k \<in> fst ` set (m_Frags M)" unfolding keys(2) by (rule map_of_key_in [OF group_by_key [OF k]])
    moreover have "fst ` set (m_Frags M) = fst ` set (m_Body M)" using arg_cong [OF keys(3), of set] by simp
    ultimately have "\<exists>f. map_of (m_Body M) (Hash k) = Some f" by (intro map_of_keys) simp
    then obtain f where f: "map_of (m_Body M) (Hash k) = Some f" by blast
    have "rep f = Array (map val (filter (\<lambda>x. Hash x = Hash k) keys))" using bspec [OF rep map_of_SomeD [OF f]] by simp
    then show ?thesis by (rule value_in_split [where keys = keys, OF keys(2) k f])
  qed
  then have "map (value_in rep M) keys = map val keys" by simp
  then show ?thesis unfolding answer_mget_def keys(1) by (rule arg_cong)
qed

section \<open>A concrete message\<close>

text \<open>
  A message with the fragments 1 and 2, each sent over the connection of the same number, on which its
  reply has arrived.
\<close>

definition split_world :: "Msg \<Rightarrow> (nat \<Rightarrow> reply) \<Rightarrow> ((int \<times> nat) list, (string \<times> ClusterNode) list) world" where
  "split_world M rep = (example_world [])\<lparr>w_msgs := (\<lambda>_. M),
     w_frags := (\<lambda>f. new_Frag\<lparr>f_Owner := Some 9, f_Peer := Some 0\<rparr>),
     w_conns := (\<lambda>s. (example_conn ConnServer 5)\<lparr>c_inFragQueue := Some [s], c_buffer := enc_reply (rep s)\<rparr>)\<rparr>"

definition split_msg :: "Command \<Rightarrow> Msg" where
  "split_msg ty = new_Msg\<lparr>m_Type := ty, m_Keys := [''a'', ''b''], m_Frags := group_by Hash [] [''a'', ''b''],
     m_Body := [(Hash ''a'', 1), (Hash ''b'', 2)]\<rparr>"

lemma example_slots: "Hash ''a'' = 15495" "Hash ''b'' = 3300"
proof -
  have "key_slot ''a'' = 15495" "key_slot ''b'' = 3300" by code_simp+
  then show "Hash ''a'' = 15495" "Hash ''b'' = 3300" by (simp_all add: Hash_no_brace hash_key_slot)
qed

lemma split_msg_simps [simp]:
  "m_Type (split_msg ty) = ty" "m_Keys (split_msg ty) = [''a'', ''b'']" "m_Frags (split_msg ty) = group_by Hash [] [''a'', ''b'']"
  "m_Body (split_msg ty) = [(Hash ''a'', 1), (Hash ''b'', 2)]" "m_DelNum (split_msg ty) = 0"
  by (simp_all add: split_msg_def new_Msg_def)

lemma split_world_msgs [simp]: "w_msgs (split_world M rep) m = M"
  by (simp add: split_world_def)

lemma split_msg_slots: "map fst (m_Body (split_msg ty)) = map fst (m_Frags (split_msg ty))"
  by (simp add: example_slots slot_append_def)

lemma split_world_parts: "parts (split_msg ty) 0 [] (split_world (split_msg ty) rep)"
  by (simp add: parts_def split_world_def split_msg_def new_Msg_def new_Frag_def)

lemma split_world_waiting: "waiting id rep [2, 1] (split_world M rep)"
  by (auto simp: waiting_def split_world_def example_conn_def er_inv_def conn_in_def er_abs_def)

lemma split_world_cfg: "g_MsgMaxLength (w_cfg (split_world M rep)) = 1000"
  by (simp add: split_world_def example_world_def example_config_def)

section \<open>Stated properties\<close>

text \<open>
  C2: when the fragments of an \<open>mget\<close> have been answered, in whatever order and over whatever
  connections the replies arrived, the reply to the client is the array of the values of its keys in
  the order of the request, a key that occurs several times included.
\<close>

theorem mget_reassembled:
  assumes "parts M m [] w" "m_Type M = ReqMget" "m_Keys M = keys" "m_Frags M = group_by Hash [] keys"
    and "map fst (m_Body M) = map fst (m_Frags M)" "distinct (map snd (m_Body M))" "keys \<noteq> []" "int (length keys) < 2 ^ 63"
    and rep: "\<forall>(s, f) \<in> set (m_Body M). rep f = Array (map val (filter (\<lambda>k. Hash k = s) keys))" "\<forall>k. is_value (val k)"
    and "waiting server rep fs w" "distinct fs" "set fs = snd ` set (m_Body M)"
    and "\<forall>f \<in> set fs. int (length (enc_reply (rep f))) \<le> g_MsgMaxLength (w_cfg w)"
    and "int (length (enc_reply (Array (map val keys)))) \<le> g_MsgMaxLength (w_cfg w)"
  shows "\<exists>w'. sreads (map server fs) w = Some w' \<and> m_Done (w_msgs w' m) \<and>
    m_RspBody (w_msgs w' m) = enc_reply (Array (map val keys))"
proof -
  note ans = answer_mget_split [OF assms(3-5) rep(1)]
  have fits: "fits_mget rep M f" if "f \<in> snd ` set (m_Body M)" for f
    by (rule fits_mget_split [OF assms(3-5,8) rep that])
  have reply: "reply_ok (rep f) \<and> reply_type (rep f) \<notin> {RspMoved, RspAsk}" if "f \<in> snd ` set (m_Body M)" for f
  proof -
    from fits [OF that] obtain vs where "rep f = Array vs" "list_all is_value vs" "int (length vs) < 2 ^ 63"
      by (auto simp: fits_mget_def)
    then show ?thesis using value_is_reply by (simp add: list_all_iff)
  qed
  obtain k where k: "k \<in> set keys" using assms(7) by (cases keys) auto
  have "Hash k \<in> fst ` set (m_Frags M)" unfolding assms(4) by (rule map_of_key_in [OF group_by_key [OF k]])
  then have "m_Frags M \<noteq> []" by auto
  then have "m_Body M \<noteq> []" using assms(5) by (metis map_is_Nil_conv)
  then have "fs \<noteq> []" using assms(13) by auto
  have "\<exists>w'. sreads (map server fs) w = Some w' \<and> m_Done (w_msgs w' m) \<and> m_RspBody (w_msgs w' m) = answer_mget rep M"
    by (rule mget.gathered [OF assms(1,2) _ assms(11,6)])
      (use assms(12-15) fits reply \<open>fs \<noteq> []\<close> ans in \<open>simp_all add: kept_mget_def\<close>)
  then show ?thesis unfolding ans .
qed

theorem mget_reassembled_witness:
  "\<exists>w'. sreads [2, 1] (split_world (split_msg ReqMget) (\<lambda>f. Array [if f = 1 then Bulk ''x'' else Nil])) = Some w' \<and>
    m_Done (w_msgs w' 0) \<and> m_RspBody (w_msgs w' 0) = enc_reply (Array [Bulk ''x'', Nil])"
  using mget_reassembled [of "split_msg ReqMget" 0 "split_world (split_msg ReqMget) (\<lambda>f. Array [if f = 1 then Bulk ''x'' else Nil])"
      "[''a'', ''b'']" "\<lambda>f. Array [if f = 1 then Bulk ''x'' else Nil]" "\<lambda>k. if k = ''a'' then Bulk ''x'' else Nil" id "[2, 1]",
      OF split_world_parts _ _ _ split_msg_slots _ _ _ _ _ split_world_waiting]
  by (simp add: split_world_cfg example_slots enc_bulk_def enc_header_def itoa_nat.simps insert_commute)



text \<open>
  C20: the client of a \<open>del\<close> gets the sum of the numbers the nodes returned, in whatever order they
  arrived.
\<close>

theorem del_counts_added:
  assumes "parts M m [] w" "m_Type M = ReqDel" "distinct (map snd (m_Body M))" "m_DelNum (w_msgs w m) = 0"
    and "waiting server rep fs w" "distinct fs" "set fs = snd ` set (m_Body M)" "fs \<noteq> []"
    and "\<forall>f \<in> set fs. rep f = Integer (itoa_nat (num f))" "int (\<Sum>f \<in> set fs. num f) < 2 ^ 63"
    and "\<forall>f \<in> set fs. int (length (enc_reply (rep f))) \<le> g_MsgMaxLength (w_cfg w)"
    and "int (length (enc_reply (Integer (itoa_nat (\<Sum>f \<in> set fs. num f))))) \<le> g_MsgMaxLength (w_cfg w)"
  shows "\<exists>w'. sreads (map server fs) w = Some w' \<and> m_Done (w_msgs w' m) \<and>
    m_RspBody (w_msgs w' m) = enc_reply (Integer (itoa_nat (\<Sum>f \<in> set fs. num f)))"
proof -
  have "(\<Sum>f \<in> set fs. del_num (rep f)) = int (\<Sum>f \<in> set fs. num f)"
    using assms(9) by (simp add: del_num_def)
  then have ans: "answer_del rep M = enc_reply (Integer (itoa_nat (\<Sum>f \<in> set fs. num f)))"
    using assms(10) by (simp add: answer_del_def assms(7) [symmetric] wrap64_id itoa_of_nat(1) del: of_nat_sum)
  have small: "int (num f) < 2 ^ 63" if "f \<in> set fs" for f
  proof -
    have "num f \<le> (\<Sum>f \<in> set fs. num f)" using that by (rule member_le_sum) simp_all
    with assms(10) show ?thesis by linarith
  qed
  have all: "\<forall>f \<in> snd ` set (m_Body M). fits_del rep M f \<and> reply_ok (rep f) \<and> reply_type (rep f) \<notin> {RspMoved, RspAsk} \<and>
      int (length (enc_reply (rep f))) \<le> g_MsgMaxLength (w_cfg w)"
    unfolding assms(7) [symmetric]
  proof
    fix f assume f: "f \<in> set fs"
    then have "fits_del rep M f" using assms(9) small unfolding fits_del_def by blast
    with f assms(9,11) itoa_nat_no_LF show "fits_del rep M f \<and> reply_ok (rep f) \<and> reply_type (rep f) \<notin> {RspMoved, RspAsk} \<and>
      int (length (enc_reply (rep f))) \<le> g_MsgMaxLength (w_cfg w)" by simp
  qed
  have "\<exists>w'. sreads (map server fs) w = Some w' \<and> m_Done (w_msgs w' m) \<and> m_RspBody (w_msgs w' m) = answer_del rep M"
    by (rule del.gathered [OF assms(1,2) _ assms(5,3) _ _ assms(8) all])
      (use assms(4,6,7,12) ans in \<open>simp_all add: kept_del_def wrap64_def\<close>)
  then show ?thesis unfolding ans .
qed

theorem del_counts_added_witness:
  "\<exists>w'. sreads [2, 1] (split_world (split_msg ReqDel) (\<lambda>f. Integer (itoa_nat f))) = Some w' \<and>
    m_Done (w_msgs w' 0) \<and> m_RspBody (w_msgs w' 0) = enc_reply (Integer (itoa_nat 3))"
  using del_counts_added [of "split_msg ReqDel" 0 "split_world (split_msg ReqDel) (\<lambda>f. Integer (itoa_nat f))" id
      "\<lambda>f. Integer (itoa_nat f)" "[2, 1]" id, OF split_world_parts _ _ _ split_world_waiting]
  by (simp add: split_world_cfg insert_commute itoa_nat_digit numeral_3_eq_3)

end
