(* ===== verification/Redis_Pool.thy ===== *)
theory Redis_Pool
  imports Server_Reply Redis_Client
begin

text \<open>
  Opening connections: the pools of redis connections of \<^verbatim>\<open>src/core/redis_pool.go\<close>, \<open>Dial\<close> of
  \<^verbatim>\<open>src/core/engine.go\<close>, \<open>open\<close> of \<^verbatim>\<open>src/core/eventloop.go\<close>, \<open>accept\<close> of
  \<^verbatim>\<open>src/core/acceptor.go\<close> and the handlers for opened connections of \<^verbatim>\<open>src/core/server\<close>.

  The active connections of a pool are a list of addresses, oldest first: \<open>pushFront\<close> appends,
  \<open>popBack\<close> removes the first (\<open>Linked_Queue\<close> shows that the linked list of the source is such a queue).
  A pool is named by its address in \<open>ProxyPool\<close>. An attempt to connect takes the next element of
  \<open>w_dials\<close>: the descriptor of the new connection and its local address, or a failure of any of the system
  calls involved. A new descriptor is one that is not in use.
\<close>

section \<open>Opened connections\<close>

definition OnCOpened :: "nat \<Rightarrow> ('t, 'h) W \<Rightarrow> (bytes option \<times> Action) go" where
  "OnCOpened c w = do {
     access \<leftarrow> idx (Split (RemoteAddr (w_conns w c)) '':'') 0;
     Some (None, if \<not> w_Validate w access then Close else NoAction)
   }"

definition READONLY :: bytes where
  "READONLY = ''*1'' @ CRLF @ ''$8'' @ CRLF @ ''READONLY'' @ CRLF"

definition OnSOpened :: "nat \<Rightarrow> ('t, 'h) W \<Rightarrow> ('t, 'h) W \<times> bytes option \<times> Action" where
  "OnSOpened s w =
     (let auth = length (w_authCmd w) > 0;
          slave = c_isSlave (w_conns w s);
          step = (if auth then 1 else 0) + (if slave then 1 else 0);
          initCmd = (if auth then w_authCmd w else []) @ (if slave then READONLY else [])
      in if length initCmd > 0
         then (upd_conn s (\<lambda>c. c\<lparr>c_initStep := step, c_initStatus := Initializing\<rparr>) w, Some initCmd, NoAction)
         else (upd_conn s (\<lambda>c. c\<lparr>c_initStep := 0, c_initStatus := Initialized\<rparr>) w, None, NoAction))"

definition handleAction :: "nat \<Rightarrow> Action \<Rightarrow> ('t, 'h) W \<Rightarrow> (('t, 'h) W \<times> loop_err option) go" where
  "handleAction a action w =
     (case action of
        NoAction \<Rightarrow> Some (w, None)
      | Close \<Rightarrow> closeConn a w
      | Shutdown \<Rightarrow> Some (w, Some EngineShutdown))"

text \<open>
  The two steps of \<open>open\<close> that follow the handler of the opened connection: sending what the handler
  returned, and watching for a writable socket when not everything was sent.
\<close>

definition greet :: "nat \<Rightarrow> bytes option \<Rightarrow> ('t, 'h) W \<Rightarrow> (('t, 'h) W \<times> loop_err option) go" where
  "greet a out w = (case out of Some out \<Rightarrow> conn_open a out w | None \<Rightarrow> Some (w, None))"

definition watch_rest :: "nat \<Rightarrow> ('t, 'h) W \<Rightarrow> (('t, 'h) W \<times> loop_err option) go" where
  "watch_rest a w = (if \<not> eb_IsEmpty (c_outboundBuffer (w_conns w a)) then AddWrite a w else Some (w, None))"

definition loop_open :: "nat \<Rightarrow> ('t, 'h) W \<Rightarrow> (('t, 'h) W \<times> loop_err option) go" where
  "loop_open a w = do {
     let w = upd_conn a (\<lambda>c. c\<lparr>c_opened := True\<rparr>) w;
     (w, out, action) \<leftarrow>
       (case c_connType (w_conns w a) of
          ConnClient \<Rightarrow> do { let w = addCConn 1 w; (out, action) \<leftarrow> OnCOpened a w; Some (w, out, action) }
        | ConnServer \<Rightarrow> Some (OnSOpened a (addSConn 1 w))
        | ConnNone \<Rightarrow> Some (w, None, Close));
     (w, err) \<leftarrow> greet a out w;
     (if err \<noteq> None then Some (w, err)
      else do {
        (w, err) \<leftarrow> watch_rest a w;
        (if err \<noteq> None then Some (w, err) else handleAction a action w)
      })
   }"

text \<open>A new socket: the kernel hands out the descriptor \<open>fd\<close> for the connection \<open>a\<close>.\<close>

definition new_socket :: "int \<Rightarrow> nat \<Rightarrow> ('t, 'h) W \<Rightarrow> ('t, 'h) W" where
  "new_socket fd a w = w\<lparr>w_sockets := (w_sockets w)(fd := Some a), w_wire := (w_wire w)(a := [])\<rparr>"

text \<open>
  The answer of the system call \<open>Accept\<close> (an error, or a descriptor with the address of the peer) and the
  one of \<open>SetNonblock\<close> come from the kernel.
\<close>

definition accept ::
  "errno + (int \<times> string) \<Rightarrow> errno option \<Rightarrow> string \<Rightarrow> ('t, 'h) W \<Rightarrow> (('t, 'h) W \<times> loop_err option) go" where
  "accept answer nonblock lnAddr w =
     (case answer of
        Inl e \<Rightarrow> Some (w, if e = EAGAIN then None else Some (SyscallError e))
      | Inr (nfd, remoteAddr) \<Rightarrow>
          (case nonblock of
             Some e \<Rightarrow> Some (w, Some (SyscallError e))
           | None \<Rightarrow> do {
               (w, a) \<leftarrow> newTCPConn nfd (Some lnAddr) (Some remoteAddr) ConnClient Initialized False w;
               let w = new_socket nfd a w;
               (w, err) \<leftarrow> AddRead a w;
               (if err \<noteq> None then Some (w, err)
                else loop_open a (w\<lparr>w_connections := (w_connections w)(nfd := Some a)\<rparr>))
             }))"

definition loop_register :: "nat \<Rightarrow> ('t, 'h) W \<Rightarrow> (('t, 'h) W \<times> loop_err option) go" where
  "loop_register a w = do {
     (w, err) \<leftarrow> AddRead a w;
     (if err \<noteq> None then do {
        let w = fst (sys_close (c_fd (w_conns w a)) w);
        w \<leftarrow> releaseTCP a w;
        Some (w, err)
      }
      else loop_open a (w\<lparr>w_connections := (w_connections w)(c_fd (w_conns w a) := Some a)\<rparr>))
   }"

section \<open>Dialing redis\<close>

definition Dial :: "string \<Rightarrow> bool \<Rightarrow> ('t, 'h) W \<Rightarrow> (('t, 'h) W \<times> nat option) go" where
  "Dial address isSlave w =
     (case w_dials w of
        [] \<Rightarrow> Some (w, None)
      | None # ds \<Rightarrow> Some (w\<lparr>w_dials := ds\<rparr>, None)
      | Some (fd, localAddr) # ds \<Rightarrow> do {
          let w = w\<lparr>w_dials := ds\<rparr>;
          let initStatus = (if length (g_RedisPasswd (w_cfg w)) > 0 then InitializeNone else Initialized);
          (w, a) \<leftarrow> newTCPConn fd (Some localAddr) (Some address) ConnServer initStatus isSlave w;
          let w = new_socket fd a w;
          (w, err) \<leftarrow> AddRead a w;
          (if err \<noteq> None then do {
             let w = fst (sys_close fd w);
             w \<leftarrow> releaseTCP a w;
             Some (w, None)
           }
           else do {
             (w, err) \<leftarrow> loop_open a (w\<lparr>w_connections := (w_connections w)(fd := Some a)\<rparr>);
             Some (w, if err \<noteq> None then None else Some a)
           })
        })"

section \<open>Pools\<close>

definition newPool :: "string \<Rightarrow> bool \<Rightarrow> config \<Rightarrow> Pool" where
  "newPool addr isSlave cfg =
     \<lparr>p_Addr = addr, p_Passwd = g_RedisPasswd cfg, p_maxActive = g_RedisServerConnections cfg, p_active = [],
      p_LiftBanOrder = 0, p_LiftBanTime = 0, p_AutoBanFlag = False, p_isSlave = isSlave, p_closed = False\<rparr>"

definition upd_pool :: "string \<Rightarrow> (Pool \<Rightarrow> Pool) \<Rightarrow> ('t, 'h) W \<Rightarrow> ('t, 'h) W" where
  "upd_pool addr g w =
     w\<lparr>w_ProxyPool := map (\<lambda>(k, p). (k, if k = addr then g p else p)) (w_ProxyPool w)\<rparr>"

text \<open>The loop of \<open>Get\<close>: the oldest connection that is open becomes the newest, closed ones are dropped.\<close>

fun pick_active :: "(nat \<Rightarrow> bool) \<Rightarrow> nat list \<Rightarrow> nat list \<times> nat option" where
  "pick_active opened [] = ([], None)"
| "pick_active opened (c # cs) = (if \<not> opened c then pick_active opened cs else (cs @ [c], Some c))"

definition pool_dial :: "string \<Rightarrow> Pool \<Rightarrow> ('t, 'h) W \<Rightarrow> (('t, 'h) W \<times> nat option) go" where
  "pool_dial addr p w = do {
     (w, c) \<leftarrow> Dial (p_Addr p) (p_isSlave p) w;
     Some (case c of
         None \<Rightarrow> (w, None)
       | Some c \<Rightarrow> (upd_pool addr (\<lambda>p. p\<lparr>p_active := p_active p @ [c]\<rparr>) w, Some c))
   }"

definition pool_Get :: "string \<Rightarrow> ('t, 'h) W \<Rightarrow> (('t, 'h) W \<times> nat option) go" where
  "pool_Get addr w = do {
     p \<leftarrow> map_of (w_ProxyPool w) addr;
     (if p_closed p then Some (w, None)
      else if int (length (p_active p)) < p_maxActive p then pool_dial addr p w
      else
        (case pick_active (\<lambda>c. c_opened (w_conns w c)) (p_active p) of (cs, c) \<Rightarrow>
           let w = upd_pool addr (\<lambda>p. p\<lparr>p_active := cs\<rparr>) w in
           (case c of Some c \<Rightarrow> Some (w, Some c) | None \<Rightarrow> pool_dial addr p w)))
   }"

definition pool_Release :: "string \<Rightarrow> ('t, 'h) W \<Rightarrow> ('t, 'h) W go" where
  "pool_Release addr w = do {
     p \<leftarrow> map_of (w_ProxyPool w) addr;
     Some (if p_closed p then w
           else foldl (\<lambda>w c. conn_Close c w) (upd_pool addr (\<lambda>p. p\<lparr>p_active := []\<rparr>) w) (rev (p_active p)))
   }"

definition pool_Close :: "string \<Rightarrow> ('t, 'h) W \<Rightarrow> ('t, 'h) W go" where
  "pool_Close addr w = do {
     p \<leftarrow> map_of (w_ProxyPool w) addr;
     (if p_closed p then Some w
      else do {
        w \<leftarrow> pool_Release addr w;
        Some (upd_pool addr (\<lambda>p. p\<lparr>p_closed := True\<rparr>) w)
      })
   }"

definition pool_SetIsSlave :: "string \<Rightarrow> bool \<Rightarrow> ('t, 'h) W \<Rightarrow> ('t, 'h) W go" where
  "pool_SetIsSlave addr isSlave w = do {
     p \<leftarrow> map_of (w_ProxyPool w) addr;
     (if p_isSlave p \<noteq> isSlave
      then pool_Release addr (upd_pool addr (\<lambda>p. p\<lparr>p_isSlave := isSlave\<rparr>) w)
      else Some w)
   }"

definition ActiveCount :: "Pool \<Rightarrow> int" where
  "ActiveCount p = int (length (p_active p))"

section \<open>The monitor of a pool\<close>

text \<open>
  One probe of a redis node: what the node sends and whether the network works, or \<open>None\<close> when no
  connection can be made.
\<close>

definition pool_detect :: "(bytes \<times> bool) option \<Rightarrow> string \<Rightarrow> rerr option go" where
  "pool_detect net passwd =
     (case net of
        None \<Rightarrow> Some (Some NetError)
      | Some (input, up) \<Rightarrow> do {
          (c, err) \<leftarrow> rc_Dial input up passwd;
          (if err \<noteq> None then Some err
           else do {
             (c, res, err) \<leftarrow> rc_Do 3 c ''PING'' [];
             Some (if err \<noteq> None then err
                   else case res of
                     VStr v \<Rightarrow> if v \<noteq> ''PONG'' then Some (InfoError (''invalid res'' @ v)) else None
                   | _ \<Rightarrow> Some (InfoError ''unknown res''))
           })
        })"

text \<open>
  One tick of \<open>monitor\<close>, with the outcome of the first probe and of the one that follows five seconds
  later when it failed; the second result tells whether the monitor goes on.
\<close>

definition monitor_tick :: "int \<Rightarrow> (bytes \<times> bool) option \<Rightarrow> (bytes \<times> bool) option \<Rightarrow> Pool \<Rightarrow> (Pool \<times> bool) go" where
  "monitor_tick now net1 net2 p =
     (if p_closed p then Some (p, False)
      else do {
        err \<leftarrow> pool_detect net1 (p_Passwd p);
        (if err = None then Some (p\<lparr>p_LiftBanOrder := 0, p_AutoBanFlag := False\<rparr>, True)
         else do {
           err \<leftarrow> pool_detect net2 (p_Passwd p);
           (if err = None then Some (p\<lparr>p_LiftBanOrder := 0, p_AutoBanFlag := False\<rparr>, True)
            else Some (p\<lparr>p_LiftBanTime := now + 60000 * Millisecond, p_AutoBanFlag := True\<rparr>, True))
         })
      })"

section \<open>A dialed connection is open\<close>

text \<open>What the writes and registrations at the opening of a connection leave alone.\<close>

definition keeps_open :: "('t, 'h) W \<Rightarrow> ('t, 'h) W \<Rightarrow> bool" where
  "keeps_open w w' \<longleftrightarrow> w_ProxyPool w' = w_ProxyPool w \<and>
     (\<forall>b. c_opened (w_conns w' b) = c_opened (w_conns w b) \<and> c_isSlave (w_conns w' b) = c_isSlave (w_conns w b) \<and>
       c_connType (w_conns w' b) = c_connType (w_conns w b) \<and> c_remoteAddr (w_conns w' b) = c_remoteAddr (w_conns w b))"

lemma keeps_open_trans: "keeps_open w1 w2 \<Longrightarrow> keeps_open w2 w3 \<Longrightarrow> keeps_open w1 w3"
  by (simp add: keeps_open_def)

lemma keeps_open_refl: "keeps_open w w"
  by (simp add: keeps_open_def)

lemma keeps_open_buf_Write: "buf_Write a d w = Some w' \<Longrightarrow> keeps_open w w'"
  by (auto simp: buf_Write_def keeps_open_def upd_conn_def split: bind_splits if_splits)

lemma keeps_open_sys_write: "sys_write fd d w = (w', n, e) \<Longrightarrow> keeps_open w w'"
  by (auto simp: sys_write_def keeps_open_def split: option.splits if_splits list.splits io_answer.splits)

lemma keeps_open_conn_open: "conn_open a d w = Some (w', e) \<Longrightarrow> keeps_open w w'"
proof -
  assume h: "conn_open a d w = Some (w', e)"
  obtain w1 n err where sw: "sys_write (c_fd (w_conns w a)) d w = (w1, n, err)" by (cases "sys_write (c_fd (w_conns w a)) d w")
  with h have "w' = w1 \<or> (\<exists>d. buf_Write a d w1 = Some w')"
    by (auto simp: conn_open_def split: if_splits bind_splits)
  with keeps_open_sys_write [OF sw] show ?thesis using keeps_open_buf_Write keeps_open_trans by blast
qed

lemma keeps_open_AddWrite: "AddWrite a w = Some (w', e) \<Longrightarrow> keeps_open w w'"
  by (auto simp: AddWrite_def epoll_add_def keeps_open_def split: bind_splits if_splits)

lemma keeps_open_AddRead: "AddRead a w = Some (w', e) \<Longrightarrow> keeps_open w w'"
  by (auto simp: AddRead_def epoll_add_def keeps_open_def split: bind_splits if_splits)

lemma keeps_open_greet: "greet a out w = Some (w', e) \<Longrightarrow> keeps_open w w'"
  by (cases out) (auto simp: greet_def keeps_open_refl keeps_open_conn_open)

lemma keeps_open_watch_rest: "watch_rest a w = Some (w', e) \<Longrightarrow> keeps_open w w'"
  by (auto simp: watch_rest_def keeps_open_refl keeps_open_AddWrite split: if_splits)

lemma OnSOpened_kept:
  assumes "OnSOpened a (addSConn 1 (upd_conn a (\<lambda>c. c\<lparr>c_opened := True\<rparr>) w)) = (w1, out, act)"
  shows "act = NoAction \<and> c_opened (w_conns w1 a) \<and> c_isSlave (w_conns w1 a) = c_isSlave (w_conns w a) \<and>
    c_remoteAddr (w_conns w1 a) = c_remoteAddr (w_conns w a) \<and> w_ProxyPool w1 = w_ProxyPool w"
  using assms by (simp add: OnSOpened_def Let_def split: if_splits) (auto simp: addSConn_def upd_conn_def)

lemma loop_open_server:
  assumes "loop_open a w = Some (w', None)" "c_connType (w_conns w a) = ConnServer"
  shows "c_opened (w_conns w' a) \<and> c_isSlave (w_conns w' a) = c_isSlave (w_conns w a) \<and>
    c_remoteAddr (w_conns w' a) = c_remoteAddr (w_conns w a) \<and> w_ProxyPool w' = w_ProxyPool w"
proof -
  let ?w0 = "addSConn 1 (upd_conn a (\<lambda>c. c\<lparr>c_opened := True\<rparr>) w)"
  obtain w1 out act where o': "OnSOpened a ?w0 = (w1, out, act)" by (cases "OnSOpened a ?w0")
  note k = OnSOpened_kept [OF this]
  have o: "OnSOpened a ?w0 = (w1, out, NoAction)" using o' k by simp
  have "greet a out w1 \<noteq> None" using assms o by (intro notI) (simp add: loop_open_def)
  then obtain w2 e2 where g: "greet a out w1 = Some (w2, e2)" by auto
  then have "e2 = None" using assms o by (cases e2) (simp_all add: loop_open_def)
  moreover have "watch_rest a w2 \<noteq> None" using assms o g \<open>e2 = None\<close> by (intro notI) (simp add: loop_open_def)
  then obtain w3 e3 where r: "watch_rest a w2 = Some (w3, e3)" by auto
  ultimately have "w' = w3" using assms o g by (cases e3) (simp_all add: loop_open_def handleAction_def)
  with keeps_open_trans [OF keeps_open_greet [OF g] keeps_open_watch_rest [OF r]] k show ?thesis by (simp add: keeps_open_def)
qed

lemma Dial_answer: "Dial addr isSlave w = Some (w', Some a) \<Longrightarrow> \<exists>fd local ds. w_dials w = Some (fd, local) # ds"
  by (cases "w_dials w"; cases "hd (w_dials w)") (simp_all add: Dial_def)

lemma Dial_open:
  assumes "Dial addr isSlave w = Some (w', Some a)"
  shows "c_opened (w_conns w' a) \<and> c_isSlave (w_conns w' a) = isSlave \<and> c_remoteAddr (w_conns w' a) = Some addr \<and>
    w_ProxyPool w' = w_ProxyPool w"
proof -
  from Dial_answer [OF assms] obtain fd local ds where d: "w_dials w = Some (fd, local) # ds" by blast
  let ?st = "if length (g_RedisPasswd (w_cfg w)) > 0 then InitializeNone else Initialized"
  let ?new = "newTCPConn fd (Some local) (Some addr) ConnServer ?st isSlave (w\<lparr>w_dials := ds\<rparr>)"
  have "?new \<noteq> None" using assms d by (intro notI) (simp add: Dial_def)
  then obtain w1 a1 where n: "?new = Some (w1, a1)" by auto
  have "AddRead a1 (new_socket fd a1 w1) \<noteq> None" using assms d n by (intro notI) (simp add: Dial_def)
  then obtain w2 e where r: "AddRead a1 (new_socket fd a1 w1) = Some (w2, e)" by auto
  let ?w2 = "w2\<lparr>w_connections := (w_connections w2)(fd := Some a1)\<rparr>"
  have e: "e = None"
    using assms d n r by (cases e; cases "releaseTCP a1 (fst (sys_close fd w2))") (simp_all add: Dial_def)
  have "loop_open a1 ?w2 \<noteq> None" using assms d n r e by (intro notI) (simp add: Dial_def)
  then obtain w3 e3 where l: "loop_open a1 ?w2 = Some (w3, e3)" by auto
  with assms d n r e have 3: "e3 = None" "w3 = w'" "a1 = a" by (cases e3; simp add: Dial_def)+
  have "keeps_open (new_socket fd a1 w1) w2" by (rule keeps_open_AddRead [OF r])
  moreover have "c_connType (w_conns w1 a1) = ConnServer" "c_isSlave (w_conns w1 a1) = isSlave"
    "c_remoteAddr (w_conns w1 a1) = Some addr" "w_ProxyPool w1 = w_ProxyPool w"
    using n by (auto simp: newTCPConn_def Let_def split: bind_splits)
  ultimately show ?thesis using loop_open_server [of a1 ?w2 w'] l 3 by (simp add: keeps_open_def new_socket_def)
qed

section \<open>Getting a connection\<close>

lemma map_of_upd_pool:
  "map_of (w_ProxyPool (upd_pool addr g w)) k = map_option (\<lambda>p. if k = addr then g p else p) (map_of (w_ProxyPool w) k)"
proof -
  have "map_of (map (\<lambda>(k, p). (k, if k = addr then g p else p)) xs) k = map_option (\<lambda>p. if k = addr then g p else p) (map_of xs k)" for xs
    by (induction xs) auto
  then show ?thesis by (simp add: upd_pool_def)
qed

lemma upd_pool_simps [simp]:
  "w_conns (upd_pool addr g w) = w_conns w" "w_dials (upd_pool addr g w) = w_dials w"
  by (simp_all add: upd_pool_def)

lemma pick_active_some:
  "pick_active opened cs = (cs', Some c) \<Longrightarrow> opened c \<and> length cs' \<le> length cs \<and> cs' \<noteq> [] \<and> last cs' = c \<and>
     (\<exists>closed rest. cs = closed @ c # rest \<and> list_all (\<lambda>x. \<not> opened x) closed \<and> cs' = rest @ [c])"
proof (induction cs)
  case (Cons x xs)
  show ?case
  proof (cases "opened x")
    case False
    with Cons obtain closed rest where "xs = closed @ c # rest" "list_all (\<lambda>x. \<not> opened x) closed" "cs' = rest @ [c]" by auto
    with False Cons show ?thesis by (auto intro!: exI [of _ "x # closed"])
  qed (use Cons.prems in auto)
qed simp

lemma pick_active_none: "pick_active opened cs = (cs', None) \<Longrightarrow> cs' = []"
  by (induction cs) (auto split: if_splits)

lemma pool_dial_open:
  assumes "pool_dial addr p w = Some (w', Some c)" "map_of (w_ProxyPool w) addr = Some q"
  shows "c_opened (w_conns w' c) \<and> map_of (w_ProxyPool w') addr = Some (q\<lparr>p_active := p_active q @ [c]\<rparr>)"
proof -
  from assms(1) obtain w1 where "Dial (p_Addr p) (p_isSlave p) w = Some (w1, Some c)"
    "w' = upd_pool addr (\<lambda>p. p\<lparr>p_active := p_active p @ [c]\<rparr>) w1"
    by (auto simp: pool_dial_def split: bind_splits option.splits)
  with Dial_open [of "p_Addr p" "p_isSlave p" w w1 c] assms(2) show ?thesis by (simp add: map_of_upd_pool)
qed

lemma pool_Get_open:
  assumes "pool_Get addr w = Some (w', Some c)" "map_of (w_ProxyPool w) addr = Some p"
    "int (length (p_active p)) \<le> max 1 (p_maxActive p)"
  shows "c_opened (w_conns w' c) \<and> (\<exists>p'. map_of (w_ProxyPool w') addr = Some p' \<and> p_active p' \<noteq> [] \<and> last (p_active p') = c \<and>
    p' = p\<lparr>p_active := p_active p'\<rparr> \<and> int (length (p_active p')) \<le> max 1 (p_maxActive p))"
proof -
  have nc: "\<not> p_closed p" using assms(1,2) by (auto simp: pool_Get_def)
  show ?thesis
  proof (cases "int (length (p_active p)) < p_maxActive p")
    case True
    with assms(1,2) nc have "pool_dial addr p w = Some (w', Some c)" by (simp add: pool_Get_def)
    from pool_dial_open [OF this assms(2)] True show ?thesis by simp
  next
    case False
    obtain cs r where pick: "pick_active (\<lambda>c. c_opened (w_conns w c)) (p_active p) = (cs, r)" by fastforce
    let ?w = "upd_pool addr (\<lambda>p. p\<lparr>p_active := cs\<rparr>) w"
    have m: "map_of (w_ProxyPool ?w) addr = Some (p\<lparr>p_active := cs\<rparr>)" using assms(2) by (simp add: map_of_upd_pool)
    show ?thesis
    proof (cases r)
      case None
      with assms(1,2) nc False pick have "pool_dial addr p ?w = Some (w', Some c)" by (simp add: pool_Get_def Let_def)
      from pool_dial_open [OF this m] pick_active_none [OF pick [unfolded None]] show ?thesis by simp
    next
      case (Some c')
      with assms(1,2) nc False pick have "w' = ?w" "c' = c" by (auto simp: pool_Get_def Let_def)
      with pick_active_some [OF pick [unfolded Some]] m assms(3) show ?thesis by auto
    qed
  qed
qed

text \<open>Successive calls of \<open>Get\<close>.\<close>

fun pool_gets :: "nat \<Rightarrow> string \<Rightarrow> ('t, 'h) W \<Rightarrow> (('t, 'h) W \<times> nat option list) go" where
  "pool_gets 0 addr w = Some (w, [])"
| "pool_gets (Suc n) addr w = do {
     (w, c) \<leftarrow> pool_Get addr w;
     (w, cs) \<leftarrow> pool_gets n addr w;
     Some (w, c # cs)
   }"

lemma pool_gets_rotate:
  assumes "map_of (w_ProxyPool w) addr = Some p" "p_active p = xs @ ys" "\<not> p_closed p"
    "p_maxActive p \<le> int (length (p_active p))" "\<forall>c \<in> set (p_active p). c_opened (w_conns w c)"
  shows "\<exists>w'. pool_gets (length xs) addr w = Some (w', map Some xs) \<and> w_conns w' = w_conns w \<and>
    map_of (w_ProxyPool w') addr = Some (p\<lparr>p_active := ys @ xs\<rparr>)"
  using assms
proof (induction xs arbitrary: w p ys)
  case (Cons x xs)
  define w1 where "w1 = upd_pool addr (\<lambda>p. p\<lparr>p_active := (xs @ ys) @ [x]\<rparr>) w"
  have get: "pool_Get addr w = Some (w1, Some x)"
    using Cons.prems by (simp add: pool_Get_def Let_def w1_def)
  have m: "map_of (w_ProxyPool w1) addr = Some (p\<lparr>p_active := (xs @ ys) @ [x]\<rparr>)"
    using Cons.prems(1) by (simp add: w1_def map_of_upd_pool)
  have "\<exists>w'. pool_gets (length xs) addr w1 = Some (w', map Some xs) \<and> w_conns w' = w_conns w1 \<and>
      map_of (w_ProxyPool w') addr = Some ((p\<lparr>p_active := (xs @ ys) @ [x]\<rparr>)\<lparr>p_active := (ys @ [x]) @ xs\<rparr>)"
    by (rule Cons.IH [OF m]) (use Cons.prems in \<open>auto simp: w1_def\<close>)
  then show ?case using get by (auto simp: w1_def)
qed (auto intro!: exI [of _ w])

section \<open>Stated properties\<close>

definition example_pool_world :: "nat list \<Rightarrow> ((int \<times> nat) list, (string \<times> ClusterNode) list) world" where
  "example_pool_world active =
     (example_world [])\<lparr>w_conns := (\<lambda>a. example_conn ConnServer (5 + int a)),
        w_ProxyPool := [(''r'', (newPool ''r'' False example_config)\<lparr>p_maxActive := 2, p_active := active\<rparr>)]\<rparr>"

text \<open>
  C31: whatever connection the pool of a redis server hands out is open, comes last in the round of the
  pool's connections, and the pool never holds more connections than configured (or one, when the
  configuration allows none); nothing else of the pool changes.
\<close>

theorem pool_hands_out_open_connections:
  assumes "pool_Get addr w = Some (w', Some c)" "map_of (w_ProxyPool w) addr = Some p"
    "int (length (p_active p)) \<le> max 1 (p_maxActive p)"
  shows "c_opened (w_conns w' c) \<and> (\<exists>p'. map_of (w_ProxyPool w') addr = Some p' \<and> p_active p' \<noteq> [] \<and> last (p_active p') = c \<and>
    p' = p\<lparr>p_active := p_active p'\<rparr> \<and> int (length (p_active p')) \<le> max 1 (p_maxActive p))"
  using pool_Get_open assms by blast

theorem pool_hands_out_open_connections_witness:
  "\<exists>w'. pool_Get ''r'' (example_pool_world [3, 4]) = Some (w', Some 3) \<and> c_opened (w_conns w' 3) \<and>
    (\<exists>p'. map_of (w_ProxyPool w') ''r'' = Some p' \<and> last (p_active p') = 3 \<and> int (length (p_active p')) \<le> 2)"
proof -
  let ?w = "upd_pool ''r'' (\<lambda>p. p\<lparr>p_active := [4, 3]\<rparr>) (example_pool_world [3, 4])"
  let ?p = "(newPool ''r'' False example_config)\<lparr>p_maxActive := 2, p_active := [3, 4]\<rparr>"
  have get: "pool_Get ''r'' (example_pool_world [3, 4]) = Some (?w, Some 3)"
    by (simp add: pool_Get_def Let_def example_pool_world_def newPool_def example_conn_def)
  have "map_of (w_ProxyPool (example_pool_world [3, 4])) ''r'' = Some ?p" "int (length (p_active ?p)) \<le> max 1 (p_maxActive ?p)"
    by (simp_all add: example_pool_world_def)
  from pool_hands_out_open_connections [OF get this] get show ?thesis by (auto simp: newPool_def)
qed

text \<open>
  C32: a full pool serves its open connections in turn: as many successive calls of \<open>Get\<close> as it has
  connections return each of them once, oldest first, and leave the pool as it was.
\<close>

theorem pool_serves_in_turn:
  assumes "map_of (w_ProxyPool w) addr = Some p" "\<not> p_closed p" "p_maxActive p \<le> int (length (p_active p))"
    "\<forall>c \<in> set (p_active p). c_opened (w_conns w c)"
  shows "\<exists>w'. pool_gets (length (p_active p)) addr w = Some (w', map Some (p_active p)) \<and>
    w_conns w' = w_conns w \<and> map_of (w_ProxyPool w') addr = Some p"
  using pool_gets_rotate [of w addr p "p_active p" "[]"] assms by simp

theorem pool_serves_in_turn_witness:
  "\<exists>w'. pool_gets 2 ''r'' (example_pool_world [3, 4]) = Some (w', [Some 3, Some 4])"
  using pool_serves_in_turn [of "example_pool_world [3, 4]" "''r''"]
  by (auto simp: example_pool_world_def newPool_def example_conn_def numeral_2_eq_2 simp del: pool_gets.simps)

end
