(* ===== verification/Listen_Server.thy ===== *)
theory Listen_Server
  imports Redis_Pool
begin

text \<open>
  The handling of client requests: \<open>cread\<close> of \<^verbatim>\<open>src/core/connection.go\<close> with the state side of
  \<open>Decode\<close> of \<^verbatim>\<open>src/core/codec_c.go\<close>, and the handlers of \<^verbatim>\<open>src/core/server\<close>: the reaction to a
  request with the routing of its fragments, redirections, booting, and the request for the cluster
  state.

  The bytes of a request are decoded by \<open>C_Decode\<close> of the theory \<open>Client_Codec\<close>. Decoding takes a
  message from the pool as soon as the command has been read; when the rest of the request is
  incomplete that message is dropped, which here leaves the pool as it is (a \<open>sync.Pool\<close> may lose
  messages at any time). The lower-casing of the command in the receive buffer is repeated by the next
  attempt, so that the model leaves the buffer alone until the request is complete.
\<close>

section \<open>Reading a request\<close>

text \<open>The fragments of a new message, one \<open>FragPool.Get\<close> for each slot.\<close>

fun alloc_frags :: "nat \<Rightarrow> (int \<times> ReqFrag) list \<Rightarrow> ('t, 'h) W \<Rightarrow> ('t, 'h) W \<times> (int \<times> nat) list" where
  "alloc_frags m [] w = (w, [])"
| "alloc_frags m ((slot, rf) # body) w =
     (let (w, f) = FragPool_Get (w_now w) w;
          w = upd_frag f (\<lambda>x. x\<lparr>f_Key := rf_Key rf, f_Peer := Some m, f_Req := rf_Req rf\<rparr>) w;
          (w, fs) = alloc_frags m body w
      in (w, (slot, f) # fs))"

definition line_read :: "bytes \<Rightarrow> bool" where
  "line_read bs \<longleftrightarrow> bs \<noteq> [] \<and> (case ReadLine (NewBuffer bs) of Some (_, Inr _) \<Rightarrow> True | _ \<Rightarrow> False)"

definition conn_cread :: "nat \<Rightarrow> ('t, 'h) W \<Rightarrow> (('t, 'h) W \<times> (err + nat option)) go" where
  "conn_cread c w = do {
     bs \<leftarrow> peek_all c w;
     (buf, res) \<leftarrow> C_Decode (g_MsgMaxLength (w_cfg w)) bs;
     let w = (if line_read bs then w\<lparr>w_msgId := (w_msgId w + 1) mod 2 ^ 64\<rparr> else w);
     (case res of
        Inl e \<Rightarrow> Some (w, Inl e)
      | Inr None \<Rightarrow> Some (w, Inr None)
      | Inr (Some q) \<Rightarrow> do {
          let (w, m) = MsgPool_Get w;
          let (w, body) = alloc_frags m (q_Body q) w;
          let w = upd_msg m (\<lambda>x. x\<lparr>m_Id := w_msgId w, m_Owner := Some c, m_Type := q_Type q, m_Body := body,
            m_Fd2Slot := Some [], m_Keys := m_Keys x @ q_Keys q, m_Frags := q_Frags q, m_Frags2 := q_Frags2 q\<rparr>) w;
          w \<leftarrow> discard_in c (ReadSize buf) w;
          Some (w, Inr (Some m))
        })
   }"

section \<open>Options and booting\<close>

definition WithRedisPassword :: "string \<Rightarrow> config \<Rightarrow> config" where
  "WithRedisPassword passwd opts = opts\<lparr>g_Password := passwd\<rparr>"

definition WithServerRetryTimeout :: "int \<Rightarrow> config \<Rightarrow> config" where
  "WithServerRetryTimeout timeout opts = opts\<lparr>g_ServerRetryTimeout := timeout\<rparr>"

definition WithDisableRedisSlave :: "bool \<Rightarrow> config \<Rightarrow> config" where
  "WithDisableRedisSlave disable opts = opts\<lparr>g_DisableSlave := disable\<rparr>"

fun loadOptions :: "(config \<Rightarrow> config) list \<Rightarrow> config \<Rightarrow> config" where
  "loadOptions [] opts = opts"
| "loadOptions (option # options) opts = loadOptions options (option opts)"

definition OnBoot :: "('t, 'h) W \<Rightarrow> ('t, 'h) W \<times> Action" where
  "OnBoot w =
     (let passwd = g_Password (w_cfg w) in
      (if length passwd > 0
       then w\<lparr>w_authCmd := ''*2'' @ CRLF @ ''$4'' @ CRLF @ ''auth'' @ CRLF @ ''$'' @ itoa (int (length passwd)) @ CRLF @ passwd @ CRLF\<rparr>
       else w, NoAction))"

section \<open>Routing\<close>

text \<open>\<open>rand.Intn(n)\<close>: it panics for \<open>n = 0\<close>.\<close>

definition rand_Intn :: "nat \<Rightarrow> ('t, 'h) W \<Rightarrow> (('t, 'h) W \<times> nat) go" where
  "rand_Intn n w =
     (if n = 0 then None
      else case w_rand w of [] \<Rightarrow> Some (w, 0) | r # rs \<Rightarrow> Some (w\<lparr>w_rand := rs\<rparr>, r mod n))"

text \<open>The loop over the slaves of a slot; \<open>liveSlaves\<close> collects the usable ones.\<close>

fun pick_slave :: "ClusterNode list \<Rightarrow> string list \<Rightarrow> ('t, 'h) W \<Rightarrow> (('t, 'h) W \<times> string option) go" where
  "pick_slave [] liveSlaves w = Some (w, None)"
| "pick_slave (v # vs) liveSlaves w =
     (case map_of (w_ProxyPool w) (n_Addr v) of
        None \<Rightarrow> pick_slave vs liveSlaves w
      | Some pool \<Rightarrow>
          if p_AutoBanFlag pool \<and> p_LiftBanTime pool < w_now w then pick_slave vs liveSlaves w
          else
            (let w = upd_pool (n_Addr v) (\<lambda>p. p\<lparr>p_AutoBanFlag := False\<rparr>) w;
                 liveSlaves = liveSlaves @ [n_Addr v]
             in if length liveSlaves = 0 then pick_slave vs liveSlaves w
                else do {
                  (w, i) \<leftarrow> rand_Intn (length liveSlaves) w;
                  a \<leftarrow> idx liveSlaves (int i);
                  Some (w, Some a)
                }))"

definition slot_node :: "int \<Rightarrow> ('t, 'h) W \<Rightarrow> replicaset go" where
  "slot_node slot w = do { rs \<leftarrow> slots_Get (w_Slots2Node w) slot; rs }"

definition route :: "nat \<Rightarrow> int \<Rightarrow> ('t, 'h) W \<Rightarrow> (('t, 'h) W \<times> string \<times> bool) go" where
  "route r slot w =
     (let ty = m_Type (w_msgs w r) in
      if g_DisableSlave (w_cfg w) \<or> ty > ReqWriteCmdStart \<or> ty = ReqHscan \<or> ty = ReqSscan \<or> ty = ReqZscan
      then do { rs \<leftarrow> slot_node slot w; Some (w, n_Addr (rs_Master rs), False) }
      else do {
        rs \<leftarrow> slot_node slot w;
        (w, a) \<leftarrow> pick_slave (rs_Slaves rs) [] w;
        (case a of
           Some a \<Rightarrow> Some (w, a, True)
         | None \<Rightarrow> do { rs \<leftarrow> slot_node slot w; Some (w, n_Addr (rs_Master rs), False) })
      })"

text \<open>The pool whose node could not be reached is banned, longer each time.\<close>

definition ban :: "int \<Rightarrow> int \<Rightarrow> Pool \<Rightarrow> Pool" where
  "ban now retry p =
     p\<lparr>p_LiftBanTime := now + wrap64 (wrap64 (retry * push_bit (nat (p_LiftBanOrder p)) 1) * Millisecond),
       p_LiftBanOrder := (if p_LiftBanOrder p \<ge> 5 then 5 else p_LiftBanOrder p + 1),
       p_AutoBanFlag := True\<rparr>"

definition getConn :: "nat \<Rightarrow> int \<Rightarrow> ('t, 'h) W \<Rightarrow> (('t, 'h) W \<times> (err + nat) \<times> bool \<times> string) go" where
  "getConn r slot w = do {
     (w, addr, isSlave) \<leftarrow> route r slot w;
     (if length addr < 1 then Some (w, Inl AddrNotFound, isSlave, [])
      else case map_of (w_ProxyPool w) addr of
        None \<Rightarrow> Some (w, Inl UnKnownProxyPool, isSlave, addr)
      | Some _ \<Rightarrow> do {
          (w, c) \<leftarrow> pool_Get addr w;
          (case c of
             None \<Rightarrow> Some (upd_pool addr (ban (w_now w) (g_ServerRetryTimeout (w_cfg w))) w, Inl UnKnownProxyPoolConn, isSlave, addr)
           | Some c \<Rightarrow> Some (upd_pool addr (\<lambda>p. p\<lparr>p_LiftBanOrder := 0\<rparr>) w, Inr c, False, addr))
        })
   }"

section \<open>Reacting to a request\<close>

definition conn_error :: "err \<Rightarrow> bytes" where
  "conn_error e =
     (case e of
        AddrNotFound \<Rightarrow> ErrAddrNotFoundError
      | UnKnownProxyPool \<Rightarrow> ErrUnKnownProxyPoolError
      | UnKnownProxyPoolConn \<Rightarrow> ErrUnKnownProxyPoolConnError
      | _ \<Rightarrow> ErrUnKnown_reply)"

definition auth_reply :: "string \<Rightarrow> string \<Rightarrow> bytes" where
  "auth_reply passwd key =
     (if length passwd < 1 then ErrAuthNeedNtPassword
      else if passwd \<noteq> key then ErrAuthInvalidPassword
      else OK)"

text \<open>\<open>getConn\<close>, and once more when it failed for a slave.\<close>

definition getConn_retry :: "nat \<Rightarrow> int \<Rightarrow> ('t, 'h) W \<Rightarrow> (('t, 'h) W \<times> (err + nat)) go" where
  "getConn_retry r slot w = do {
     (w, res, retry, _) \<leftarrow> getConn r slot w;
     (case res of
        Inr s \<Rightarrow> Some (w, Inr s)
      | Inl e \<Rightarrow>
          if retry then do { (w, res, _, _) \<leftarrow> getConn r slot w; Some (w, res) }
          else Some (w, Inl e))
   }"

fun react_frags :: "nat \<Rightarrow> nat \<Rightarrow> (int \<times> nat) list \<Rightarrow> ('t, 'h) W \<Rightarrow> (('t, 'h) W \<times> bytes option) go" where
  "react_frags r c [] w = do { w \<leftarrow> EnqueueInMsg c r w; Some (w, None) }"
| "react_frags r c ((slot, frag) # body) w =
     (if m_Type (w_msgs w r) = ReqAuth
      then Some (w, Some (auth_reply (g_Password (w_cfg w)) (f_Key (w_frags w frag))))
      else do {
        ne \<leftarrow> slots_NotExist (w_Slots2Node w) slot;
        (if ne then Some (w, Some ErrUnKnownSlot)
         else do {
           (w, res) \<leftarrow> getConn_retry r slot w;
           (case res of
              Inl e \<Rightarrow> Some (w, Some (conn_error e))
            | Inr s \<Rightarrow> do {
                let w = upd_frag frag (\<lambda>f. f\<lparr>f_Owner := Some c\<rparr>) w;
                w \<leftarrow> EnqueueOutFrag s frag w;
                react_frags r c body w
              })
         })
      })"

definition OnCReact :: "nat option \<Rightarrow> nat \<Rightarrow> ('t, 'h) W \<Rightarrow> (('t, 'h) W \<times> bytes option \<times> Action) go" where
  "OnCReact r c w = do {
     r \<leftarrow> r;
     let ty = m_Type (w_msgs w r);
     (if ty \<le> UNKNOWN \<or> ty \<ge> Sentinel then Some (w, Some ErrUnKnownCommand, NoAction)
      else if ty = ReqTooLarge then Some (w, Some ErrMsgReqTooLarge, NoAction)
      else if ty = ReqWrongArgumentsNumber then Some (w, Some ErrMsgReqWrongArgumentsNumber, NoAction)
      else if ty = ReqPing then Some (w, Some PONG, NoAction)
      else if ty = ReqQuit then Some (w, Some OK, Close)
      else do {
        (w, out) \<leftarrow> react_frags r c (m_Body (w_msgs w r)) w;
        Some (w, out, NoAction)
      })
   }"

section \<open>Redirections\<close>

text \<open>
  \<open>OnMoved\<close>: a write to the nil map \<open>Fd2Slot\<close> of a message that was put back to the pool panics.
\<close>

definition OnMoved :: "string \<Rightarrow> int \<Rightarrow> nat \<Rightarrow> nat \<Rightarrow> ('t, 'h) W \<Rightarrow> ('t, 'h) W go" where
  "OnMoved addr slot s f w = do {
     let w = upd_frag f (\<lambda>x. x\<lparr>f_RspBody := []\<rparr>) w;
     (case map_of (w_ProxyPool w) addr of
        None \<Rightarrow> Some w
      | Some _ \<Rightarrow> do {
          (w, sConn) \<leftarrow> pool_Get addr w;
          (case sConn of
             None \<Rightarrow> Some w
           | Some sConn \<Rightarrow> do {
               m \<leftarrow> f_Peer (w_frags w f);
               fd2slot \<leftarrow> m_Fd2Slot (w_msgs w m);
               let fd2slot = AList.update (c_fd (w_conns w sConn)) slot (AList.delete (c_fd (w_conns w s)) fd2slot);
               let w = upd_msg m (\<lambda>x. x\<lparr>m_Fd2Slot := Some fd2slot\<rparr>) w;
               EnqueueOutFrag sConn f w
             })
        })
   }"

section \<open>Asking for the cluster state\<close>

definition OnTicker :: "('t, 'h) W \<Rightarrow> ('t, 'h) W go" where
  "OnTicker w = do {
     let nAddr = length (w_ProxyAddrs w);
     (if nAddr < 1 then Some w
      else do {
        (w, i) \<leftarrow> rand_Intn nAddr w;
        addr \<leftarrow> idx (w_ProxyAddrs w) (int i);
        (case map_of (w_ProxyPool w) addr of
           None \<Rightarrow> Some w
         | Some _ \<Rightarrow> do {
             (w, sConn) \<leftarrow> pool_Get addr w;
             Some (case sConn of None \<Rightarrow> w | Some s \<Rightarrow> conn_WriteClusterNodes s w)
           })
      })
   }"

end
