(* ===== verification/Event_Loop.thy ===== *)
theory Event_Loop
  imports Listen_Server
begin

text \<open>
  The event loop: \<^verbatim>\<open>src/core/eventloop.go\<close>, the event dispatch of
  \<^verbatim>\<open>src/core/reactor_default_linux.go\<close> and one round of \<open>Polling\<close> of
  \<^verbatim>\<open>src/core/internal/netpoll/epoll_default_poller.go\<close>.

  The answers of the kernel to \<open>epoll_wait\<close>, \<open>read\<close> and \<open>accept\<close> are arguments. The loops of \<open>cread\<close>,
  \<open>sread\<close> and \<open>msgTimeout\<close> are partial functions: a loop that never ends has no result.
\<close>

section \<open>Reading from a client\<close>

text \<open>The bytes that are left in the read buffer move to the ring buffer of the connection.\<close>

definition store_rest :: "nat \<Rightarrow> ('t, 'h) W \<Rightarrow> (('t, 'h) W \<times> loop_err option) go" where
  "store_rest c w = do {
     (rb, _) \<leftarrow> er_Write (w_mem w) (ring_empty (w_mem w)) (c_inboundBuffer (w_conns w c)) (c_buffer (w_conns w c));
     Some (upd_conn c (\<lambda>x. x\<lparr>c_inboundBuffer := rb\<rparr>) w, None)
   }"

text \<open>An immediate answer: the message goes back to the pool before the answer is written.\<close>

definition answer_now :: "nat option \<Rightarrow> nat \<Rightarrow> bytes option \<Rightarrow> ('t, 'h) W \<Rightarrow> (('t, 'h) W \<times> loop_err option) go" where
  "answer_now r c out w =
     (case out of
        None \<Rightarrow> Some (w, None)
      | Some out \<Rightarrow> do {
          let w = MsgPool_Put r w;
          (w, _, err) \<leftarrow> conn_write c out w;
          Some (w, err)
        })"

partial_function (option) loop_cread :: "nat \<Rightarrow> ('t, 'h) W \<Rightarrow> (('t, 'h) W \<times> loop_err option) option" where
  "loop_cread c w = do {
     (w, r) \<leftarrow> conn_cread c w;
     (case r of
        Inl e \<Rightarrow> if e = ErrInvalidResp then closeConn c w else store_rest c w
      | Inr r \<Rightarrow> do {
          (w, out, action) \<leftarrow> OnCReact r c w;
          (w, err) \<leftarrow> answer_now r c out w;
          (if err \<noteq> None then Some (w, err)
           else case action of
             Close \<Rightarrow> closeConn c w
           | Shutdown \<Rightarrow> Some (w, Some EngineShutdown)
           | NoAction \<Rightarrow> if \<not> c_opened (w_conns w c) then Some (w, None) else loop_cread c w)
        })
   }"

section \<open>Reading from redis\<close>

partial_function (option) release_msgs :: "nat \<Rightarrow> ('t, 'h) W \<Rightarrow> ('t, 'h) W option" where
  "release_msgs c w = do {
     (w, msg) \<leftarrow> dequeueInMsg c w;
     (case msg of
        None \<Rightarrow> Some w
      | Some m \<Rightarrow> release_msgs c (MsgPool_Put (Some m) w))
   }"

text \<open>
  The part of \<open>sread\<close> that answers the client \<open>c\<close>, once all its messages are done. The result tells
  whether the end of the loop body was reached. After a failed write the log line of the source reads
  the nil pointer \<open>cur\<close>: a panic.
\<close>

definition deliver :: "nat \<Rightarrow> ('t, 'h) W \<Rightarrow> (('t, 'h) W \<times> bool) go" where
  "deliver c w =
     (if \<not> c_opened (w_conns w c) then Some (w, False)
      else do {
        q \<leftarrow> c_inMsgQueue (w_conns w c);
        (if q = [] then do { (w, _) \<leftarrow> closeConn c w; Some (w, False) }
         else if \<not> list_all (\<lambda>m. m_Done (w_msgs w m)) q then Some (w, False)
         else do {
           (w, bs, err) \<leftarrow> write_batches c (map (\<lambda>m. m_RspBody (w_msgs w m)) q) w;
           (if err \<noteq> None then None
            else do {
              (w, _, err) \<leftarrow> conn_writev c bs w;
              (if err \<noteq> None then None
               else if \<not> c_opened (w_conns w c) then Some (w, False)
               else do { w \<leftarrow> release_msgs c w; Some (w, True) })
            })
         })
      })"

text \<open>The channel for cluster information holds three messages; a message that does not fit is dropped.\<close>

definition offer_cluster :: "bytes \<Rightarrow> ('t, 'h) W \<Rightarrow> ('t, 'h) W" where
  "offer_cluster rsp w = (if length (w_clusterChan w) < 3 then w\<lparr>w_clusterChan := w_clusterChan w @ [rsp]\<rparr> else w)"

partial_function (option) loop_sread :: "nat \<Rightarrow> ('t, 'h) W \<Rightarrow> (('t, 'h) W \<times> loop_err option) option" where
  "loop_sread s w = do {
     (w, r, err) \<leftarrow> conn_sread s w;
     (case err of
        Some e \<Rightarrow>
          if e = ErrUnKnown \<or> e = ErrInvalidResp \<or> e = ErrInvalidInitializing then loop_sread s w
          else if e = MovedOrAsk then do {
            f \<leftarrow> r;
            (addr, slot) \<leftarrow> parseMovedOrAsk (w_frags w f);
            w \<leftarrow> OnMoved addr slot s f w;
            loop_sread s w
          }
          else if e = Continue then loop_sread s w
          else store_rest s w
      | None \<Rightarrow> do {
          f \<leftarrow> r;
          let ty = f_Type (w_frags w f);
          (if ty = RspNeedNtAuth \<or> ty = RspNeedAuth \<or> ty = RspAuthFailed then Some (w, Some EngineShutdown)
           else case f_Owner (w_frags w f) of
             None \<Rightarrow> loop_sread s (offer_cluster (f_RspBody (w_frags w f)) w)
           | Some c \<Rightarrow> do {
               (w, finished) \<leftarrow> deliver c w;
               (if finished \<and> \<not> c_opened (w_conns w s) then Some (w, None) else loop_sread s w)
             })
        })
   }"

section \<open>Events of a connection\<close>

datatype read_answer = ReadData bytes | ReadFails errno

definition loop_read :: "read_answer \<Rightarrow> nat \<Rightarrow> ('t, 'h) W \<Rightarrow> (('t, 'h) W \<times> loop_err option) go" where
  "loop_read answer c w =
     (case answer of
        ReadFails e \<Rightarrow> if e = EAGAIN then Some (w, None) else closeConn c w
      | ReadData bs \<Rightarrow>
          if bs = [] then closeConn c w
          else
            (let w = upd_conn c (\<lambda>x. x\<lparr>c_buffer := bs\<rparr>) w in
             case c_connType (w_conns w c) of
               ConnClient \<Rightarrow> loop_cread c w
             | ConnServer \<Rightarrow> loop_sread c w
             | ConnNone \<Rightarrow> closeConn c w))"

definition EPOLLIN :: "32 word" where "EPOLLIN = 0x1"
definition EPOLLPRI :: "32 word" where "EPOLLPRI = 0x2"
definition EPOLLOUT :: "32 word" where "EPOLLOUT = 0x4"
definition EPOLLERR :: "32 word" where "EPOLLERR = 0x8"
definition EPOLLHUP :: "32 word" where "EPOLLHUP = 0x10"
definition EPOLLRDHUP :: "32 word" where "EPOLLRDHUP = 0x2000"

definition ErrEvents :: "32 word" where "ErrEvents = or EPOLLERR (or EPOLLHUP EPOLLRDHUP)"
definition OutEvents :: "32 word" where "OutEvents = or ErrEvents EPOLLOUT"
definition InEvents :: "32 word" where "InEvents = or ErrEvents (or EPOLLIN EPOLLPRI)"

text \<open>An event of \<open>epoll_wait\<close>, with the answers to the system calls its handler makes.\<close>

record event =
  ev_fd :: int
  ev_Events :: "32 word"
  ev_read :: read_answer
  ev_accept :: "errno + (int \<times> string)"
  ev_nonblock :: "errno option"

definition loop_callback :: "string \<Rightarrow> event \<Rightarrow> ('t, 'h) W \<Rightarrow> (('t, 'h) W \<times> loop_err option) go" where
  "loop_callback lnAddr ev w =
     (case w_connections w (ev_fd ev) of
        Some c \<Rightarrow> do {
          (w, err) \<leftarrow>
            (if and (ev_Events ev) OutEvents \<noteq> 0 \<and> \<not> eb_IsEmpty (c_outboundBuffer (w_conns w c)) then loop_write c w
             else Some (w, None));
          (if err \<noteq> None then Some (w, err)
           else if and (ev_Events ev) InEvents \<noteq> 0 then loop_read (ev_read ev) c w
           else Some (w, None))
        }
      | None \<Rightarrow> accept (ev_accept ev) (ev_nonblock ev) lnAddr w)"

text \<open>\<open>handleEvents\<close> of a connection, which the optimised poller calls instead.\<close>

definition handleEvents :: "event \<Rightarrow> nat \<Rightarrow> ('t, 'h) W \<Rightarrow> (('t, 'h) W \<times> loop_err option) go" where
  "handleEvents ev c w = do {
     (w, err) \<leftarrow>
       (if and (ev_Events ev) OutEvents \<noteq> 0 \<and> \<not> eb_IsEmpty (c_outboundBuffer (w_conns w c)) then loop_write c w
        else Some (w, None));
     (if err \<noteq> None then Some (w, err)
      else if and (ev_Events ev) InEvents \<noteq> 0 then loop_read (ev_read ev) c w
      else Some (w, None))
   }"

section \<open>The ticker\<close>

text \<open>\<open>delete(ProxyPool, k)\<close> after \<open>Close\<close>, for the nodes that left the cluster.\<close>

fun drop_pools :: "(string \<times> Pool) list \<Rightarrow> ('t, 'h) W \<Rightarrow> ('t, 'h) W go" where
  "drop_pools [] w = Some w"
| "drop_pools ((k, _) # ps) w =
     (if hm_Get (w_hashmap w) (cn_ServerMap (w_ClusterNodes w)) k = None then do {
        w \<leftarrow> pool_Close k w;
        drop_pools ps (w\<lparr>w_ProxyPool := AList.delete k (w_ProxyPool w)\<rparr>)
      }
      else drop_pools ps w)"

fun add_pools :: "(string \<times> ClusterNode) list \<Rightarrow> ('t, 'h) W \<Rightarrow> ('t, 'h) W go" where
  "add_pools [] w = Some w"
| "add_pools ((k, v) # ns) w = do {
     let isSlave = (n_Role v = Slave);
     w \<leftarrow> (case map_of (w_ProxyPool w) k of
        Some _ \<Rightarrow> pool_SetIsSlave k isSlave w
      | None \<Rightarrow> Some (w\<lparr>w_ProxyPool := w_ProxyPool w @ [(k, newPool k isSlave (w_cfg w))]\<rparr>));
     add_pools ns w
   }"

definition reload_servers :: "('t, 'h) W \<Rightarrow> ('t, 'h) W go" where
  "reload_servers w = do {
     w \<leftarrow> drop_pools (w_ProxyPool w) w;
     w \<leftarrow> add_pools (hm_Iter (w_hashmap w) (cn_ServerMap (w_ClusterNodes w))) w;
     slots \<leftarrow> load_slots (slots_Reset (w_Slots2Node w)) (cn_Replicasets (w_ClusterNodes w));
     Some (w\<lparr>w_Slots2Node := slots, w_ProxyAddrs := map fst (w_ProxyPool w),
             w_ClusterNodes := (w_ClusterNodes w)\<lparr>cn_serverChanged := False\<rparr>\<rparr>)
   }"

definition Second :: int where "Second = 1000000000"

definition ticker :: "('t, 'h) W \<Rightarrow> ('t, 'h) W go" where
  "ticker w =
     (if w_now w < w_nextTicker w then Some w
      else do {
        let w = w\<lparr>w_nextTicker := w_now w + Second\<rparr>;
        w \<leftarrow> (if cn_serverChanged (w_ClusterNodes w) then reload_servers w else Some w);
        OnTicker w
      })"

section \<open>Timeouts\<close>

text \<open>The fragments of a message that timed out; \<open>msg.Done\<close> stays as it is.\<close>

fun expire_frags :: "(int \<times> nat) list \<Rightarrow> ('t, 'h) W \<Rightarrow> ('t, 'h) W" where
  "expire_frags [] w = w"
| "expire_frags ((_, f) # body) w =
     expire_frags body
       (if f_Done (w_frags w f) then w
        else upd_frag f (\<lambda>x. x\<lparr>f_Error := ErrMsgRequestTimeout, f_Done := True\<rparr>) w)"

partial_function (option) msgTimeout :: "('t, 'h) W \<Rightarrow> ('t, 'h) W option" where
  "msgTimeout w =
     (case getFromTimeoutQueue w of
        None \<Rightarrow> Some w
      | Some f \<Rightarrow>
          if f_Done (w_frags w f) then msgTimeout (deleteFromTimeoutQueue f w)
          else if w_now w < f_Timeout (w_frags w f) then Some w
          else do {
            let w = deleteFromTimeoutQueue f w;
            m \<leftarrow> f_Peer (w_frags w f);
            let w = expire_frags (m_Body (w_msgs w m)) w;
            let w = upd_msg m (\<lambda>x. x\<lparr>m_Error := ErrMsgRequestTimeout\<rparr>) w;
            (case f_Owner (w_frags w f) of
               None \<Rightarrow> msgTimeout w
             | Some c \<Rightarrow>
                 if \<not> c_opened (w_conns w c) then msgTimeout w
                 else msgTimeout (conn_AsyncWrite c ErrMsgRequestTimeout w))
          })"

section \<open>One round of polling\<close>

definition MaxAsyncTasksAtOneTime :: nat where "MaxAsyncTasksAtOneTime = 256"

fun run_tasks :: "nat \<Rightarrow> ('t, 'h) W \<Rightarrow> (('t, 'h) W \<times> loop_err option) go" where
  "run_tasks 0 w = Some (w, None)"
| "run_tasks (Suc n) w =
     (case w_tasks w of
        [] \<Rightarrow> Some (w, None)
      | t # ts \<Rightarrow> do {
          (w, err) \<leftarrow> run_task t (w\<lparr>w_tasks := ts\<rparr>);
          (if err = Some EngineShutdown then Some (w, err) else run_tasks n w)
        })"

text \<open>An element of the event list: a wake-up by the event descriptor, or an event of a socket.\<close>

datatype wait_event = Wakeup | Event event

fun handle_events :: "string \<Rightarrow> wait_event list \<Rightarrow> bool \<Rightarrow> ('t, 'h) W \<Rightarrow> (('t, 'h) W \<times> bool \<times> loop_err option) go" where
  "handle_events lnAddr [] doChores w = Some (w, doChores, None)"
| "handle_events lnAddr (Wakeup # evs) doChores w = handle_events lnAddr evs True w"
| "handle_events lnAddr (Event ev # evs) doChores w = do {
     (w, err) \<leftarrow> loop_callback lnAddr ev w;
     (if err = Some EngineShutdown then Some (w, doChores, err) else handle_events lnAddr evs doChores w)
   }"

datatype wait_answer = WaitTimeout | WaitInterrupted | WaitFails errno | WaitEvents "wait_event list"

text \<open>
  One round: \<open>stop\<close> tells whether the task that stops the engine is in the urgent queue. The result is
  \<open>Some e\<close> when the loop ends with the error \<open>e\<close>.
\<close>

definition polling_round :: "string \<Rightarrow> bool \<Rightarrow> wait_answer \<Rightarrow> ('t, 'h) W \<Rightarrow> (('t, 'h) W \<times> loop_err option) go" where
  "polling_round lnAddr stop answer w = do {
     w \<leftarrow> ticker w;
     (case answer of
        WaitTimeout \<Rightarrow> Some (w, None)
      | WaitInterrupted \<Rightarrow> Some (w, None)
      | WaitFails e \<Rightarrow> Some (w, Some (SyscallError e))
      | WaitEvents evs \<Rightarrow> do {
          (w, doChores, err) \<leftarrow> handle_events lnAddr evs False w;
          (if err \<noteq> None then Some (w, err)
           else if doChores \<and> stop then Some (w, Some EngineShutdown)
           else do {
             (w, err) \<leftarrow> (if doChores then run_tasks MaxAsyncTasksAtOneTime w else Some (w, None));
             (if err \<noteq> None then Some (w, err)
              else do { w \<leftarrow> msgTimeout w; Some (w, None) })
           })
        })
   }"

text \<open>\<open>closeAllSockets\<close>: \<open>fds\<close> are the keys of \<open>el.connections\<close> in the order of the range.\<close>

fun closeAllSockets :: "int list \<Rightarrow> ('t, 'h) W \<Rightarrow> ('t, 'h) W go" where
  "closeAllSockets [] w = Some w"
| "closeAllSockets (fd # fds) w =
     (case w_connections w fd of
        None \<Rightarrow> closeAllSockets fds w
      | Some c \<Rightarrow> do { (w, _) \<leftarrow> closeConn c w; closeAllSockets fds w })"

end
