(* ===== verification/Proxy_Invariant.thy ===== *)
theory Proxy_Invariant
  imports Event_Loop
begin

text \<open>
  The invariant of the state of the proxy, and that the operations of the event loop keep it.

  \<open>wf_proxy\<close> says that every open connection is registered with the kernel, the poller and the event loop
  under its descriptor, has well-formed buffers and all its queues; that the event loop knows open
  connections only; and that the fragments of a message know their message. The operations on one connection keep \<open>wf_proxy\<close> because
  they touch only that connection (\<open>wf_step\<close>); \<open>grows\<close> is the frame of the operations that may open
  connections to redis.
\<close>

section \<open>The invariant\<close>

definition bodies_ok :: "('t, 'h) W \<Rightarrow> bool" where
  "bodies_ok w \<longleftrightarrow> (\<forall>m slot f. (slot, f) \<in> set (m_Body (w_msgs w m)) \<longrightarrow> f_Peer (w_frags w f) \<noteq> None \<and> f \<le> w_fragId w)"

definition wf_proxy :: "('t, 'h) W \<Rightarrow> bool" where
  "wf_proxy w \<longleftrightarrow>
     (\<forall>a. c_opened (w_conns w a) \<longrightarrow> live w a \<and> a < w_nconn w) \<and>
     (\<forall>fd a. w_connections w fd = Some a \<longrightarrow> c_opened (w_conns w a) \<and> c_fd (w_conns w a) = fd) \<and>
     frags_ok w \<and> bodies_ok w \<and> 0 < g_WriteBufferCap (w_cfg w)"

text \<open>The kernel hands out unused descriptors.\<close>

definition dials_ok :: "('t, 'h) W \<Rightarrow> bool" where
  "dials_ok w \<longleftrightarrow> distinct (map fst (map the (filter (\<lambda>d. d \<noteq> None) (w_dials w)))) \<and>
     (\<forall>fd addr. Some (fd, addr) \<in> set (w_dials w) \<longrightarrow> w_sockets w fd = None)"

lemma only_bodies:
  assumes "only a w w'" "bodies_ok w"
  shows "bodies_ok w'"
proof -
  have "f_Peer (w_frags w' f) = f_Peer (w_frags w f)" for f
  proof -
    from assms(1) obtain t where "w_frags w' f = (w_frags w f)\<lparr>f_Timeout := t\<rparr>" unfolding only_def by blast
    then show ?thesis by simp
  qed
  with assms show ?thesis by (simp add: bodies_ok_def only_def)
qed

lemma wf_step:
  assumes "wf_proxy w" "live w a" "only a w w'" "live w' a \<or> closed_conn w' a"
  shows "wf_proxy w'"
proof -
  have conns: "w_conns w' b = w_conns w b" if "b \<noteq> a" for b using assms(3) that by (simp add: only_def)
  have fd: "c_fd (w_conns w' a) = c_fd (w_conns w a)" "w_nconn w' = w_nconn w" using assms(3) by (simp_all add: only_def)
  have sock: "w_sockets w (c_fd (w_conns w a)) \<in> {None, Some a}" using assms(2) by (simp add: live_def Let_def)
  have op: "live w' b \<and> b < w_nconn w'" if "c_opened (w_conns w' b)" for b
  proof (cases "b = a")
    case True
    with that assms(4) have "live w' b" by (auto simp: closed_conn_def Let_def)
    moreover have "a < w_nconn w" using assms(1,2) by (auto simp: wf_proxy_def live_def Let_def)
    ultimately show ?thesis using True fd by simp
  next
    case False
    then have "live w b \<and> b < w_nconn w" using that conns assms(1) by (simp add: wf_proxy_def)
    with only_live [OF assms(3) _ False sock] fd show ?thesis by simp
  qed
  have cn: "c_opened (w_conns w' b) \<and> c_fd (w_conns w' b) = k" if "w_connections w' k = Some b" for k b
  proof (cases "k = c_fd (w_conns w a)")
    case True
    then show ?thesis using that assms(4) fd by (auto simp: live_def closed_conn_def Let_def)
  next
    case False
    then have "w_connections w k = Some b" using that assms(3) by (simp add: only_def)
    then have "c_opened (w_conns w b)" "c_fd (w_conns w b) = k" using assms(1) by (auto simp: wf_proxy_def)
    with False conns show ?thesis by (cases "b = a") auto
  qed
  have "frags_ok w'" "bodies_ok w'" using only_frags_ok only_bodies assms(1,3) unfolding wf_proxy_def by blast+
  moreover have "w_cfg w' = w_cfg w" using assms(3) by (simp add: only_def)
  ultimately show ?thesis using op cn assms(1) unfolding wf_proxy_def by auto
qed

lemma dials_step:
  assumes "dials_ok w" "live w a" "only a w w'" "live w' a \<or> closed_conn w' a"
  shows "dials_ok w'"
proof -
  have other: "w_sockets w' fd = w_sockets w fd" if "fd \<noteq> c_fd (w_conns w a)" for fd using assms(3) that by (simp add: only_def)
  have d: "w_dials w' = w_dials w" "c_fd (w_conns w' a) = c_fd (w_conns w a)" using assms(3) by (simp_all add: only_def)
  have "w_sockets w' fd = None" if "Some (fd, addr) \<in> set (w_dials w)" for fd addr
  proof -
    have "w_sockets w fd = None" using assms(1) that by (auto simp: dials_ok_def)
    moreover from this have "fd \<noteq> c_fd (w_conns w a)" using assms(2) by (auto simp: live_def Let_def)
    ultimately show ?thesis using other by simp
  qed
  with d assms(1) show ?thesis by (simp add: dials_ok_def)
qed

lemmas wf_live = wf_proxy_def [THEN iffD1, THEN conjunct1, rule_format, THEN conjunct1]

lemma wfI:
  assumes "\<And>a. c_opened (w_conns w a) \<Longrightarrow> live w a \<and> a < w_nconn w"
    "\<And>fd a. w_connections w fd = Some a \<Longrightarrow> c_opened (w_conns w a) \<and> c_fd (w_conns w a) = fd"
    "frags_ok w" "bodies_ok w" "0 < g_WriteBufferCap (w_cfg w)"
  shows "wf_proxy w"
  using assms by (simp add: wf_proxy_def)

lemma wf_frags: "wf_proxy w \<Longrightarrow> frags_ok w"
  by (simp add: wf_proxy_def)

section \<open>Tasks\<close>

text \<open>The output buffers have room for what the task writes.\<close>

fun task_fits :: "task \<Rightarrow> ('t, 'h) W \<Rightarrow> bool" where
  "task_fits (WriteSignal a) w =
     out_room a (concat (map (\<lambda>f. f_Req (w_frags w f)) (case c_outFragQueue (w_conns w a) of Some q \<Rightarrow> q | None \<Rightarrow> []))) w"
| "task_fits (AsyncWrite a data) w = out_room a data w"
| "task_fits (AsyncWritev a bs) w = (out_room a (concat bs) w \<and> length bs \<le> iovMax)"
| "task_fits (WriteClusterNodes a) w = True"
| "task_fits (CloseTask a) w = True"

definition kept :: "('t, 'h) W \<Rightarrow> ('t, 'h) W \<Rightarrow> bool" where
  "kept w w' \<longleftrightarrow> wf_proxy w' \<and> (dials_ok w \<longrightarrow> dials_ok w')"

lemma kept_refl: "wf_proxy w \<Longrightarrow> kept w w"
  by (simp add: kept_def)

lemma kept_step: "wf_proxy w \<Longrightarrow> live w a \<Longrightarrow> only a w w' \<Longrightarrow> live w' a \<or> closed_conn w' a \<Longrightarrow> kept w w'"
  using wf_step dials_step unfolding kept_def by blast

lemma appended_live: "appended a d w w' \<Longrightarrow> live w' a"
  by (simp add: appended_def)

lemma lost_closed: "lost a d w w' \<Longrightarrow> closed_conn w' a"
  by (simp add: lost_def)

lemma kept_written:
  "wf_proxy w \<Longrightarrow> live w a \<Longrightarrow> only a w w' \<Longrightarrow> appended a d w w' \<or> lost a d w w' \<Longrightarrow> kept w w'"
  using kept_step appended_live lost_closed by blast

lemma closeConn_kept:
  assumes "wf_proxy w"
  shows "\<exists>w'. closeConn a w = Some (w', None) \<and> kept w w'"
proof (cases "c_opened (w_conns w a)")
  case True
  with closeConn_live [OF wf_live [OF assms True] wf_frags [OF assms]] kept_step [OF assms wf_live [OF assms True]]
  show ?thesis by blast
qed (simp add: closeConn_closed kept_refl [OF assms])

text \<open>Changes of the queues of a connection.\<close>

lemma kept_queues:
  assumes "wf_proxy w" "g = (\<lambda>c. c\<lparr>c_inMsgQueue := im c, c_inFragQueue := ifq c, c_outFragQueue := out c\<rparr>)"
    "c_opened (w_conns w a) \<Longrightarrow> im (w_conns w a) \<noteq> None \<and> ifq (w_conns w a) \<noteq> None \<and> out (w_conns w a) \<noteq> None"
  shows "kept w (upd_conn a g w)"
proof -
  have eq: "c_opened (w_conns (upd_conn a g w) b) = c_opened (w_conns w b)" "c_fd (w_conns (upd_conn a g w) b) = c_fd (w_conns w b)" for b
    using assms(2) by auto
  have "live (upd_conn a g w) b" if "c_opened (w_conns w b)" for b
    using wf_live [OF assms(1) that] assms(2,3) that by (auto simp: live_def Let_def)
  moreover have "w_nconn (upd_conn a g w) = w_nconn w" by (simp add: upd_conn_def)
  moreover have "frags_ok (upd_conn a g w) = frags_ok w" "bodies_ok (upd_conn a g w) = bodies_ok w" "dials_ok (upd_conn a g w) = dials_ok w"
    by (simp_all add: frags_ok_def bodies_ok_def dials_ok_def upd_conn_def)
  ultimately show ?thesis using assms(1) eq unfolding kept_def wf_proxy_def by simp
qed

lemma kept_trans: "kept w1 w2 \<Longrightarrow> kept w2 w3 \<Longrightarrow> kept w1 w3"
  by (simp add: kept_def)

lemma Trigger_simps [simp]:
  "w_conns (Trigger t w) = w_conns w" "w_frags (Trigger t w) = w_frags w" "w_msgs (Trigger t w) = w_msgs w"
  "w_cfg (Trigger t w) = w_cfg w" "w_Slots2Node (Trigger t w) = w_Slots2Node w" "w_ProxyPool (Trigger t w) = w_ProxyPool w"
  "w_nconn (Trigger t w) = w_nconn w" "w_wire (Trigger t w) = w_wire w" "w_dials (Trigger t w) = w_dials w"
  "w_fragId (Trigger t w) = w_fragId w" "w_now (Trigger t w) = w_now w" "w_rand (Trigger t w) = w_rand w"
  by (simp_all add: Trigger_def)

lemma kept_Trigger: "wf_proxy w \<Longrightarrow> kept w (Trigger t w)"
  by (simp add: kept_def wf_proxy_def live_def frags_ok_def bodies_ok_def dials_ok_def Trigger_def Let_def)

lemma EnqueueOutFrag_kept:
  assumes "wf_proxy w" "c_opened (w_conns w a)"
  shows "\<exists>q w'. c_outFragQueue (w_conns w a) = Some q \<and> EnqueueOutFrag a f w = Some w' \<and> kept w w' \<and>
    w' = Trigger (WriteSignal a) (upd_conn a (\<lambda>c. c\<lparr>c_outFragQueue := Some (q @ [f])\<rparr>) w)"
proof -
  from wf_live [OF assms] obtain q where q: "c_outFragQueue (w_conns w a) = Some q"
    "c_inMsgQueue (w_conns w a) \<noteq> None" "c_inFragQueue (w_conns w a) \<noteq> None"
    by (auto simp: live_def Let_def)
  have "kept w (upd_conn a (\<lambda>c. c\<lparr>c_outFragQueue := Some (q @ [f])\<rparr>) w)"
    by (rule kept_queues [OF assms(1), where im = c_inMsgQueue and ifq = c_inFragQueue and out = "\<lambda>_. Some (q @ [f])"])
      (use q in auto)
  with kept_Trigger kept_trans q(1) show ?thesis by (auto simp: EnqueueOutFrag_def sendWriteSignal_def kept_def)
qed

text \<open>A fragment that is not part of a message yet.\<close>

lemma kept_FragPool_Get:
  assumes "wf_proxy w" "FragPool_Get now w = (w1, f)" "f_Owner (g (w_frags w1 f)) = None"
  shows "kept w (upd_frag f g w1)"
proof -
  have w1: "w1 = w\<lparr>w_fragId := f, w_frags := (w_frags w)(f := new_Frag\<lparr>f_Id := f, f_Time := now\<rparr>)\<rparr>" "f = Suc (w_fragId w)"
    using assms(2) by (auto simp: FragPool_Get_def Let_def)
  have "frags_ok (upd_frag f g w1)" using assms(1,3) by (auto simp: wf_proxy_def frags_ok_def w1(1) upd_frag_def)
  moreover have "bodies_ok (upd_frag f g w1)" using assms(1) by (fastforce simp: wf_proxy_def bodies_ok_def w1 upd_frag_def)
  moreover have "live (upd_frag f g w1) = live w" by (simp add: fun_eq_iff live_def w1(1) upd_frag_def)
  moreover have "dials_ok (upd_frag f g w1) = dials_ok w" by (simp add: dials_ok_def w1(1) upd_frag_def)
  ultimately show ?thesis using assms(1) by (simp add: kept_def wf_proxy_def w1(1) upd_frag_def)
qed

lemma writeClusterNodes_kept:
  assumes "wf_proxy w"
  shows "\<exists>w'. writeClusterNodes a w = Some w' \<and> kept w w'"
proof (cases "c_opened (w_conns w a)")
  case True
  obtain w1 f where get: "FragPool_Get (w_now w) w = (w1, f)" by fastforce
  let ?w = "upd_frag f (\<lambda>x. x\<lparr>f_Req := f_Req x @ ReqClusterNodes\<rparr>) w1"
  have w1: "w_conns w1 = w_conns w" "f_Owner (w_frags w1 f) = None"
    using get by (auto simp: FragPool_Get_def Let_def new_Frag_def)
  have k: "kept w ?w" by (rule kept_FragPool_Get [OF assms get]) (simp add: w1)
  then have "wf_proxy ?w" by (simp add: kept_def)
  from EnqueueOutFrag_kept [OF this, of a f] True w1 k kept_trans get show ?thesis
    by (auto simp: writeClusterNodes_def Let_def)
qed (simp add: writeClusterNodes_def kept_refl [OF assms])

lemma handleWriteSignal_kept:
  assumes "wf_proxy w" "task_fits (WriteSignal a) w"
  shows "\<exists>w'. handleWriteSignal a w = Some (w', None) \<and> kept w w'"
proof (cases "c_opened (w_conns w a)")
  case True
  note live = wf_live [OF assms(1) True]
  then obtain q p where "c_outFragQueue (w_conns w a) = Some q" "c_inFragQueue (w_conns w a) = Some p"
    by (auto simp: live_def Let_def)
  from handleWriteSignal_ok [OF live wf_frags [OF assms(1)] this] assms(2) this
  obtain w' where "handleWriteSignal a w = Some (w', None)" "only a w w'" "live w' a \<or> closed_conn w' a"
    using lost_closed by fastforce
  with kept_step [OF assms(1) live] show ?thesis by blast
qed (simp add: handleWriteSignal_def kept_refl [OF assms(1)])

lemma asyncWrite_kept:
  assumes "wf_proxy w" "out_room a data w"
  shows "\<exists>w'. asyncWrite a data w = Some (w', None) \<and> kept w w'"
proof (cases "c_opened (w_conns w a)")
  case True
  note live = wf_live [OF assms(1) True]
  from asyncWrite_ok [OF live wf_frags [OF assms(1)] assms(2)] kept_written [OF assms(1) live] show ?thesis by blast
qed (simp add: asyncWrite_def kept_refl [OF assms(1)])

lemma asyncWritev_kept:
  assumes "wf_proxy w" "out_room a (concat bs) w" "length bs \<le> iovMax"
  shows "\<exists>w'. asyncWritev a bs w = Some (w', None) \<and> kept w w'"
proof (cases "c_opened (w_conns w a)")
  case True
  note live = wf_live [OF assms(1) True]
  from conn_writev_ok [OF live wf_frags [OF assms(1)] assms(2,3)] obtain w' n
    where "conn_writev a bs w = Some (w', n, None)" "only a w w'" "appended a (concat bs) w w' \<or> lost a (concat bs) w w'" by blast
  with kept_written [OF assms(1) live] True show ?thesis by (simp add: asyncWritev_def)
qed (simp add: asyncWritev_def kept_refl [OF assms(1)])

lemma run_task_kept:
  assumes "wf_proxy w" "task_fits t w"
  shows "\<exists>w'. run_task t w = Some (w', None) \<and> kept w w'"
proof (cases t)
  case (WriteClusterNodes a)
  with writeClusterNodes_kept [OF assms(1), of a] show ?thesis by auto
qed (use assms handleWriteSignal_kept asyncWrite_kept asyncWritev_kept closeConn_kept in auto)

lemma loop_write_kept:
  assumes "wf_proxy w" "c_opened (w_conns w a)" "\<not> eb_IsEmpty (c_outboundBuffer (w_conns w a))"
  shows "\<exists>w'. loop_write a w = Some (w', None) \<and> kept w w'"
proof -
  note live = wf_live [OF assms(1,2)]
  then have "eb_abs (c_outboundBuffer (w_conns w a)) \<noteq> []" using assms(3) by (auto simp: live_def Let_def eb_IsEmpty_abs)
  from loop_write_ok [OF live wf_frags [OF assms(1)] this] kept_written [OF assms(1) live] show ?thesis by blast
qed

section \<open>Opening connections to redis\<close>

text \<open>What the operations that may open connections leave alone.\<close>

definition grows :: "('t, 'h) W \<Rightarrow> ('t, 'h) W \<Rightarrow> bool" where
  "grows w w' \<longleftrightarrow> w_nconn w \<le> w_nconn w' \<and> (\<forall>b < w_nconn w. w_conns w' b = w_conns w b) \<and>
     w_msgs w' = w_msgs w \<and> w_frags w' = w_frags w \<and> w_Slots2Node w' = w_Slots2Node w \<and> w_cfg w' = w_cfg w \<and>
     w_fragId w' = w_fragId w \<and> w_nmsg w' = w_nmsg w \<and> w_msgPool w' = w_msgPool w \<and> w_now w' = w_now w \<and>
     w_authCmd w' = w_authCmd w"

lemma grows_refl: "grows w w"
  by (simp add: grows_def)

lemma grows_trans: "grows w1 w2 \<Longrightarrow> grows w2 w3 \<Longrightarrow> grows w1 w3"
  by (simp add: grows_def)

lemma set_out_id: "set_out a (c_outboundBuffer (w_conns w a)) w = w"
  by (simp add: upd_conn_def)

lemma conn_open_form:
  assumes "live w a" "out_room a buf w" "buf \<noteq> []"
  shows "\<exists>out d io e. conn_open a buf w = Some (set_out a out (sent_to a d io w), e) \<and> eb_inv out"
proof -
  have sock: "w_sockets w (c_fd (w_conns w a)) = Some a" and inv: "eb_inv (c_outboundBuffer (w_conns w a))"
    using assms(1) by (simp_all add: live_def Let_def)
  from sock assms(3) show ?thesis
  proof (cases rule: sys_write_cases)
    case (sent n io)
    show ?thesis
    proof (cases "n < length buf")
      case True
      have "out_room a (drop n buf) (sent_to a (take n buf) io w)" using assms(2) by simp
      with buf_Write_ok [of "sent_to a (take n buf) io w" a "drop n buf"] inv obtain out
        where "buf_Write a (drop n buf) (sent_to a (take n buf) io w) = Some (set_out a out (sent_to a (take n buf) io w))" "eb_inv out"
        by auto
      with sent True show ?thesis by (intro exI [of _ out] exI [of _ "take n buf"] exI [of _ io] exI [of _ None]) (simp add: conn_open_def slice_ends)
    next
      case False
      with sent inv show ?thesis
        by (intro exI [of _ "c_outboundBuffer (w_conns w a)"] exI [of _ "take n buf"] exI [of _ io] exI [of _ None])
          (simp add: conn_open_def set_out_id [of a "sent_to a d io w" for d io, simplified])
    qed
  next
    case (again io)
    have "out_room a buf (sent_to a [] io w)" using assms(2) by simp
    with buf_Write_ok [of "sent_to a [] io w" a buf] inv obtain out
      where "buf_Write a buf (sent_to a [] io w) = Some (set_out a out (sent_to a [] io w))" "eb_inv out" by auto
    with again show ?thesis by (intro exI [of _ out] exI [of _ "[]"] exI [of _ io] exI [of _ None]) (simp add: conn_open_def)
  next
    case (fails io e)
    with inv show ?thesis
      by (intro exI [of _ "c_outboundBuffer (w_conns w a)"] exI [of _ "[]"] exI [of _ io] exI [of _ "Some (SyscallError (Errno e))"])
        (simp add: conn_open_def set_out_id [of a "sent_to a d io w" for d io, simplified])
  qed
qed

lemma watch_rest_live:
  assumes "live w a"
  shows "\<exists>e. watch_rest a w = Some (w, e)"
proof -
  from assms obtain i where "w_poll w (c_fd (w_conns w a)) = Some i" "c_pollAttachment (w_conns w a) = Some (c_fd (w_conns w a))"
    by (auto simp: live_def Let_def)
  then show ?thesis by (simp add: watch_rest_def AddWrite_def poll_fd_def epoll_add_def)
qed

text \<open>Updates that concern neither the registrations nor the buffers and queues.\<close>

lemma kept_settings:
  assumes "wf_proxy w" "g = (\<lambda>c. c\<lparr>c_initStep := i, c_initStatus := st\<rparr>)"
  shows "kept w (upd_conn a g w)"
proof -
  have eq: "c_opened (w_conns (upd_conn a g w) b) = c_opened (w_conns w b)" "c_fd (w_conns (upd_conn a g w) b) = c_fd (w_conns w b)"
    "w_nconn (upd_conn a g w) = w_nconn w" for b
    using assms(2) by (simp_all add: upd_conn_def)
  have "live (upd_conn a g w) b = live w b" for b using assms(2) by (auto simp: live_def Let_def)
  moreover have "frags_ok (upd_conn a g w) = frags_ok w" "bodies_ok (upd_conn a g w) = bodies_ok w" "dials_ok (upd_conn a g w) = dials_ok w"
    by (simp_all add: frags_ok_def bodies_ok_def dials_ok_def upd_conn_def)
  ultimately show ?thesis using assms(1) eq unfolding kept_def wf_proxy_def by simp
qed

lemma kept_count: "wf_proxy w \<Longrightarrow> kept w (addCConn i w)" "wf_proxy w \<Longrightarrow> kept w (addSConn i w)"
  by (simp_all add: kept_def wf_proxy_def live_def frags_ok_def bodies_ok_def dials_ok_def addCConn_def addSConn_def Let_def)

lemma kept_sent_out:
  assumes "wf_proxy w" "live w a" "eb_inv out"
  shows "kept w (set_out a out (sent_to a d io w))" "live (set_out a out (sent_to a d io w)) a"
proof -
  show "live (set_out a out (sent_to a d io w)) a" using live_set_out [of "sent_to a d io w" a out] assms by simp
  then show "kept w (set_out a out (sent_to a d io w))"
    using kept_step [OF assms(1,2) only_trans [OF only_sent_to only_set_out]] by blast
qed

definition touches :: "nat \<Rightarrow> ('t, 'h) W \<Rightarrow> ('t, 'h) W \<Rightarrow> bool" where
  "touches a w w' \<longleftrightarrow> w_nconn w' = w_nconn w \<and> (\<forall>b. b \<noteq> a \<longrightarrow> w_conns w' b = w_conns w b) \<and>
     w_msgs w' = w_msgs w \<and> w_frags w' = w_frags w \<and> w_Slots2Node w' = w_Slots2Node w \<and> w_cfg w' = w_cfg w \<and>
     w_fragId w' = w_fragId w \<and> w_nmsg w' = w_nmsg w \<and> w_msgPool w' = w_msgPool w \<and> w_now w' = w_now w \<and>
     w_authCmd w' = w_authCmd w \<and> w_dials w' = w_dials w \<and> w_ProxyPool w' = w_ProxyPool w"

lemma touches_steps [simp]:
  "touches a w w" "touches a w (upd_conn a g w)" "touches a w (addSConn i w)" "touches a w (addCConn i w)" "touches a w (sent_to a d io w)"
  by (simp_all add: touches_def upd_conn_def addSConn_def addCConn_def sent_to_def)

lemma touches_trans [trans]: "touches a w1 w2 \<Longrightarrow> touches a w2 w3 \<Longrightarrow> touches a w1 w3"
  by (simp add: touches_def)

text \<open>The identity of a connection: what stays the same while it is open.\<close>

definition same_conn :: "conn \<Rightarrow> conn \<Rightarrow> bool" where
  "same_conn c c' \<longleftrightarrow> c_opened c' = c_opened c \<and> c_connType c' = c_connType c \<and> c_fd c' = c_fd c \<and>
     c_remoteAddr c' = c_remoteAddr c \<and> c_isSlave c' = c_isSlave c \<and> c_outFragQueue c' = c_outFragQueue c \<and>
     c_inFragQueue c' = c_inFragQueue c \<and> c_inMsgQueue c' = c_inMsgQueue c"

lemma greet_server:
  assumes "wf_proxy w" "live w a" "eb_abs (c_outboundBuffer (w_conns w a)) = []"
    "out = None \<or> (\<exists>d. out = Some d \<and> d \<noteq> [] \<and> int (length d) \<le> 2 ^ 62)"
  shows "\<exists>w' e. greet a out w = Some (w', e) \<and> kept w w' \<and> live w' a \<and> touches a w w' \<and> same_conn (w_conns w a) (w_conns w' a)"
proof (cases out)
  case None
  then show ?thesis using assms(1,2) by (simp add: greet_def kept_refl same_conn_def)
next
  case (Some d)
  then have "d \<noteq> []" "out_room a d w" using assms(3,4) by auto
  from conn_open_form [OF assms(2) this(2,1)] obtain o' d' io e where
    f: "conn_open a d w = Some (set_out a o' (sent_to a d' io w), e)" "eb_inv o'" by blast
  have "touches a w (set_out a o' (sent_to a d' io w))" by (rule touches_trans [of _ _ "sent_to a d' io w"]) simp_all
  moreover have "same_conn (w_conns w a) (w_conns (set_out a o' (sent_to a d' io w)) a)" by (simp add: same_conn_def)
  ultimately show ?thesis using f kept_sent_out [OF assms(1,2) f(2)] Some by (auto simp: greet_def)
qed

lemma loop_open_server_kept:
  assumes w0: "wf_proxy (upd_conn a (\<lambda>c. c\<lparr>c_opened := True\<rparr>) w)" and srv: "c_connType (w_conns w a) = ConnServer"
    and out: "eb_abs (c_outboundBuffer (w_conns w a)) = []" and auth: "int (length (w_authCmd w)) \<le> 2 ^ 61"
  shows "\<exists>w' e. loop_open a w = Some (w', e) \<and> kept (upd_conn a (\<lambda>c. c\<lparr>c_opened := True\<rparr>) w) w' \<and>
    touches a w w' \<and> same_conn ((w_conns w a)\<lparr>c_opened := True\<rparr>) (w_conns w' a)"
proof -
  let ?w0 = "upd_conn a (\<lambda>c. c\<lparr>c_opened := True\<rparr>) w"
  let ?w1 = "addSConn 1 ?w0"
  obtain w2 out1 act where o': "OnSOpened a ?w1 = (w2, out1, act)" by (cases "OnSOpened a ?w1")
  then obtain i st where w2: "w2 = upd_conn a (\<lambda>c. c\<lparr>c_initStep := i, c_initStatus := st\<rparr>) ?w1" "act = NoAction"
    by (auto simp: OnSOpened_def Let_def split: if_splits)
  have "w_authCmd ?w1 = w_authCmd w" by (simp add: addSConn_def upd_conn_def)
  with o' auth have out1: "out1 = None \<or> (\<exists>d. out1 = Some d \<and> d \<noteq> [] \<and> int (length d) \<le> 2 ^ 62)"
    by (auto simp: OnSOpened_def Let_def READONLY_def split: if_splits)
  have k2: "kept ?w0 w2" unfolding w2(1)
    by (rule kept_trans [OF kept_count(2) [OF w0] kept_settings]) (use kept_count(2) [OF w0] kept_def in blast)+
  have s2: "same_conn (w_conns ?w0 a) (w_conns w2 a)" "c_outboundBuffer (w_conns w2 a) = c_outboundBuffer (w_conns w a)"
    "touches a w w2" unfolding w2(1) by (simp_all add: same_conn_def touches_def upd_conn_def addSConn_def)
  have "live w2 a" using wf_live [of w2 a] k2 s2(1) by (simp add: kept_def same_conn_def)
  with greet_server [of w2 a out1] k2 out out1 s2(2) obtain w3 e3 where
    g: "greet a out1 w2 = Some (w3, e3)" "kept w2 w3" "live w3 a" "touches a w2 w3" "same_conn (w_conns w2 a) (w_conns w3 a)"
    unfolding kept_def by auto
  from watch_rest_live [OF g(3)] obtain e4 where r: "watch_rest a w3 = Some (w3, e4)" ..
  have "\<exists>e. loop_open a w = Some (w3, e)"
    using o' srv g(1) r w2(2) by (cases e3; cases e4) (simp_all add: loop_open_def handleAction_def)
  moreover have "same_conn ((w_conns w a)\<lparr>c_opened := True\<rparr>) (w_conns w3 a)" using s2(1) g(5) by (simp add: same_conn_def)
  ultimately show ?thesis using kept_trans [OF k2 g(2)] touches_trans [OF s2(3) g(4)] by blast
qed

abbreviation fresh_conn :: "int \<Rightarrow> string option \<Rightarrow> string option \<Rightarrow> ConnType \<Rightarrow> InitializeStatus \<Rightarrow> bool \<Rightarrow> ebuf \<Rightarrow> conn" where
  "fresh_conn fd l r ct st sl out \<equiv>
     \<lparr>c_localAddr = l, c_remoteAddr = r, c_outboundBuffer = out, c_pollAttachment = Some fd,
      c_inboundBuffer = None, c_buffer = [], c_fd = fd, c_inMsgQueue = Some [], c_inFragQueue = Some [],
      c_outFragQueue = Some [], c_opened = False, c_isSlave = sl, c_initStep = 0, c_initStatus = st, c_connType = ct\<rparr>"

lemma newTCPConn_form:
  assumes "0 < g_WriteBufferCap (w_cfg w)"
  shows "\<exists>out. eb_inv out \<and> eb_abs out = [] \<and> newTCPConn fd l r ct st sl w =
    Some (w\<lparr>w_conns := (w_conns w)(w_nconn w := fresh_conn fd l r ct st sl out), w_nconn := Suc (w_nconn w)\<rparr>, w_nconn w)"
  using eb_New_inv [OF assms] by (auto simp: newTCPConn_def Let_def)

text \<open>The state in which the new connection \<open>c\<close> has the descriptor \<open>fd\<close>.\<close>

definition born :: "int \<Rightarrow> conn \<Rightarrow> ('t, 'h) W \<Rightarrow> ('t, 'h) W" where
  "born fd c w = w\<lparr>w_conns := (w_conns w)(w_nconn w := c), w_nconn := Suc (w_nconn w),
     w_sockets := (w_sockets w)(fd := Some (w_nconn w)), w_wire := (w_wire w)(w_nconn w := [])\<rparr>"

lemma live_not_fd: "live w b \<Longrightarrow> w_sockets w fd = None \<Longrightarrow> c_fd (w_conns w b) \<noteq> fd"
  by (auto simp: live_def Let_def)

lemma wf_born:
  assumes "wf_proxy w" "w_sockets w fd = None" "eb_inv out" "ct \<noteq> ConnNone"
  shows "wf_proxy (upd_conn (w_nconn w) (\<lambda>c. c\<lparr>c_opened := True\<rparr>)
    ((born fd (fresh_conn fd l r ct st sl out) w)
       \<lparr>w_poll := (w_poll w)(fd := Some i), w_connections := (w_connections w)(fd := Some (w_nconn w))\<rparr>))" (is "wf_proxy ?w")
proof -
  have new: "live ?w (w_nconn w)" using assms(3,4) by (simp add: live_def Let_def born_def er_inv_def)
  have old: "live ?w b" if "c_opened (w_conns w b)" for b
  proof -
    have "live w b" "b < w_nconn w" using assms(1) that by (auto simp: wf_proxy_def)
    with live_not_fd [OF this(1) assms(2)] show ?thesis by (simp add: live_def Let_def born_def)
  qed
  have "live ?w b \<and> b < w_nconn ?w" if "c_opened (w_conns ?w b)" for b
  proof (cases "b = w_nconn w")
    case True
    with new show ?thesis by (simp add: born_def upd_conn_def)
  next
    case False
    with that have "c_opened (w_conns w b)" by (simp add: born_def)
    with old [OF this] assms(1) show ?thesis by (auto simp: wf_proxy_def born_def upd_conn_def)
  qed
  moreover have "c_opened (w_conns ?w b) \<and> c_fd (w_conns ?w b) = k" if "w_connections ?w k = Some b" for k b
  proof (cases "k = fd")
    case False
    then have "w_connections w k = Some b" using that by (simp add: born_def)
    then have "c_opened (w_conns w b)" "c_fd (w_conns w b) = k" "b < w_nconn w" using assms(1) by (auto simp: wf_proxy_def)
    then show ?thesis by (simp add: born_def)
  qed (use that in \<open>simp add: born_def\<close>)
  moreover have "frags_ok ?w" "bodies_ok ?w" "0 < g_WriteBufferCap (w_cfg ?w)"
    using assms(1) by (simp_all add: wf_proxy_def frags_ok_def bodies_ok_def born_def upd_conn_def)
  ultimately show ?thesis by (intro wfI)
qed

text \<open>A connection that could not be registered is released again.\<close>

lemma wf_stillborn:
  assumes "wf_proxy w" "w_sockets w fd = None" "\<not> c_opened c"
    "w' = upd_conn (w_nconn w) (\<lambda>_. c) ((born fd c0 w)\<lparr>w_sockets := w_sockets w, w_poll := (w_poll w)(fd := None)\<rparr>)"
  shows "wf_proxy w'"
proof -
  have old: "live w' b \<and> b < w_nconn w'" if "c_opened (w_conns w' b)" for b
  proof -
    have "c_opened (w_conns w b)" "b \<noteq> w_nconn w" using that assms(3,4) by (auto simp: born_def split: if_splits)
    then have "live w b" "b < w_nconn w" using assms(1) by (auto simp: wf_proxy_def)
    with live_not_fd [OF this(1) assms(2)] assms(4) show ?thesis by (simp add: live_def Let_def born_def upd_conn_def)
  qed
  moreover have "c_opened (w_conns w' b) \<and> c_fd (w_conns w' b) = k" if "w_connections w' k = Some b" for k b
  proof -
    have "w_connections w k = Some b" using that assms(4) by (simp add: born_def)
    then have "c_opened (w_conns w b)" "c_fd (w_conns w b) = k" "b < w_nconn w" using assms(1) by (auto simp: wf_proxy_def)
    with assms(4) show ?thesis by (simp add: born_def)
  qed
  moreover have "frags_ok w'" "bodies_ok w'" "0 < g_WriteBufferCap (w_cfg w')"
    using assms(1) by (simp_all add: assms(4) wf_proxy_def frags_ok_def bodies_ok_def born_def upd_conn_def)
  ultimately show ?thesis by (intro wfI)
qed

lemma dials_ok_rest:
  assumes "dials_ok w" "w_dials w = d # ds"
  shows "dials_ok (w\<lparr>w_dials := ds\<rparr>)"
  using assms by (cases d) (auto simp: dials_ok_def)

lemma dials_ok_taken:
  assumes "dials_ok w" "w_dials w = Some (fd, l) # ds" "w_dials w' = ds" "w_sockets w' = (w_sockets w)(fd := s)"
  shows "dials_ok w'"
proof -
  have "w_sockets w' k = None" if "Some (k, l') \<in> set ds" for k l'
  proof -
    have "k \<noteq> fd" using assms(1,2) that by (force simp: dials_ok_def image_iff)
    then show ?thesis using assms(1,2,4) that by (auto simp: dials_ok_def)
  qed
  with assms(1-3) show ?thesis by (auto simp: dials_ok_def)
qed

text \<open>The outcome of an attempt to get a connection.\<close>

definition got_conn :: "nat option \<Rightarrow> ('t, 'h) W \<Rightarrow> bool" where
  "got_conn r w' \<longleftrightarrow> (\<forall>a. r = Some a \<longrightarrow> c_opened (w_conns w' a))"

lemma Dial_fails:
  assumes w: "wf_proxy w" "dials_ok w" "w_dials w = Some (fd, l) # ds" and poll: "w_poll w fd \<noteq> None"
  shows "\<exists>w'. Dial addr isSlave w = Some (w', None) \<and> wf_proxy w' \<and> dials_ok w' \<and> grows w w' \<and> w_ProxyPool w' = w_ProxyPool w"
proof -
  let ?w = "w\<lparr>w_dials := ds\<rparr>"
  let ?st = "if length (g_RedisPasswd (w_cfg w)) > 0 then InitializeNone else Initialized"
  have free: "w_sockets w fd = None" using w(2,3) by (auto simp: dials_ok_def)
  obtain out where out: "eb_inv out" "newTCPConn fd (Some l) (Some addr) ConnServer ?st isSlave ?w =
      Some (?w\<lparr>w_conns := (w_conns w)(w_nconn w := fresh_conn fd (Some l) (Some addr) ConnServer ?st isSlave out), w_nconn := Suc (w_nconn w)\<rparr>, w_nconn w)"
    using newTCPConn_form [of ?w fd "Some l" "Some addr" ConnServer ?st isSlave] w(1) by (auto simp: wf_proxy_def)
  let ?w1 = "born fd (fresh_conn fd (Some l) (Some addr) ConnServer ?st isSlave out) ?w"
  let ?w2 = "fst (sys_close fd ?w1)"
  have ar: "AddRead (w_nconn w) ?w1 = Some (?w1, Some PollError)" using poll
    by (auto simp: AddRead_def poll_fd_def epoll_add_def born_def)
  obtain o' where rel: "eb_Release out = Some o'" using eb_Release_abs [OF out(1)] by blast
  obtain c where r: "releaseTCP (w_nconn w) ?w2 = Some (upd_conn (w_nconn w) (\<lambda>_. c) ?w2)" "\<not> c_opened c"
    using rel by (auto simp: releaseTCP_def sys_close_def born_def upd_conn_def)
  have w2: "?w2 = (born fd (fresh_conn fd (Some l) (Some addr) ConnServer ?st isSlave out) ?w)\<lparr>w_sockets := w_sockets ?w, w_poll := (w_poll ?w)(fd := None)\<rparr>"
    using free by (auto simp: sys_close_def born_def fun_eq_iff)
  have "wf_proxy ?w" using w(1) by (simp add: wf_proxy_def live_def frags_ok_def bodies_ok_def Let_def)
  then have "wf_proxy (upd_conn (w_nconn w) (\<lambda>_. c) ?w2)" using wf_stillborn [of ?w fd c _ _] free r(2) w2 by simp
  moreover have "dials_ok (upd_conn (w_nconn w) (\<lambda>_. c) ?w2)"
    using dials_ok_rest [OF w(2,3)] w2 by (simp add: dials_ok_def upd_conn_def born_def)
  moreover have "grows w (upd_conn (w_nconn w) (\<lambda>_. c) ?w2)" "w_ProxyPool (upd_conn (w_nconn w) (\<lambda>_. c) ?w2) = w_ProxyPool w"
    unfolding w2 by (simp_all add: grows_def born_def upd_conn_def)
  moreover have "new_socket fd (w_nconn w) (?w\<lparr>w_conns := (w_conns w)(w_nconn w := fresh_conn fd (Some l) (Some addr) ConnServer ?st isSlave out), w_nconn := Suc (w_nconn w)\<rparr>) = ?w1"
    by (simp add: new_socket_def born_def)
  ultimately show ?thesis using w(3) out(2) ar r(1) by (simp add: Dial_def)
qed

lemma Dial_connects:
  assumes w: "wf_proxy w" "dials_ok w" "w_dials w = Some (fd, l) # ds" and poll: "w_poll w fd = None"
    and auth: "int (length (w_authCmd w)) \<le> 2 ^ 61"
  shows "\<exists>w' (e :: loop_err option). Dial addr isSlave w = Some (w', if e \<noteq> None then None else Some (w_nconn w)) \<and> wf_proxy w' \<and> dials_ok w' \<and> grows w w' \<and>
    w_ProxyPool w' = w_ProxyPool w \<and> c_opened (w_conns w' (w_nconn w)) \<and> c_outFragQueue (w_conns w' (w_nconn w)) = Some [] \<and>
    c_remoteAddr (w_conns w' (w_nconn w)) = Some addr"
proof -
  let ?w = "w\<lparr>w_dials := ds\<rparr>" let ?a = "w_nconn w"
  let ?st = "if length (g_RedisPasswd (w_cfg w)) > 0 then InitializeNone else Initialized"
  have free: "w_sockets w fd = None" using w(2,3) by (auto simp: dials_ok_def)
  obtain out where out: "eb_inv out" "eb_abs out = []" "newTCPConn fd (Some l) (Some addr) ConnServer ?st isSlave ?w =
      Some (?w\<lparr>w_conns := (w_conns w)(?a := fresh_conn fd (Some l) (Some addr) ConnServer ?st isSlave out), w_nconn := Suc ?a\<rparr>, ?a)"
    using newTCPConn_form [of ?w fd "Some l" "Some addr" ConnServer ?st isSlave] w(1) by (auto simp: wf_proxy_def)
  let ?c = "fresh_conn fd (Some l) (Some addr) ConnServer ?st isSlave out"
  let ?w1 = "born fd ?c ?w"
  let ?w2 = "?w1\<lparr>w_poll := (w_poll w)(fd := Some ReadOnly)\<rparr>"
  let ?w3 = "?w2\<lparr>w_connections := (w_connections ?w2)(fd := Some ?a)\<rparr>"
  have ar: "AddRead ?a ?w1 = Some (?w2, None)" using poll
    by (auto simp: AddRead_def poll_fd_def epoll_add_def born_def)
  have "wf_proxy ?w" using w(1) by (simp add: wf_proxy_def live_def frags_ok_def bodies_ok_def Let_def)
  then have wf0: "wf_proxy (upd_conn ?a (\<lambda>c. c\<lparr>c_opened := True\<rparr>) ?w3)"
    using wf_born [where w = ?w and fd = fd and out = out and ct = ConnServer and l = "Some l" and r = "Some addr" and st = ?st
      and sl = isSlave and i = ReadOnly] free out(1) by (simp add: born_def)
  have dials: "dials_ok (upd_conn ?a (\<lambda>c. c\<lparr>c_opened := True\<rparr>) ?w3)"
    by (rule dials_ok_taken [OF w(2,3)]) (simp_all add: born_def upd_conn_def)
  have pre: "c_connType (w_conns ?w3 ?a) = ConnServer" "eb_abs (c_outboundBuffer (w_conns ?w3 ?a)) = []" "w_authCmd ?w3 = w_authCmd w"
    using out(2) by (simp_all add: born_def)
  obtain w4 e where lo: "loop_open ?a ?w3 = Some (w4, e)" "kept (upd_conn ?a (\<lambda>c. c\<lparr>c_opened := True\<rparr>) ?w3) w4"
      "touches ?a ?w3 w4" "same_conn ((w_conns ?w3 ?a)\<lparr>c_opened := True\<rparr>) (w_conns w4 ?a)"
    using loop_open_server_kept [OF wf0 pre(1,2)] pre(3) auth by auto
  have g: "grows w w4" using lo(3) by (simp add: touches_def grows_def born_def)
  have "wf_proxy w4" "dials_ok w4" using lo(2) dials by (simp_all add: kept_def)
  moreover have "w_ProxyPool w4 = w_ProxyPool w" using lo(3) by (simp add: touches_def born_def)
  moreover have "c_opened (w_conns w4 ?a)" "c_outFragQueue (w_conns w4 ?a) = Some []" "c_remoteAddr (w_conns w4 ?a) = Some addr"
    using lo(4) by (simp_all add: same_conn_def born_def)
  moreover have "new_socket fd ?a (?w\<lparr>w_conns := (w_conns w)(?a := ?c), w_nconn := Suc ?a\<rparr>) = ?w1"
    by (simp add: new_socket_def born_def)
  then have "Dial addr isSlave w = Some (w4, if e \<noteq> None then None else Some ?a)"
    using w(3) out(3) ar lo(1) by (simp add: Dial_def)
  ultimately show ?thesis using g by blast
qed

text \<open>Every attempt to connect returns, keeps the invariant, and leaves the existing connections alone.\<close>

lemma Dial_kept:
  assumes "wf_proxy w" "dials_ok w" "int (length (w_authCmd w)) \<le> 2 ^ 61"
  shows "\<exists>w' r. Dial addr isSlave w = Some (w', r) \<and> wf_proxy w' \<and> dials_ok w' \<and> grows w w' \<and> w_ProxyPool w' = w_ProxyPool w \<and> got_conn r w'"
proof -
  have same: "wf_proxy (w\<lparr>w_dials := ds\<rparr>)" "grows w (w\<lparr>w_dials := ds\<rparr>)" for ds
    using assms(1) by (simp_all add: wf_proxy_def live_def frags_ok_def bodies_ok_def Let_def grows_def)
  consider (none) "w_dials w = []" | (refused) ds where "w_dials w = None # ds" | (some) fd l ds where "w_dials w = Some (fd, l) # ds"
    by (cases "w_dials w"; cases "hd (w_dials w)") auto
  then show ?thesis
  proof cases
    case none
    then show ?thesis using assms by (simp add: Dial_def grows_refl got_conn_def)
  next
    case refused
    with same dials_ok_rest [OF assms(2) refused] show ?thesis by (simp add: Dial_def got_conn_def)
  next
    case (some fd l ds)
    show ?thesis
    proof (cases "w_poll w fd = None")
      case True
      from Dial_connects [OF assms(1,2) some True assms(3), of addr isSlave] obtain w' and e :: "loop_err option" where
        d: "Dial addr isSlave w = Some (w', if e \<noteq> None then None else Some (w_nconn w))" "wf_proxy w'" "dials_ok w'" "grows w w'"
        "w_ProxyPool w' = w_ProxyPool w" "c_opened (w_conns w' (w_nconn w))" by blast
      then show ?thesis by (cases e) (auto simp: got_conn_def)
    next
      case False
      from Dial_fails [OF assms(1,2) some False] obtain w' where
        "Dial addr isSlave w = Some (w', None)" "wf_proxy w'" "dials_ok w'" "grows w w'" "w_ProxyPool w' = w_ProxyPool w" by blast
      then show ?thesis by (auto simp: got_conn_def)
    qed
  qed
qed

section \<open>The slots of a request\<close>

definition slots_in :: "(int \<times> 'a) list \<Rightarrow> bool" where
  "slots_in m \<longleftrightarrow> list_all (\<lambda>x. in_table (fst x)) m"

lemma slots_in_simps [simp]: "slots_in []" "slots_in (x # m) \<longleftrightarrow> in_table (fst x) \<and> slots_in m"
  by (simp_all add: slots_in_def)

lemma Hash_in_table: "in_table (Hash k)"
  using Hash_range [of k] by (simp add: in_table_def RedisClusterSlots_int_def RedisClusterSlots_def)

lemma slots_in_update [simp]: "slots_in m \<Longrightarrow> in_table slot \<Longrightarrow> slots_in (AList.update slot x m)"
  by (induction m) auto

lemma slots_in_append: "slots_in m \<Longrightarrow> slots_in (slot_append (Hash k) x m)"
  by (simp add: slot_append_def slots_in_update Hash_in_table split: option.splits)

lemma and_then_SomeE:
  assumes "and_then x g = Some (buf, Inr y)"
  obtains b z where "x = Some (b, Inr z)" "g b z = Some (buf, Inr y)"
  using assms by (auto simp: and_then_def split: bind_splits sum.splits)

lemma Frag1_slots: "Frag1 n buf resp = Some (buf', Inr q) \<Longrightarrow> slots_in (q_Frags resp) \<Longrightarrow> slots_in (q_Frags q) \<and> q_Body q = q_Body resp"
proof (induction n buf resp rule: Frag1.induct)
  case (2 n buf resp)
  from 2(2) obtain b seg where "parseLine buf = Some (b, Inr seg)" and
    "Frag1 n b (resp\<lparr>q_Keys := q_Keys resp @ [seg], q_Frags := slot_append (Hash seg) seg (q_Frags resp)\<rparr>) = Some (buf', Inr q)"
    by (auto elim: and_then_SomeE)
  from 2(1) [OF this(2)] 2(3) show ?case by (simp add: slots_in_append)
qed simp

lemma Frag2_slots: "Frag2 n buf resp = Some (buf', Inr q) \<Longrightarrow> slots_in (q_Frags2 resp) \<Longrightarrow> slots_in (q_Frags2 q) \<and> q_Body q = q_Body resp"
proof (induction n buf resp rule: Frag2.induct)
  case (2 n buf resp)
  from 2(2) obtain b seg seg2 where
    "Frag2 n b (resp\<lparr>q_Keys := q_Keys resp @ [seg], q_Frags2 := slot_append (Hash seg) (seg, seg2) (q_Frags2 resp)\<rparr>) = Some (buf', Inr q)"
    by (auto elim!: and_then_SomeE)
  from 2(1) [OF this] 2(3) show ?case by (simp add: slots_in_append)
qed simp

lemma key_loop_slot: "key_loop at i n buf ks = Some (buf', Inr ks') \<Longrightarrow> in_table (snd ks) \<Longrightarrow> in_table (snd ks')"
proof (induction at i n buf ks rule: key_loop.induct)
  case (2 at i n buf ks)
  from 2(2) obtain b msg where "key_loop at (Suc i) n b (if i = at then (msg, Hash msg) else ks) = Some (buf', Inr ks')"
    by (auto elim!: and_then_SomeE)
  from 2(1) [OF this] 2(3) show ?case by (simp add: Hash_in_table split: if_splits)
qed simp

lemma C_MGet_loop_slots: "C_MGet_loop fs body = Some b \<Longrightarrow> slots_in fs \<Longrightarrow> slots_in body \<Longrightarrow> slots_in b"
  by (induction fs body rule: C_MGet_loop.induct) (auto simp: slots_in_update Let_def split: bind_splits)

lemma C_Del_loop_slots: "C_Del_loop fs body = Some b \<Longrightarrow> slots_in fs \<Longrightarrow> slots_in body \<Longrightarrow> slots_in b"
  by (induction fs body rule: C_Del_loop.induct) (auto simp: slots_in_update Let_def split: bind_splits)

lemma C_MSet_loop_slots: "C_MSet_loop fs body = Some b \<Longrightarrow> slots_in fs \<Longrightarrow> slots_in body \<Longrightarrow> slots_in b"
  by (induction fs body rule: C_MSet_loop.induct) (auto simp: slots_in_update Let_def split: bind_splits)

lemma in_table_0: "in_table 0"
  by (simp add: in_table_def RedisClusterSlots_int_def)

lemma C_Default_slots:
  assumes "C_Default n buf resp = Some (buf', Inr q)" "slots_in (q_Body resp)"
  shows "slots_in (q_Body q)"
proof -
  obtain b ks where k: "key_loop 0 0 (nat n) buf ([], 0) = Some (b, Inr ks)"
    using assms(1) unfolding C_Default_def Let_def by (rule and_then_SomeE)
  have "in_table (snd ks)" using key_loop_slot [OF k] in_table_0 by simp
  with assms k show ?thesis by (auto simp: C_Default_def Let_def split: prod.splits bind_splits)
qed

lemma C_Eval_slots:
  assumes "C_Eval n buf resp = Some (buf', Inr q)" "slots_in (q_Body resp)"
  shows "slots_in (q_Body q)"
proof -
  obtain b ks where k: "key_loop 2 0 (nat n) buf ([], 0) = Some (b, Inr ks)"
    using assms(1) unfolding C_Eval_def Let_def by (rule and_then_SomeE)
  have "in_table (snd ks)" using key_loop_slot [OF k] in_table_0 by simp
  with assms k show ?thesis by (auto simp: C_Eval_def Let_def split: prod.splits bind_splits)
qed

lemma C_switch_slots:
  assumes "C_switch n ty buf = Some (buf', Inr (Some q))"
  shows "slots_in (q_Body q)"
proof -
  let ?r = "\<lparr>q_Type = ty, q_Keys = [], q_Frags = [], q_Frags2 = [], q_Body = []\<rparr>"
  consider (mget) b r where "Frag1 (nat n) buf ?r = Some (b, Inr r)" "C_MGet r = Some q"
    | (del) b r where "Frag1 (nat n) buf ?r = Some (b, Inr r)" "C_Del r = Some q"
    | (mset) b r where "Frag2 (nat ((n + 1) div 2)) buf ?r = Some (b, Inr r)" "C_MSet r = Some q"
    | (eval) b where "C_Eval n buf ?r = Some (b, Inr q)"
    | (default) b where "C_Default n buf ?r = Some (b, Inr q)"
    using assms unfolding C_switch_def Let_def by (auto elim!: and_then_SomeE split: if_splits bind_splits)
  then show ?thesis
  proof cases
    case mget
    with Frag1_slots [OF mget(1)] show ?thesis by (auto simp: C_MGet_def split: bind_splits dest: C_MGet_loop_slots)
  next
    case del
    with Frag1_slots [OF del(1)] show ?thesis by (auto simp: C_Del_def split: bind_splits dest: C_Del_loop_slots)
  next
    case mset
    with Frag2_slots [OF mset(1)] show ?thesis by (auto simp: C_MSet_def split: bind_splits dest: C_MSet_loop_slots)
  qed (use C_Eval_slots C_Default_slots in fastforce)+
qed

text \<open>Every fragment of a decoded request is for a slot of the table.\<close>

lemma C_Decode_slots:
  assumes "C_Decode MsgMaxLength bs = Some (buf, Inr (Some q))"
  shows "slots_in (q_Body q)"
  using assms unfolding C_Decode_def Let_def
  by (auto elim!: and_then_SomeE dest: C_switch_slots split: if_splits bind_splits sum.splits prod.splits option.splits)

section \<open>Reacting to a request\<close>

definition ready :: "('t, 'h) W \<Rightarrow> bool" where
  "ready w \<longleftrightarrow> wf_proxy w \<and> dials_ok w \<and> int (length (w_authCmd w)) \<le> 2 ^ 61"

lemma ready_kept: "ready w \<Longrightarrow> kept w w' \<Longrightarrow> w_authCmd w' = w_authCmd w \<Longrightarrow> ready w'"
  by (simp add: ready_def kept_def)

lemma ready_upd_pool [simp]: "ready (upd_pool addr g w) = ready w"
  by (simp add: ready_def wf_proxy_def live_def frags_ok_def bodies_ok_def dials_ok_def upd_pool_def Let_def)

lemma grows_upd_pool: "grows w (upd_pool addr g w)"
  by (simp add: grows_def upd_pool_def)

lemma pools_upd_pool: "map fst (w_ProxyPool (upd_pool addr g w)) = map fst (w_ProxyPool w)"
  by (auto simp: upd_pool_def)

text \<open>Getting a connection: the same promise for each operation on the way.\<close>

definition supplied :: "('t, 'h) W \<Rightarrow> ('t, 'h) W \<Rightarrow> bool" where
  "supplied w w' \<longleftrightarrow> ready w' \<and> grows w w' \<and> map fst (w_ProxyPool w') = map fst (w_ProxyPool w)"

lemma supplied_refl: "ready w \<Longrightarrow> supplied w w"
  by (simp add: supplied_def grows_refl)

lemma supplied_trans: "supplied w1 w2 \<Longrightarrow> supplied w2 w3 \<Longrightarrow> supplied w1 w3"
  using grows_trans by (auto simp: supplied_def)

lemma supplied_upd_pool: "ready w \<Longrightarrow> supplied w (upd_pool addr g w)"
  by (simp add: supplied_def grows_upd_pool pools_upd_pool)

lemma Dial_supplied:
  assumes "ready w"
  shows "\<exists>w' r. Dial addr isSlave w = Some (w', r) \<and> supplied w w' \<and> got_conn r w'"
proof -
  from assms Dial_kept [of w addr isSlave] obtain w' r where
    "Dial addr isSlave w = Some (w', r)" "wf_proxy w'" "dials_ok w'" "grows w w'" "w_ProxyPool w' = w_ProxyPool w" "got_conn r w'"
    unfolding ready_def by blast
  with assms show ?thesis by (auto simp: supplied_def ready_def grows_def)
qed

lemma pool_dial_supplied:
  assumes "ready w"
  shows "\<exists>w' r. pool_dial addr p w = Some (w', r) \<and> supplied w w' \<and> got_conn r w'"
proof -
  from Dial_supplied [OF assms] obtain w1 r where d: "Dial (p_Addr p) (p_isSlave p) w = Some (w1, r)" "supplied w w1" "got_conn r w1" by blast
  have "ready w1" using d(2) by (simp add: supplied_def)
  then show ?thesis using d supplied_trans [OF d(2) supplied_upd_pool]
    by (cases r) (auto simp: pool_dial_def got_conn_def)
qed

lemma pool_Get_supplied:
  assumes "ready w" "addr \<in> set (map fst (w_ProxyPool w))"
  shows "\<exists>w' r. pool_Get addr w = Some (w', r) \<and> supplied w w' \<and> got_conn r w'"
proof -
  from assms(2) obtain p where p: "map_of (w_ProxyPool w) addr = Some p" by (metis map_of_eq_None_iff not_Some_eq set_map)
  obtain cs r where pick: "pick_active (\<lambda>c. c_opened (w_conns w c)) (p_active p) = (cs, r)" by fastforce
  let ?w = "upd_pool addr (\<lambda>p. p\<lparr>p_active := cs\<rparr>) w"
  consider "p_closed p" | "\<not> p_closed p" "int (length (p_active p)) < p_maxActive p"
    | (round) "\<not> p_closed p" "\<not> int (length (p_active p)) < p_maxActive p" by blast
  then show ?thesis
  proof cases
    case 1
    with p assms(1) show ?thesis by (simp add: pool_Get_def supplied_refl got_conn_def)
  next
    case 2
    with p pool_dial_supplied [OF assms(1)] show ?thesis by (simp add: pool_Get_def)
  next
    case round
    show ?thesis
    proof (cases r)
      case None
      from pool_dial_supplied [of ?w addr p] assms(1) obtain w' r' where
        "pool_dial addr p ?w = Some (w', r')" "supplied ?w w'" "got_conn r' w'" by auto
      with supplied_trans [OF supplied_upd_pool [OF assms(1)]] None round p pick show ?thesis by (auto simp: pool_Get_def Let_def)
    next
      case (Some c)
      with pick_active_some [OF pick [unfolded Some]] supplied_upd_pool [OF assms(1)] round p pick show ?thesis
        by (simp add: pool_Get_def Let_def got_conn_def)
    qed
  qed
qed

lemma rand_Intn_supplied:
  assumes "ready w" "0 < n"
  shows "\<exists>w' i. rand_Intn n w = Some (w', i) \<and> i < n \<and> supplied w w' \<and> w_ProxyPool w' = w_ProxyPool w"
proof (cases "w_rand w")
  case Nil
  with assms show ?thesis by (simp add: rand_Intn_def supplied_refl)
next
  case (Cons r rs)
  have "ready (w\<lparr>w_rand := rs\<rparr>) = ready w"
    by (simp add: ready_def wf_proxy_def live_def frags_ok_def bodies_ok_def dials_ok_def Let_def)
  with Cons assms show ?thesis by (simp add: rand_Intn_def supplied_def grows_def)
qed

lemma pick_slave_supplied:
  "ready w \<Longrightarrow> \<exists>w' a. pick_slave vs [] w = Some (w', a) \<and> supplied w w' \<and> (\<forall>x. a = Some x \<longrightarrow> x \<in> n_Addr ` set vs)"
proof (induction vs)
  case (Cons v vs)
  show ?case
  proof (cases "\<exists>p. map_of (w_ProxyPool w) (n_Addr v) = Some p \<and> \<not> (p_AutoBanFlag p \<and> p_LiftBanTime p < w_now w)")
    case True
    let ?w = "upd_pool (n_Addr v) (\<lambda>p. p\<lparr>p_AutoBanFlag := False\<rparr>) w"
    from rand_Intn_supplied [of ?w 1] Cons.prems obtain w' where "rand_Intn 1 ?w = Some (w', 0)" "supplied ?w w'" by auto
    with True supplied_trans [OF supplied_upd_pool [OF Cons.prems]] show ?thesis by (auto simp: idx_0)
  next
    case False
    then have "pick_slave (v # vs) [] w = pick_slave vs [] w" by (auto split: option.splits)
    with Cons.IH [OF Cons.prems] show ?thesis by (auto simp del: pick_slave.simps)
  qed
qed (simp add: supplied_refl)

lemma slot_node_ok: "in_table slot \<Longrightarrow> w_Slots2Node w slot = Some rs \<Longrightarrow> slot_node slot w = Some rs"
  by (simp add: slot_node_def slots_Get_def)

lemma route_supplied:
  assumes "ready w" "in_table slot" "w_Slots2Node w slot = Some rs"
  shows "\<exists>w' a sl. route r slot w = Some (w', a, sl) \<and> supplied w w' \<and>
    (a = n_Addr (rs_Master rs) \<and> \<not> sl \<or> a \<in> n_Addr ` set (rs_Slaves rs) \<and> sl)"
proof -
  note node = slot_node_ok [OF assms(2)]
  from pick_slave_supplied [OF assms(1), of "rs_Slaves rs"] obtain w' a where
    p: "pick_slave (rs_Slaves rs) [] w = Some (w', a)" "supplied w w'" "\<forall>x. a = Some x \<longrightarrow> x \<in> n_Addr ` set (rs_Slaves rs)" by blast
  have "w_Slots2Node w' slot = Some rs" using p(2) assms(3) by (simp add: supplied_def grows_def)
  with p node [OF assms(3)] node [of w' rs] supplied_refl [OF assms(1)] show ?thesis
    by (cases a) (auto simp: route_def Let_def)
qed

lemma getConn_supplied:
  assumes "ready w" "in_table slot" "w_Slots2Node w slot = Some rs"
  shows "\<exists>w' res rt a. getConn r slot w = Some (w', res, rt, a) \<and> supplied w w' \<and> (\<forall>s. res = Inr s \<longrightarrow> c_opened (w_conns w' s))"
proof -
  from route_supplied [OF assms] obtain w1 a sl where r: "route r slot w = Some (w1, a, sl)" "supplied w w1" by blast
  then have ready1: "ready w1" by (simp add: supplied_def)
  show ?thesis
  proof (cases "length a < 1 \<or> map_of (w_ProxyPool w1) a = None")
    case True
    with r show ?thesis by (auto simp: getConn_def)
  next
    case False
    then obtain p where p: "map_of (w_ProxyPool w1) a = Some p" by auto
    then have "a \<in> set (map fst (w_ProxyPool w1))" by (force dest: map_of_SomeD)
    from pool_Get_supplied [OF ready1 this] obtain w2 c where g: "pool_Get a w1 = Some (w2, c)" "supplied w1 w2" "got_conn c w2" by blast
    have ready2: "ready w2" using g(2) by (simp add: supplied_def)
    have "supplied w (upd_pool a f w2)" for f
      using supplied_trans [OF supplied_trans [OF r(2) g(2)] supplied_upd_pool [OF ready2]] .
    with False p r(1) g(1,3) show ?thesis by (cases c) (auto simp: getConn_def got_conn_def)
  qed
qed

lemma getConn_retry_supplied:
  assumes "ready w" "in_table slot" "w_Slots2Node w slot = Some rs"
  shows "\<exists>w' res. getConn_retry r slot w = Some (w', res) \<and> supplied w w' \<and> (\<forall>s. res = Inr s \<longrightarrow> c_opened (w_conns w' s))"
proof -
  from getConn_supplied [OF assms] obtain w1 res rt a where
    g: "getConn r slot w = Some (w1, res, rt, a)" "supplied w w1" "\<forall>s. res = Inr s \<longrightarrow> c_opened (w_conns w1 s)" by blast
  have w1: "ready w1" "w_Slots2Node w1 slot = Some rs" using g(2) assms(3) by (simp_all add: supplied_def grows_def)
  from getConn_supplied [OF w1(1) assms(2) w1(2)] obtain w2 res2 rt2 a2 where
    g2: "getConn r slot w1 = Some (w2, res2, rt2, a2)" "supplied w1 w2" "\<forall>s. res2 = Inr s \<longrightarrow> c_opened (w_conns w2 s)" by blast
  from g g2 supplied_trans [OF g(2) g2(2)] show ?thesis by (cases res; cases rt) (auto simp: getConn_retry_def)
qed

text \<open>What reacting to a request leaves alone: it fills queues and marks fragments.\<close>

definition same_io :: "conn \<Rightarrow> conn \<Rightarrow> bool" where
  "same_io c c' \<longleftrightarrow> c_opened c' = c_opened c \<and> c_inboundBuffer c' = c_inboundBuffer c \<and> c_buffer c' = c_buffer c \<and>
     c_outboundBuffer c' = c_outboundBuffer c"

definition reacts :: "('t, 'h) W \<Rightarrow> ('t, 'h) W \<Rightarrow> bool" where
  "reacts w w' \<longleftrightarrow> ready w' \<and> w_nconn w \<le> w_nconn w' \<and> (\<forall>b < w_nconn w. same_io (w_conns w b) (w_conns w' b)) \<and>
     w_cfg w' = w_cfg w \<and> w_msgs w' = w_msgs w \<and> (\<forall>f. f_Peer (w_frags w' f) = f_Peer (w_frags w f))"

lemma reacts_refl: "ready w \<Longrightarrow> reacts w w"
  by (simp add: reacts_def same_io_def)

lemma reacts_trans: "reacts w1 w2 \<Longrightarrow> reacts w2 w3 \<Longrightarrow> reacts w1 w3"
  by (simp add: reacts_def same_io_def)

lemma reacts_supplied: "supplied w w' \<Longrightarrow> reacts w w'"
  by (simp add: supplied_def grows_def reacts_def same_io_def)

lemma kept_owner:
  assumes "wf_proxy w" "f_Peer (w_frags w f) \<noteq> None"
  shows "kept w (upd_frag f (\<lambda>x. x\<lparr>f_Owner := Some c\<rparr>) w)"
proof -
  let ?w = "upd_frag f (\<lambda>x. x\<lparr>f_Owner := Some c\<rparr>) w"
  have "frags_ok ?w" "bodies_ok ?w" using assms by (auto simp: wf_proxy_def frags_ok_def bodies_ok_def upd_frag_def)
  moreover have "live ?w = live w" "dials_ok ?w = dials_ok w" by (simp_all add: fun_eq_iff live_def dials_ok_def upd_frag_def)
  ultimately show ?thesis using assms(1) by (simp add: kept_def wf_proxy_def upd_frag_def)
qed

lemma reacts_owner:
  assumes "ready w" "f_Peer (w_frags w f) \<noteq> None"
  shows "reacts w (upd_frag f (\<lambda>x. x\<lparr>f_Owner := Some c\<rparr>) w)"
proof -
  have "ready (upd_frag f (\<lambda>x. x\<lparr>f_Owner := Some c\<rparr>) w)"
    using kept_owner [of w f c] assms by (intro ready_kept [OF assms(1)]) (simp_all add: ready_def upd_frag_def)
  then show ?thesis by (simp add: reacts_def same_io_def upd_frag_def)
qed

lemma reacts_EnqueueOutFrag:
  assumes "ready w" "c_opened (w_conns w s)"
  shows "\<exists>w'. EnqueueOutFrag s f w = Some w' \<and> reacts w w'"
proof -
  from EnqueueOutFrag_kept [of w s f] assms obtain q w' where e: "EnqueueOutFrag s f w = Some w'" "kept w w'"
    "w' = Trigger (WriteSignal s) (upd_conn s (\<lambda>c. c\<lparr>c_outFragQueue := Some (q @ [f])\<rparr>) w)" by (auto simp: ready_def)
  have "ready w'" by (rule ready_kept [OF assms(1) e(2)]) (simp add: e(3) Trigger_def upd_conn_def)
  with e show ?thesis by (auto simp: reacts_def same_io_def upd_conn_def)
qed

lemma reacts_EnqueueInMsg:
  assumes "ready w" "c_opened (w_conns w c)"
  shows "\<exists>w'. EnqueueInMsg c m w = Some w' \<and> reacts w w'"
proof -
  have "live w c" using assms wf_live by (auto simp: ready_def)
  then obtain q where q: "c_inMsgQueue (w_conns w c) = Some q" "c_inFragQueue (w_conns w c) \<noteq> None" "c_outFragQueue (w_conns w c) \<noteq> None"
    by (auto simp: live_def Let_def)
  let ?w = "upd_conn c (\<lambda>x. x\<lparr>c_inMsgQueue := Some (q @ [m])\<rparr>) w"
  have "kept w ?w"
    by (rule kept_queues [where im = "\<lambda>_. Some (q @ [m])" and ifq = c_inFragQueue and out = c_outFragQueue])
      (use assms q in \<open>auto simp: ready_def\<close>)
  then have "ready ?w" by (rule ready_kept [OF assms(1)]) (simp add: upd_conn_def)
  with q show ?thesis by (simp add: EnqueueInMsg_def reacts_def same_io_def) (simp add: upd_conn_def)
qed

lemma reacts_opened:
  assumes "reacts w w'" "ready w" "c_opened (w_conns w c)"
  shows "same_io (w_conns w c) (w_conns w' c)"
proof -
  have "c < w_nconn w" using assms(2,3) by (auto simp: ready_def wf_proxy_def)
  with assms(1) show ?thesis by (simp add: reacts_def)
qed

lemmas reply_lengths = ErrUnKnown_reply_def ErrAddrNotFoundError_def ErrUnKnownCommand_def ErrUnKnownSlot_def ErrUnKnownProxyPoolError_def
  ErrUnKnownProxyPoolConnError_def ErrMsgReqTooLarge_def ErrMsgReqWrongArgumentsNumber_def ErrAuthInvalidPassword_def
  ErrAuthNeedNtPassword_def OK_def PONG_def

lemma react_frags_ok:
  "ready w \<Longrightarrow> slots_in body \<Longrightarrow> \<forall>f \<in> snd ` set body. f_Peer (w_frags w f) \<noteq> None \<Longrightarrow> c_opened (w_conns w c) \<Longrightarrow>
   \<exists>w' out. react_frags r c body w = Some (w', out) \<and> reacts w w' \<and> (\<forall>d. out = Some d \<longrightarrow> length d \<le> 64)"
proof (induction body arbitrary: w)
  case Nil
  with reacts_EnqueueInMsg [of w c r] show ?case by auto
next
  case (Cons x body)
  obtain slot f where x: "x = (slot, f)" by fastforce
  have slot: "in_table slot" "slots_in body" using Cons.prems(2) x by auto
  show ?case
  proof (cases "m_Type (w_msgs w r) = ReqAuth")
    case True
    with Cons.prems(1) x show ?thesis by (auto simp: reacts_refl auth_reply_def reply_lengths)
  next
    case auth: False
    show ?thesis
    proof (cases "w_Slots2Node w slot")
      case None
      with Cons.prems(1) x auth slot show ?thesis by (auto simp: slots_NotExist_def reacts_refl reply_lengths)
    next
      case (Some rs)
      from getConn_retry_supplied [OF Cons.prems(1) slot(1) Some, of r] obtain w1 res where
        g: "getConn_retry r slot w = Some (w1, res)" "supplied w w1" "\<forall>s. res = Inr s \<longrightarrow> c_opened (w_conns w1 s)" by blast
      note r1 = reacts_supplied [OF g(2)]
      have ready1: "ready w1" using g(2) by (simp add: supplied_def)
      have eq: "react_frags r c (x # body) w = (case res of
            Inl e \<Rightarrow> Some (w1, Some (conn_error e))
          | Inr s \<Rightarrow> do {
              w \<leftarrow> EnqueueOutFrag s f (upd_frag f (\<lambda>f. f\<lparr>f_Owner := Some c\<rparr>) w1);
              react_frags r c body w })"
        using x auth slot(1) Some g(1) by (simp add: slots_NotExist_def)
      show ?thesis
      proof (cases res)
        case (Inl e)
        with r1 show ?thesis unfolding eq by (auto simp: conn_error_def reply_lengths split: err.splits)
      next
        case (Inr s)
        let ?w2 = "upd_frag f (\<lambda>f. f\<lparr>f_Owner := Some c\<rparr>) w1"
        have "f_Peer (w_frags w1 f) \<noteq> None" using Cons.prems(3) x r1 by (simp add: reacts_def)
        then have r2: "reacts w1 ?w2" by (rule reacts_owner [OF ready1])
        then have "ready ?w2" "c_opened (w_conns ?w2 s)" using g(3) Inr by (simp_all add: reacts_def upd_frag_def)
        from reacts_EnqueueOutFrag [OF this] obtain w3 where e: "EnqueueOutFrag s f ?w2 = Some w3" "reacts ?w2 w3" by blast
        note r3 = reacts_trans [OF reacts_trans [OF r1 r2] e(2)]
        have pre: "ready w3" "\<forall>f \<in> snd ` set body. f_Peer (w_frags w3 f) \<noteq> None" "c_opened (w_conns w3 c)"
          using r3 Cons.prems(3) reacts_opened [OF r3 Cons.prems(1,4)] Cons.prems(4) by (auto simp: reacts_def same_io_def)
        from Cons.IH [OF pre(1) slot(2) pre(2,3)] obtain w4 out where
          "react_frags r c body w3 = Some (w4, out)" "reacts w3 w4" "\<forall>d. out = Some d \<longrightarrow> length d \<le> 64" by blast
        with reacts_trans [OF r3] Inr e(1) show ?thesis unfolding eq by auto
      qed
    qed
  qed
qed

lemma OnCReact_ok:
  assumes "ready w" "slots_in (m_Body (w_msgs w m))" "c_opened (w_conns w c)"
  shows "\<exists>w' out act. OnCReact (Some m) c w = Some (w', out, act) \<and> reacts w w' \<and> act \<noteq> Shutdown \<and> (\<forall>d. out = Some d \<longrightarrow> length d \<le> 64)"
proof -
  have "\<forall>f \<in> snd ` set (m_Body (w_msgs w m)). f_Peer (w_frags w f) \<noteq> None"
    using assms(1) by (fastforce simp: ready_def wf_proxy_def bodies_ok_def)
  from react_frags_ok [OF assms(1,2) this assms(3), of m] obtain w' out where
    r: "react_frags m c (m_Body (w_msgs w m)) w = Some (w', out)" "reacts w w'" "\<forall>d. out = Some d \<longrightarrow> length d \<le> 64" by blast
  let ?ty = "m_Type (w_msgs w m)"
  have eq: "OnCReact (Some m) c w =
      (if ?ty \<le> UNKNOWN \<or> ?ty \<ge> Sentinel then Some (w, Some ErrUnKnownCommand, NoAction)
       else if ?ty = ReqTooLarge then Some (w, Some ErrMsgReqTooLarge, NoAction)
       else if ?ty = ReqWrongArgumentsNumber then Some (w, Some ErrMsgReqWrongArgumentsNumber, NoAction)
       else if ?ty = ReqPing then Some (w, Some PONG, NoAction)
       else if ?ty = ReqQuit then Some (w, Some OK, Close)
       else Some (w', out, NoAction))"
    using r(1) by (simp add: OnCReact_def Let_def)
  have "\<exists>w'' out' act. OnCReact (Some m) c w = Some (w'', out', act) \<and> (w'' = w \<and> (\<exists>d. out' = Some d \<and> length d \<le> 64) \<and> act \<noteq> Shutdown \<or>
      w'' = w' \<and> out' = out \<and> act = NoAction)"
    unfolding eq by (simp add: reply_lengths)
  then show ?thesis using r(2,3) reacts_refl [OF assms(1)] by fastforce
qed

section \<open>Reading a request\<close>

lemma alloc_frags_ok:
  "wf_proxy w \<Longrightarrow> alloc_frags m body w = (w', fs) \<Longrightarrow>
   kept w w' \<and> map fst fs = map fst body \<and> (\<forall>f \<in> snd ` set fs. f_Peer (w_frags w' f) \<noteq> None \<and> f \<le> w_fragId w') \<and>
   w_fragId w \<le> w_fragId w' \<and> (\<forall>f \<le> w_fragId w. w_frags w' f = w_frags w f) \<and>
   w_conns w' = w_conns w \<and> w_cfg w' = w_cfg w \<and> w_msgs w' = w_msgs w \<and> w_authCmd w' = w_authCmd w \<and> w_nconn w' = w_nconn w"
proof (induction body arbitrary: w fs)
  case Nil
  then show ?case by (auto simp: kept_refl)
next
  case (Cons x body)
  obtain slot rf where x: "x = (slot, rf)" by fastforce
  obtain w1 f where get: "FragPool_Get (w_now w) w = (w1, f)" by fastforce
  define w2 where "w2 = upd_frag f (\<lambda>x. x\<lparr>f_Key := rf_Key rf, f_Peer := Some m, f_Req := rf_Req rf\<rparr>) w1"
  obtain fs' where al: "alloc_frags m body w2 = (w', fs')" "fs = (slot, f) # fs'"
    using Cons.prems(2) x get by (auto simp: Let_def w2_def split: prod.splits)
  have w1: "f_Owner (w_frags w1 f) = None" "f = Suc (w_fragId w)"
    using get by (auto simp: FragPool_Get_def Let_def new_Frag_def)
  have k: "kept w w2" unfolding w2_def by (rule kept_FragPool_Get [OF Cons.prems(1) get]) (simp add: w1(1))
  then have "wf_proxy w2" by (simp add: kept_def)
  note ih = Cons.IH [OF this al(1)]
  have w2: "w_fragId w2 = f" "w_frags w2 f = (w_frags w1 f)\<lparr>f_Key := rf_Key rf, f_Peer := Some m, f_Req := rf_Req rf\<rparr>"
    "\<forall>g \<le> w_fragId w. w_frags w2 g = w_frags w g" "w_conns w2 = w_conns w" "w_cfg w2 = w_cfg w" "w_msgs w2 = w_msgs w"
    "w_authCmd w2 = w_authCmd w" "w_nconn w2 = w_nconn w"
    using get by (auto simp: w2_def FragPool_Get_def Let_def upd_frag_def)
  have "f_Peer (w_frags w' f) \<noteq> None \<and> f \<le> w_fragId w'" using ih w2(1,2) by auto
  then show ?case using ih k w2 kept_trans [OF k] al(2) x w1(2) by auto
qed

text \<open>A message gets a body of its own fragments.\<close>

lemma kept_body:
  assumes "wf_proxy w" "\<forall>f \<in> snd ` set body. f_Peer (w_frags w f) \<noteq> None \<and> f \<le> w_fragId w" "\<And>x. m_Body (g x) = body"
  shows "kept w (upd_msg m g w)"
proof -
  have "bodies_ok (upd_msg m g w)" using assms by (fastforce simp: wf_proxy_def bodies_ok_def upd_msg_def)
  moreover have "live (upd_msg m g w) = live w" "dials_ok (upd_msg m g w) = dials_ok w" "frags_ok (upd_msg m g w) = frags_ok w"
    by (simp_all add: fun_eq_iff live_def dials_ok_def frags_ok_def upd_msg_def)
  ultimately show ?thesis using assms(1) by (simp add: kept_def wf_proxy_def upd_msg_def)
qed

lemma MsgPool_Get_kept:
  assumes "wf_proxy w" "MsgPool_Get w = (w', m)"
  shows "kept w w' \<and> w_conns w' = w_conns w \<and> w_cfg w' = w_cfg w \<and> w_authCmd w' = w_authCmd w \<and> w_nconn w' = w_nconn w"
proof -
  have "w' = w\<lparr>w_picks := w_picks w', w_msgPool := w_msgPool w', w_msgs := w_msgs w', w_nmsg := w_nmsg w'\<rparr>"
    "w_msgs w' = w_msgs w \<or> (\<exists>k. w_msgs w' = (w_msgs w)(k := new_Msg))"
    using assms(2) by (auto simp: MsgPool_Get_def split: prod.splits option.splits list.splits)
  then obtain p q ms n where w': "w' = w\<lparr>w_picks := p, w_msgPool := q, w_msgs := ms, w_nmsg := n\<rparr>"
    "ms = w_msgs w \<or> (\<exists>k. ms = (w_msgs w)(k := new_Msg))" by blast
  have "bodies_ok w'" using w'(2) assms(1) by (auto simp: w'(1) wf_proxy_def bodies_ok_def new_Msg_def split: if_splits)
  moreover have "live w' = live w" "dials_ok w' = dials_ok w" "frags_ok w' = frags_ok w"
    by (simp_all add: fun_eq_iff live_def dials_ok_def frags_ok_def w'(1))
  ultimately show ?thesis using assms(1) by (simp add: kept_def wf_proxy_def w'(1))
qed

lemma discard_in_ok:
  assumes "wf_proxy w" "c_opened (w_conns w c)" "0 < n" "n \<le> length (conn_in (w_conns w c))"
  shows "\<exists>w'. discard_in c (int n) w = Some w' \<and> kept w w' \<and> conn_in (w_conns w' c) = drop n (conn_in (w_conns w c)) \<and>
    c_opened (w_conns w' c) \<and> c_outboundBuffer (w_conns w' c) = c_outboundBuffer (w_conns w c) \<and> w_cfg w' = w_cfg w \<and>
    w_msgs w' = w_msgs w \<and> w_authCmd w' = w_authCmd w"
proof -
  note live = wf_live [OF assms(1,2)]
  then have inv: "er_inv (c_inboundBuffer (w_conns w c))" by (simp add: live_def Let_def)
  from conn_Discard_in [OF inv assms(3,4)] obtain rb buf where
    d: "conn_Discard (w_conns w c) (int n) = Some ((w_conns w c)\<lparr>c_inboundBuffer := rb, c_buffer := buf\<rparr>, int n)"
    "er_inv rb" "er_abs rb @ buf = drop n (conn_in (w_conns w c))" by blast
  let ?w = "upd_conn c (\<lambda>_. (w_conns w c)\<lparr>c_inboundBuffer := rb, c_buffer := buf\<rparr>) w"
  have "live ?w c" using live d(2) by (simp add: live_def Let_def)
  moreover have "only c w ?w" using d by (simp add: only_def upd_conn_def Frag_Timeout_id)
  ultimately have "kept w ?w" using kept_step [OF assms(1) live] by blast
  with d assms(2) show ?thesis by (simp add: discard_in_def conn_in_def) (simp add: upd_conn_def)
qed

text \<open>One attempt to read a request, on a stream that is not empty-request first.\<close>

definition read_ok :: "nat \<Rightarrow> ('t, 'h) W \<Rightarrow> ('t, 'h) W \<Rightarrow> (err + nat option) \<Rightarrow> bool" where
  "read_ok c w w' r \<longleftrightarrow> ready w' \<and> c_opened (w_conns w' c) \<and> w_cfg w' = w_cfg w \<and>
     c_outboundBuffer (w_conns w' c) = c_outboundBuffer (w_conns w c) \<and>
     (case r of
        Inl e \<Rightarrow> w_conns w' = w_conns w
      | Inr None \<Rightarrow> \<exists>buf. C_Decode (g_MsgMaxLength (w_cfg w)) (conn_in (w_conns w c)) = Some (buf, Inr None)
      | Inr (Some m) \<Rightarrow> slots_in (m_Body (w_msgs w' m)) \<and>
          (\<exists>n > 0. n \<le> length (conn_in (w_conns w c)) \<and> conn_in (w_conns w' c) = drop n (conn_in (w_conns w c))))"

lemma ready_msgId [simp]: "ready (w\<lparr>w_msgId := i\<rparr>) = ready w"
  by (simp add: ready_def wf_proxy_def live_def frags_ok_def bodies_ok_def dials_ok_def Let_def)

lemma slots_in_fst: "map fst xs = map fst ys \<Longrightarrow> slots_in xs = slots_in ys"
proof (induction xs arbitrary: ys)
  case (Cons x xs)
  then show ?case by (cases ys) auto
qed simp

lemma conn_cread_request:
  assumes "ready w" "c_opened (w_conns w c)" "slots_in (q_Body q)" "0 < n" "n \<le> length (conn_in (w_conns w c))"
  shows "\<exists>w' m. (do {
          let (w, m) = MsgPool_Get w;
          let (w, body) = alloc_frags m (q_Body q) w;
          let w = upd_msg m (\<lambda>x. x\<lparr>m_Id := w_msgId w, m_Owner := Some c, m_Type := q_Type q, m_Body := body,
            m_Fd2Slot := Some [], m_Keys := m_Keys x @ q_Keys q, m_Frags := q_Frags q, m_Frags2 := q_Frags2 q\<rparr>) w;
          w \<leftarrow> discard_in c (int n) w;
          Some (w, Inr (Some m) :: err + nat option)
        }) = Some (w', Inr (Some m)) \<and> read_ok c w w' (Inr (Some m))"
proof -
  have wf: "wf_proxy w" using assms(1) by (simp add: ready_def)
  obtain w1 m where 1: "MsgPool_Get w = (w1, m)" by fastforce
  note k1 = MsgPool_Get_kept [OF wf 1]
  obtain w2 body where 2: "alloc_frags m (q_Body q) w1 = (w2, body)" by fastforce
  have "wf_proxy w1" using k1 by (simp add: kept_def)
  note k2 = alloc_frags_ok [OF this 2]
  define w3 where "w3 = upd_msg m (\<lambda>x. x\<lparr>m_Id := w_msgId w2, m_Owner := Some c, m_Type := q_Type q, m_Body := body,
            m_Fd2Slot := Some [], m_Keys := m_Keys x @ q_Keys q, m_Frags := q_Frags q, m_Frags2 := q_Frags2 q\<rparr>) w2"
  have "wf_proxy w2" using k2 by (simp add: kept_def)
  then have k3: "kept w2 w3" unfolding w3_def by (rule kept_body) (use k2 in auto)
  have c3: "w_conns w3 = w_conns w" "w_cfg w3 = w_cfg w" "w_authCmd w3 = w_authCmd w" "m_Body (w_msgs w3 m) = body"
    using k1 k2 by (simp_all add: w3_def upd_msg_def)
  have "wf_proxy w3" using k3 by (simp add: kept_def)
  from discard_in_ok [OF this, of c n] assms(2,4,5) c3(1) obtain w4 where
    4: "discard_in c (int n) w3 = Some w4" "kept w3 w4" "conn_in (w_conns w4 c) = drop n (conn_in (w_conns w c))"
    "c_opened (w_conns w4 c)" "c_outboundBuffer (w_conns w4 c) = c_outboundBuffer (w_conns w c)" "w_cfg w4 = w_cfg w3"
    "w_msgs w4 = w_msgs w3" "w_authCmd w4 = w_authCmd w3" by auto
  have k: "kept w w4" using k1 k2 k3 4(2) by (simp add: kept_def)
  have "ready w4" by (rule ready_kept [OF assms(1) k]) (simp add: 4(8) c3)
  moreover have "slots_in body" using k2 assms(3) slots_in_fst by blast
  ultimately have "read_ok c w w4 (Inr (Some m))" unfolding read_ok_def using 4 c3 assms(4,5) by auto
  with 1 2 4(1) show ?thesis by (simp add: Let_def w3_def)
qed

lemma conn_cread_ok:
  assumes "ready w" "c_opened (w_conns w c)"
  shows "\<exists>w' r. conn_cread c w = Some (w', r) \<and> read_ok c w w' r"
proof -
  let ?bs = "conn_in (w_conns w c)" let ?max = "g_MsgMaxLength (w_cfg w)"
  have "live w c" using wf_live [of w c] assms by (simp add: ready_def)
  then have peek: "peek_all c w = Some ?bs" by (simp add: peek_all_in live_def Let_def)
  from C_Decode_total [of ?max ?bs] obtain pre rest res where
    d: "C_Decode ?max ?bs = Some (cursor pre rest, res)" "length pre + length rest = length ?bs" "\<forall>r. res = Inr r \<longrightarrow> pre \<noteq> []" by blast
  define w1 where "w1 = (if line_read ?bs then w\<lparr>w_msgId := (w_msgId w + 1) mod 2 ^ 64\<rparr> else w)"
  have w1: "ready w1" "w_conns w1 = w_conns w" "w_cfg w1 = w_cfg w" using assms(1) by (simp_all add: w1_def)
  consider (err) e where "res = Inl e" | (empty) "res = Inr None" | (req) q where "res = Inr (Some q)"
    by (cases res) auto
  then show ?thesis
  proof cases
    case err
    with peek d(1) w1 assms(2) show ?thesis by (simp add: conn_cread_def read_ok_def flip: w1_def)
  next
    case empty
    with peek d(1) w1 assms(2) show ?thesis by (simp add: conn_cread_def read_ok_def flip: w1_def)
  next
    case req
    have "slots_in (q_Body q)" using C_Decode_slots [of ?max ?bs] d(1) req by blast
    from conn_cread_request [OF w1(1) _ this, of c "length pre"] d req w1(2,3) assms(2) obtain w' m where
      r: "conn_cread c w = Some (w', Inr (Some m))" "read_ok c w1 w' (Inr (Some m))"
      using peek by (auto simp: conn_cread_def simp flip: w1_def)
    moreover have "read_ok c w w' (Inr (Some m))" using r(2) w1 by (simp add: read_ok_def)
    ultimately show ?thesis by blast
  qed
qed

section \<open>The loop over the requests of a client\<close>

lemma MsgPool_Put_kept:
  assumes "ready w"
  shows "ready (MsgPool_Put (Some m) w)" "w_conns (MsgPool_Put (Some m) w) = w_conns w" "w_cfg (MsgPool_Put (Some m) w) = w_cfg w"
proof -
  let ?w = "MsgPool_Put (Some m) w"
  show "w_conns ?w = w_conns w" "w_cfg ?w = w_cfg w" by (simp_all add: MsgPool_Put_def)
  have "bodies_ok ?w" using assms by (auto simp: ready_def wf_proxy_def bodies_ok_def MsgPool_Put_def upd_msg_def Msg_reset_def)
  moreover have "live ?w = live w" "dials_ok ?w = dials_ok w" "frags_ok ?w = frags_ok w"
    by (simp_all add: fun_eq_iff live_def dials_ok_def frags_ok_def MsgPool_Put_def upd_msg_def)
  ultimately show "ready ?w" using assms by (simp add: ready_def wf_proxy_def MsgPool_Put_def upd_msg_def)
qed

lemma ready_kept_only: "ready w \<Longrightarrow> kept w w' \<Longrightarrow> only a w w' \<Longrightarrow> ready w'"
  by (rule ready_kept) (simp_all add: only_def)

lemma answer_now_ok:
  assumes "ready w" "c_opened (w_conns w c)" "\<forall>d. out = Some d \<longrightarrow> length d \<le> 64"
    "int (length (eb_abs (c_outboundBuffer (w_conns w c)))) + 64 \<le> 2 ^ 62"
  shows "\<exists>w'. answer_now (Some m) c out w = Some (w', None) \<and> ready w' \<and> w_cfg w' = w_cfg w \<and>
    (c_opened (w_conns w' c) \<longrightarrow> conn_in (w_conns w' c) = conn_in (w_conns w c) \<and>
       length (eb_abs (c_outboundBuffer (w_conns w' c))) \<le> length (eb_abs (c_outboundBuffer (w_conns w c))) + 64)"
proof (cases out)
  case None
  with assms show ?thesis by (simp add: answer_now_def)
next
  case (Some d)
  let ?w = "MsgPool_Put (Some m) w"
  note put = MsgPool_Put_kept [OF assms(1), of m]
  have live: "live ?w c" "frags_ok ?w" using put assms(2) wf_live [of ?w c] by (simp_all add: ready_def wf_proxy_def)
  have room: "out_room c d ?w" using assms(3,4) Some put(2) by auto
  from conn_write_ok [OF live room] obtain w' n where
    cw: "conn_write c d ?w = Some (w', n, None)" "only c ?w w'" "appended c d ?w w' \<or> lost c d ?w w'" by blast
  have "wf_proxy ?w" using put(1) by (simp add: ready_def)
  with kept_written [OF _ live(1) cw(2)] cw(3) have "kept ?w w'" by blast
  then have "ready w'" using ready_kept_only put(1) cw(2) by blast
  moreover have "conn_in (w_conns w' c) = conn_in (w_conns w c) \<and>
       length (eb_abs (c_outboundBuffer (w_conns w' c))) \<le> length (eb_abs (c_outboundBuffer (w_conns w c))) + 64"
    if "c_opened (w_conns w' c)"
  proof -
    have ap: "appended c d ?w w'" using that cw(3) by (auto simp: lost_def closed_conn_def Let_def)
    then obtain x where "w_wire w' c = w_wire ?w c @ x" "out_stream w' c = out_stream ?w c @ d" by (auto simp: appended_def)
    then have "x @ eb_abs (c_outboundBuffer (w_conns w' c)) = eb_abs (c_outboundBuffer (w_conns w c)) @ d"
      using put(2) by (simp add: out_stream_def)
    from arg_cong [OF this, of length] have "length (eb_abs (c_outboundBuffer (w_conns w' c))) \<le> length (eb_abs (c_outboundBuffer (w_conns w c))) + length d"
      by simp
    with ap assms(3) Some put(2) show ?thesis by (auto simp: appended_def)
  qed
  moreover have "w_cfg w' = w_cfg w" using cw(2) put(3) by (simp add: only_def)
  ultimately show ?thesis using Some cw(1) by (simp add: answer_now_def)
qed

lemma store_rest_ok:
  assumes "wf_proxy w" "c_opened (w_conns w c)" "int (length (conn_in (w_conns w c))) \<le> 2 ^ 62"
  shows "\<exists>w'. store_rest c w = Some (w', None) \<and> kept w w' \<and> er_abs (c_inboundBuffer (w_conns w' c)) = conn_in (w_conns w c)"
proof -
  note live = wf_live [OF assms(1,2)]
  then have inv: "er_inv (c_inboundBuffer (w_conns w c))" by (simp add: live_def Let_def)
  from er_Write_abs [OF inv ring_inv_shapes(1) ring_abs_shapes(1)] assms(3) obtain rb where
    r: "er_Write (w_mem w) (ring_empty (w_mem w)) (c_inboundBuffer (w_conns w c)) (c_buffer (w_conns w c)) = Some (rb, int (length (c_buffer (w_conns w c))))"
    "er_inv rb" "er_abs rb = conn_in (w_conns w c)" unfolding conn_in_def by blast
  let ?w = "upd_conn c (\<lambda>x. x\<lparr>c_inboundBuffer := rb\<rparr>) w"
  have "live ?w c" using live r(2) by (simp add: live_def Let_def)
  then have "kept w ?w" using kept_step [OF assms(1) live only_upd_conn] by simp
  with r show ?thesis by (simp add: store_rest_def)
qed

text \<open>
  A request of no elements, such as \<open>*0\<close>, is decoded to no message and no error, on which the handler
  would panic. \<open>no_empty_request\<close> says that no such request starts anywhere in the stream.
\<close>

fun no_empty_request :: "int \<Rightarrow> bytes \<Rightarrow> bool" where
  "no_empty_request MsgMaxLength [] = True"
| "no_empty_request MsgMaxLength (b # bs) =
     ((case C_Decode MsgMaxLength (b # bs) of Some (_, Inr None) \<Rightarrow> False | _ \<Rightarrow> True) \<and> no_empty_request MsgMaxLength bs)"

lemma no_empty_request_drop: "no_empty_request M bs \<Longrightarrow> no_empty_request M (drop n bs)"
  by (induction bs arbitrary: n) (auto simp: drop_Cons' simp del: drop_Suc_Cons)

lemma no_empty_requestD: "no_empty_request M bs \<Longrightarrow> C_Decode M bs \<noteq> Some (buf, Inr None)"
  by (cases bs) (auto simp: C_Decode_def Let_def NewBuffer_cursor Empty_def)

lemma loop_cread_ok:
  "ready w \<Longrightarrow> c_opened (w_conns w c) \<Longrightarrow> no_empty_request (g_MsgMaxLength (w_cfg w)) (conn_in (w_conns w c)) \<Longrightarrow>
   int (length (eb_abs (c_outboundBuffer (w_conns w c)))) + 64 * int (length (conn_in (w_conns w c))) + 64 \<le> 2 ^ 62 \<Longrightarrow>
   \<exists>w'. loop_cread c w = Some (w', None) \<and> wf_proxy w' \<and> dials_ok w'"
proof (induction "length (conn_in (w_conns w c))" arbitrary: w rule: less_induct)
  case less
  let ?bs = "conn_in (w_conns w c)"
  from conn_cread_ok [OF less.prems(1,2)] obtain w1 r where
    r: "conn_cread c w = Some (w1, r)" "read_ok c w w1 r" by blast
  then have w1: "ready w1" "wf_proxy w1" "dials_ok w1" "c_opened (w_conns w1 c)" "w_cfg w1 = w_cfg w"
    "c_outboundBuffer (w_conns w1 c) = c_outboundBuffer (w_conns w c)" by (auto simp: read_ok_def ready_def)
  have fin: "\<exists>w'. x = Some (w', None) \<and> wf_proxy w' \<and> dials_ok w'"
    if "\<exists>w'. x = Some (w', None) \<and> kept v w'" "dials_ok v" for x :: "(('a, 'b) W \<times> loop_err option) option" and v
    using that by (auto simp: kept_def)
  consider (err) e where "r = Inl e" | (empty) "r = Inr None" | (req) m where "r = Inr (Some m)" by (cases r) auto
  then show ?case
  proof cases
    case (err e)
    show ?thesis
    proof (cases "e = ErrInvalidResp")
      case True
      have "loop_cread c w = closeConn c w1" using r(1) err True by (simp add: loop_cread.simps)
      with fin [OF closeConn_kept [OF w1(2)] w1(3)] show ?thesis by simp
    next
      case False
      have "int (length (conn_in (w_conns w1 c))) \<le> 2 ^ 62" using less.prems(4) r(2) err by (auto simp: read_ok_def)
      from store_rest_ok [OF w1(2,4) this] have "\<exists>w'. store_rest c w1 = Some (w', None) \<and> kept w1 w'" by blast
      moreover have "loop_cread c w = store_rest c w1" using r(1) err False by (simp add: loop_cread.simps)
      ultimately show ?thesis using fin w1(3) by simp
    qed
  next
    case empty
    with r(2) obtain buf where "C_Decode (g_MsgMaxLength (w_cfg w)) ?bs = Some (buf, Inr None)" by (auto simp: read_ok_def)
    with no_empty_requestD [OF less.prems(3)] show ?thesis by blast
  next
    case (req m)
    from r(2) req obtain n where n: "slots_in (m_Body (w_msgs w1 m))" "0 < n" "n \<le> length ?bs" "conn_in (w_conns w1 c) = drop n ?bs"
      by (auto simp: read_ok_def)
    from OnCReact_ok [OF w1(1) n(1) w1(4)] obtain w2 out act where
      o: "OnCReact (Some m) c w1 = Some (w2, out, act)" "reacts w1 w2" "act \<noteq> Shutdown" "\<forall>d. out = Some d \<longrightarrow> length d \<le> 64" by blast
    have io: "same_io (w_conns w1 c) (w_conns w2 c)" by (rule reacts_opened [OF o(2) w1(1,4)])
    have w2: "ready w2" "c_opened (w_conns w2 c)" "w_cfg w2 = w_cfg w" "conn_in (w_conns w2 c) = drop n ?bs"
      "c_outboundBuffer (w_conns w2 c) = c_outboundBuffer (w_conns w c)"
      using o(2) io w1 n(4) by (simp_all add: reacts_def same_io_def conn_in_def)
    have "int (length (eb_abs (c_outboundBuffer (w_conns w2 c)))) + 64 \<le> 2 ^ 62" using less.prems(4) w2(5) by simp
    from answer_now_ok [OF w2(1,2) o(4) this, of m] obtain w3 where
      a: "answer_now (Some m) c out w2 = Some (w3, None)" "ready w3" "w_cfg w3 = w_cfg w2"
      "c_opened (w_conns w3 c) \<Longrightarrow> conn_in (w_conns w3 c) = conn_in (w_conns w2 c) \<and>
         length (eb_abs (c_outboundBuffer (w_conns w3 c))) \<le> length (eb_abs (c_outboundBuffer (w_conns w2 c))) + 64" by blast
    have wf3: "wf_proxy w3" "dials_ok w3" using a(2) by (simp_all add: ready_def)
    show ?thesis
    proof (cases "act = Close")
      case True
      have "loop_cread c w = closeConn c w3" using r(1) req o(1) a(1) True by (simp add: loop_cread.simps [of c w])
      with fin [OF closeConn_kept [OF wf3(1)] wf3(2)] show ?thesis by simp
    next
      case False
      then have act: "act = NoAction" using o(3) by (cases act) auto
      show ?thesis
      proof (cases "c_opened (w_conns w3 c)")
        case open3: True
        note a4 = a(4) [OF open3]
        have shorter: "length (conn_in (w_conns w3 c)) < length ?bs" using a4 w2(4) n(2,3) by simp
        have no: "no_empty_request (g_MsgMaxLength (w_cfg w3)) (conn_in (w_conns w3 c))"
          using no_empty_request_drop [OF less.prems(3)] a4 a(3) w2(3,4) by simp
        have "length (conn_in (w_conns w3 c)) + 1 \<le> length ?bs" using shorter by simp
        then have room: "int (length (eb_abs (c_outboundBuffer (w_conns w3 c)))) + 64 * int (length (conn_in (w_conns w3 c))) + 64 \<le> 2 ^ 62"
          using less.prems(4) a4 w2(5) by simp
        have "loop_cread c w = loop_cread c w3" using r(1) req o(1) a(1) act open3 by (simp add: loop_cread.simps [of c w])
        with less.hyps [OF shorter a(2) open3 no room] show ?thesis by simp
      next
        case False
        have "loop_cread c w = Some (w3, None)" using r(1) req o(1) a(1) act False by (simp add: loop_cread.simps [of c w])
        with wf3 show ?thesis by simp
      qed
    qed
  qed
qed

section \<open>New clients\<close>

lemma closeConn_opened:
  assumes "wf_proxy w" "c_opened (w_conns w a)"
  shows "\<exists>w'. closeConn a w = Some (w', None) \<and> kept w w' \<and> closed_conn w' a \<and> only a w w'"
  using closeConn_live [OF wf_live [OF assms] wf_frags [OF assms(1)]] kept_step [OF assms(1) wf_live [OF assms]] by blast

lemma loop_open_client:
  assumes w0: "wf_proxy (upd_conn a (\<lambda>c. c\<lparr>c_opened := True\<rparr>) w)" and client: "c_connType (w_conns w a) = ConnClient"
    and out: "eb_abs (c_outboundBuffer (w_conns w a)) = []" and addr: "idx (Split (RemoteAddr (w_conns w a)) '':'') 0 = Some access"
  shows "\<exists>w'. loop_open a w = Some (w', None) \<and> wf_proxy w' \<and>
    (if w_Validate w access then w' = addCConn 1 (upd_conn a (\<lambda>c. c\<lparr>c_opened := True\<rparr>) w)
     else closed_conn w' a \<and> c_fd (w_conns w' a) = c_fd (w_conns w a))"
proof -
  let ?w0 = "upd_conn a (\<lambda>c. c\<lparr>c_opened := True\<rparr>) w"
  let ?w1 = "addCConn 1 ?w0"
  have wf1: "wf_proxy ?w1" using kept_count(1) [OF w0] by (simp add: kept_def)
  have open1: "c_opened (w_conns ?w1 a)" by simp
  have val: "w_Validate ?w1 = w_Validate w" by (simp add: addCConn_def upd_conn_def)
  have "RemoteAddr (w_conns ?w1 a) = RemoteAddr (w_conns w a)" by (simp add: RemoteAddr_def)
  then have opened: "OnCOpened a ?w1 = Some (None, if \<not> w_Validate w access then Close else NoAction)"
    using addr val by (simp add: OnCOpened_def)
  have "eb_inv (c_outboundBuffer (w_conns w a))" using wf_live [OF w0, of a] by (simp add: live_def Let_def)
  then have rest: "watch_rest a ?w1 = Some (?w1, None)" using out by (simp add: watch_rest_def eb_IsEmpty_abs)
  have lo: "loop_open a w = handleAction a (if \<not> w_Validate w access then Close else NoAction) ?w1"
    using client opened rest by (simp add: loop_open_def greet_def)
  show ?thesis
  proof (cases "w_Validate w access")
    case True
    with lo wf1 show ?thesis by (simp add: handleAction_def)
  next
    case False
    from closeConn_opened [OF wf1 open1] obtain w' where
      "closeConn a ?w1 = Some (w', None)" "kept ?w1 w'" "closed_conn w' a" "only a ?w1 w'" by blast
    with lo False show ?thesis by (auto simp: handleAction_def kept_def only_def)
  qed
qed

lemma accept_client:
  assumes "wf_proxy w" "w_sockets w fd = None" "w_poll w fd = None" "CHR '':'' \<notin> set ip" "remote = ip @ CHR '':'' # port"
  shows "\<exists>w'. accept (Inr (fd, remote)) None lnAddr w = Some (w', None) \<and> wf_proxy w' \<and>
    (if w_Validate w ip
     then live w' (w_nconn w) \<and> c_connType (w_conns w' (w_nconn w)) = ConnClient \<and> w_connections w' fd = Some (w_nconn w)
     else \<not> c_opened (w_conns w' (w_nconn w)) \<and> w_connections w' fd = None \<and> w_sockets w' fd = None)"
proof -
  let ?a = "w_nconn w"
  obtain out where out: "eb_inv out" "eb_abs out = []" "newTCPConn fd (Some lnAddr) (Some remote) ConnClient Initialized False w =
      Some (w\<lparr>w_conns := (w_conns w)(?a := fresh_conn fd (Some lnAddr) (Some remote) ConnClient Initialized False out), w_nconn := Suc ?a\<rparr>, ?a)"
    using newTCPConn_form [of w fd "Some lnAddr" "Some remote" ConnClient Initialized False] assms(1) by (auto simp: wf_proxy_def)
  let ?c = "fresh_conn fd (Some lnAddr) (Some remote) ConnClient Initialized False out"
  let ?w1 = "born fd ?c w"
  let ?w2 = "?w1\<lparr>w_poll := (w_poll w)(fd := Some ReadOnly)\<rparr>"
  let ?w3 = "?w2\<lparr>w_connections := (w_connections ?w2)(fd := Some ?a)\<rparr>"
  have ar: "AddRead ?a ?w1 = Some (?w2, None)" using assms(3) by (auto simp: AddRead_def poll_fd_def epoll_add_def born_def)
  have ns: "new_socket fd ?a (w\<lparr>w_conns := (w_conns w)(?a := ?c), w_nconn := Suc ?a\<rparr>) = ?w1" by (simp add: new_socket_def born_def)
  have wf0: "wf_proxy (upd_conn ?a (\<lambda>c. c\<lparr>c_opened := True\<rparr>) ?w3)"
    using wf_born [OF assms(1,2) out(1), where ct = ConnClient and l = "Some lnAddr" and r = "Some remote" and st = Initialized
      and sl = False and i = ReadOnly] by (simp add: born_def)
  have pre: "c_connType (w_conns ?w3 ?a) = ConnClient" "eb_abs (c_outboundBuffer (w_conns ?w3 ?a)) = []" "c_fd (w_conns ?w3 ?a) = fd"
    "idx (Split (RemoteAddr (w_conns ?w3 ?a)) '':'') 0 = Some ip" "w_Validate ?w3 = w_Validate w"
    using out(2) assms(4,5) by (simp_all add: born_def RemoteAddr_def Split_append idx_0)
  from loop_open_client [OF wf0 pre(1,2,4)] pre(3,5) obtain w' where
    lo: "loop_open ?a ?w3 = Some (w', None)" "wf_proxy w'"
    "if w_Validate w ip then w' = addCConn 1 (upd_conn ?a (\<lambda>c. c\<lparr>c_opened := True\<rparr>) ?w3)
     else closed_conn w' ?a \<and> c_fd (w_conns w' ?a) = fd" by auto
  have "accept (Inr (fd, remote)) None lnAddr w = Some (w', None)" using out(3) ns ar lo(1) by (simp add: accept_def)
  moreover have "live w' ?a \<and> c_connType (w_conns w' ?a) = ConnClient \<and> w_connections w' fd = Some ?a" if "w_Validate w ip"
  proof -
    have w': "w' = addCConn 1 (upd_conn ?a (\<lambda>c. c\<lparr>c_opened := True\<rparr>) ?w3)" using lo(3) that by simp
    then have "c_opened (w_conns w' ?a)" by simp
    from wf_live [OF lo(2) this] pre(1) w' show ?thesis by simp
  qed
  ultimately show ?thesis using lo(2,3) by (auto simp: closed_conn_def Let_def)
qed

section \<open>Stated properties\<close>

text \<open>A proxy with one open client.\<close>

definition client_world :: "io_answer list \<Rightarrow> ((int \<times> nat) list, (string \<times> ClusterNode) list) world" where
  "client_world io = (example_world io)\<lparr>w_conns := (\<lambda>a. (example_conn ConnClient 5)\<lparr>c_opened := a = 0\<rparr>)\<rparr>"

lemma example_wf: "wf_proxy (example_world io)"
proof (rule wfI)
  show "live (example_world io) a \<and> a < w_nconn (example_world io)" if "c_opened (w_conns (example_world io) a)" for a
    using that example_live(1) [of io] by (cases "a = 0") (simp_all add: example_world_def)
  show "c_opened (w_conns (example_world io) a) \<and> c_fd (w_conns (example_world io) a) = fd"
    if "w_connections (example_world io) fd = Some a" for fd a
    using that by (simp add: example_world_def example_conn_def split: if_splits)
qed (simp_all add: example_live bodies_ok_def new_Msg_def, simp_all add: example_world_def example_config_def new_Msg_def)

lemma client_live: "live (client_world io) 0"
  using example_live(1) [of io] by (simp add: client_world_def example_world_def example_conn_def live_def Let_def example_buffer er_inv_def)

lemma client_wf: "wf_proxy (client_world io)"
proof (rule wfI)
  show "live (client_world io) a \<and> a < w_nconn (client_world io)" if "c_opened (w_conns (client_world io) a)" for a
    using that client_live [of io] by (cases "a = 0") (simp_all add: client_world_def example_world_def)
  show "c_opened (w_conns (client_world io) a) \<and> c_fd (w_conns (client_world io) a) = fd"
    if "w_connections (client_world io) fd = Some a" for fd a
    using that by (simp add: client_world_def example_world_def example_conn_def split: if_splits)
  show "frags_ok (client_world io)" using example_live(2) [of io] by (simp add: frags_ok_def client_world_def)
qed (simp_all add: client_world_def example_world_def example_config_def new_Msg_def bodies_ok_def)

lemma client_dials: "dials_ok (client_world io)"
  by (simp add: dials_ok_def client_world_def example_world_def)

text \<open>
  C24: running a task of the event loop (a write signal, a request for the cluster state, an asynchronous
  write, a close) on a well-formed state returns without panic or error and leaves a well-formed state:
  every open connection is still registered under its descriptor, with well-formed buffers and all its
  queues, and the event loop knows open connections only. This presumes room in the output buffers.
\<close>

theorem tasks_keep_state_well_formed:
  assumes "wf_proxy w" "task_fits t w"
  shows "\<exists>w'. run_task t w = Some (w', None) \<and> wf_proxy w'"
  using run_task_kept [OF assms] by (auto simp: kept_def)

theorem tasks_keep_state_well_formed_witness:
  "\<exists>w'. run_task (WriteSignal 0) (example_world [Sent 1]) = Some (w', None) \<and> wf_proxy w'"
proof -
  have "task_fits (WriteSignal 0) (example_world [Sent 1])"
    by (simp add: example_world_def example_conn_def example_buffer)
  from tasks_keep_state_well_formed [OF example_wf this] show ?thesis .
qed



text \<open>
  C25: a client whose address is not allowed is closed as soon as it is accepted: its connection is never
  open to requests and its descriptor is released. Every other client is open and registered
  with the event loop. The state stays well-formed.
\<close>

theorem unauthorised_clients_closed:
  assumes "wf_proxy w" "w_sockets w fd = None" "w_poll w fd = None" "CHR '':'' \<notin> set ip"
  shows "\<exists>w'. accept (Inr (fd, ip @ CHR '':'' # port)) None lnAddr w = Some (w', None) \<and> wf_proxy w' \<and>
    (if w_Validate w ip
     then live w' (w_nconn w) \<and> c_connType (w_conns w' (w_nconn w)) = ConnClient \<and> w_connections w' fd = Some (w_nconn w)
     else \<not> c_opened (w_conns w' (w_nconn w)) \<and> w_connections w' fd = None \<and> w_sockets w' fd = None)"
  using accept_client [OF assms refl] .

theorem unauthorised_clients_closed_witness:
  "\<exists>w'. accept (Inr (9, ''10.0.0.7:4000'')) None ''l'' ((client_world [])\<lparr>w_Validate := (\<lambda>ip. ip = ''10.0.0.1'')\<rparr>) = Some (w', None) \<and>
    \<not> c_opened (w_conns w' 1) \<and> w_sockets w' 9 = None"
proof -
  let ?w = "(client_world [])\<lparr>w_Validate := (\<lambda>ip. ip = ''10.0.0.1'')\<rparr>"
  have "wf_proxy ?w" using client_wf [of "[]"] by (simp add: wf_proxy_def live_def frags_ok_def bodies_ok_def Let_def)
  from unauthorised_clients_closed [OF this, of 9 "''10.0.0.7''" "''4000''" "''l''"] show ?thesis
    by (simp add: client_world_def example_world_def) blast
qed

end
