(* ===== verification/Request_Errors.thy ===== *)
theory Request_Errors
  imports Proxy_Invariant
begin

text \<open>
  Requests that the proxy answers itself with an error: the composition of the decoder, the handler
  \<open>OnCReact\<close> and the loop \<open>cread\<close> on the path from the bytes of a client to the bytes of its answer.
\<close>

section \<open>Frames of reading a request\<close>

lemma cursor_inj: "cursor pre rest = cursor pre' rest' \<Longrightarrow> pre = pre' \<and> rest = rest'"
  using append_eq_append_conv [of pre pre' rest rest'] by (simp add: cursor_def)

definition reads_from :: "nat \<Rightarrow> ('t, 'h) W \<Rightarrow> ('t, 'h) W \<Rightarrow> bool" where
  "reads_from c w w' \<longleftrightarrow> w_wire w' = w_wire w \<and> w_Slots2Node w' = w_Slots2Node w \<and>
     (\<forall>b. b \<noteq> c \<longrightarrow> w_conns w' b = w_conns w b) \<and>
     c_outboundBuffer (w_conns w' c) = c_outboundBuffer (w_conns w c) \<and> c_inMsgQueue (w_conns w' c) = c_inMsgQueue (w_conns w c)"

lemma reads_from_refl: "reads_from c w w"
  by (simp add: reads_from_def)

lemma reads_from_trans: "reads_from c w1 w2 \<Longrightarrow> reads_from c w2 w3 \<Longrightarrow> reads_from c w1 w3"
  by (simp add: reads_from_def)

lemma reads_from_stream: "reads_from c w w' \<Longrightarrow> out_stream w' b = out_stream w b"
  by (cases "b = c") (simp_all add: reads_from_def out_stream_def)

lemma MsgPool_Get_frame: "MsgPool_Get w = (w', m) \<Longrightarrow> reads_from c w w' \<and> w_conns w' = w_conns w"
  by (auto simp: MsgPool_Get_def reads_from_def split: prod.splits option.splits list.splits)

lemma alloc_frags_frame:
  "alloc_frags m body w = (w', fs) \<Longrightarrow> reads_from c w w' \<and> w_conns w' = w_conns w \<and> map fst fs = map fst body"
proof (induction body arbitrary: w fs)
  case (Cons x body)
  then show ?case
    by (cases x) (fastforce simp: Let_def FragPool_Get_def upd_frag_def reads_from_def split: prod.splits)
qed (simp add: reads_from_def)

lemma discard_in_frame:
  assumes "er_inv (c_inboundBuffer (w_conns w c))" "0 < n" "n \<le> length (conn_in (w_conns w c))" "discard_in c (int n) w = Some w'"
  shows "reads_from c w w' \<and> w_msgs w' = w_msgs w \<and> conn_in (w_conns w' c) = drop n (conn_in (w_conns w c))"
proof -
  from conn_Discard_in [OF assms(1-3)] obtain rb buf where
    "conn_Discard (w_conns w c) (int n) = Some ((w_conns w c)\<lparr>c_inboundBuffer := rb, c_buffer := buf\<rparr>, int n)"
    "er_abs rb @ buf = drop n (conn_in (w_conns w c))" by blast
  then show ?thesis using assms(4) by (auto simp: discard_in_def upd_conn_def reads_from_def conn_in_def)
qed

lemma conn_cread_frame:
  assumes "ready w" "c_opened (w_conns w c)"
    "C_Decode (g_MsgMaxLength (w_cfg w)) (conn_in (w_conns w c)) = Some (cursor pre rest, Inr (Some q))"
  shows "\<exists>w' m. conn_cread c w = Some (w', Inr (Some m)) \<and> read_ok c w w' (Inr (Some m)) \<and> reads_from c w w' \<and>
    conn_in (w_conns w' c) = drop (length pre) (conn_in (w_conns w c)) \<and>
    m_Type (w_msgs w' m) = q_Type q \<and> map fst (m_Body (w_msgs w' m)) = map fst (q_Body q)"
proof -
  let ?bs = "conn_in (w_conns w c)" let ?max = "g_MsgMaxLength (w_cfg w)"
  have live: "live w c" using wf_live [of w c] assms(1,2) by (simp add: ready_def)
  then have peek: "peek_all c w = Some ?bs" by (simp add: peek_all_in live_def Let_def)
  from C_Decode_total [of ?max ?bs] obtain pre' rest' where
    "cursor pre rest = cursor pre' rest'" "length pre' + length rest' = length ?bs" "pre' \<noteq> []" using assms(3) by auto
  with cursor_inj [of pre rest pre' rest'] have pre: "0 < length pre" "length pre \<le> length ?bs" by auto
  define w0 where "w0 = (if line_read ?bs then w\<lparr>w_msgId := (w_msgId w + 1) mod 2 ^ 64\<rparr> else w)"
  obtain w1 m where 1: "MsgPool_Get w0 = (w1, m)" by fastforce
  obtain w2 body where 2: "alloc_frags m (q_Body q) w1 = (w2, body)" by fastforce
  define w3 where "w3 = upd_msg m (\<lambda>x. x\<lparr>m_Id := w_msgId w2, m_Owner := Some c, m_Type := q_Type q, m_Body := body,
            m_Fd2Slot := Some [], m_Keys := m_Keys x @ q_Keys q, m_Frags := q_Frags q, m_Frags2 := q_Frags2 q\<rparr>) w2"
  have eq: "conn_cread c w = do { w \<leftarrow> discard_in c (int (length pre)) w3; Some (w, Inr (Some m)) }"
    using peek assms(3) 1 2 by (simp add: conn_cread_def w3_def flip: w0_def)
  from conn_cread_ok [OF assms(1,2)] obtain w' r where ok: "conn_cread c w = Some (w', r)" "read_ok c w w' r" by blast
  then have d: "discard_in c (int (length pre)) w3 = Some w'" "r = Inr (Some m)"
    using eq by (cases "discard_in c (int (length pre)) w3"; simp)+
  have 0: "reads_from c w w0" "w_conns w0 = w_conns w" by (simp_all add: w0_def reads_from_def)
  note g = MsgPool_Get_frame [OF 1, of c] alloc_frags_frame [OF 2, of c]
  have "reads_from c w2 w3" "w_conns w3 = w_conns w2" by (simp_all add: w3_def upd_msg_def reads_from_def)
  with g 0(2) have 3: "w_conns w3 = w_conns w" "map fst body = map fst (q_Body q)" "reads_from c w2 w3" by simp_all
  have w2: "reads_from c w w2"
    by (rule reads_from_trans [OF reads_from_trans [OF 0(1) g(1) [THEN conjunct1]] g(2) [THEN conjunct1]])
  have "er_inv (c_inboundBuffer (w_conns w3 c))" using live 3(1) by (simp add: live_def Let_def)
  note df = discard_in_frame [OF this pre(1) _ d(1), unfolded 3(1), OF pre(2)]
  then have 4: "reads_from c w3 w'" "w_msgs w' = w_msgs w3" "conn_in (w_conns w' c) = drop (length pre) ?bs" by blast+
  have "m_Type (w_msgs w' m) = q_Type q" "m_Body (w_msgs w' m) = body" using 4(2) by (simp_all add: w3_def upd_msg_def)
  with ok d(2) 3(2) 4(3) reads_from_trans [OF w2 reads_from_trans [OF 3(3) 4(1)]] show ?thesis by auto
qed

section \<open>Refused requests\<close>

text \<open>The error that answers a request, if it is refused at once.\<close>

definition refusal :: "slotReplicaset \<Rightarrow> Request \<Rightarrow> bytes option" where
  "refusal slots q =
     (if q_Type q \<le> UNKNOWN \<or> q_Type q \<ge> Sentinel then Some ErrUnKnownCommand
      else if q_Type q = ReqTooLarge then Some ErrMsgReqTooLarge
      else if q_Type q = ReqWrongArgumentsNumber then Some ErrMsgReqWrongArgumentsNumber
      else if q_Type q \<in> {ReqPing, ReqQuit, ReqAuth} then None
      else case q_Body q of [] \<Rightarrow> None | (slot, _) # _ \<Rightarrow> if slots slot = None then Some ErrUnKnownSlot else None)"

lemma refusal_lengths:
  "length ErrUnKnownCommand \<le> 64" "length ErrMsgReqTooLarge \<le> 64" "length ErrMsgReqWrongArgumentsNumber \<le> 64" "length ErrUnKnownSlot \<le> 64"
  by (simp_all add: reply_lengths)

lemma OnCReact_refuses:
  assumes "refusal (w_Slots2Node w) q = Some e" "m_Type (w_msgs w m) = q_Type q"
    "map fst (m_Body (w_msgs w m)) = map fst (q_Body q)" "slots_in (m_Body (w_msgs w m))"
  shows "OnCReact (Some m) c w = Some (w, Some e, NoAction) \<and> length e \<le> 64"
proof -
  consider (unknown) "q_Type q \<le> UNKNOWN \<or> q_Type q \<ge> Sentinel"
    | (large) "\<not> (q_Type q \<le> UNKNOWN \<or> q_Type q \<ge> Sentinel)" "q_Type q = ReqTooLarge"
    | (args) "\<not> (q_Type q \<le> UNKNOWN \<or> q_Type q \<ge> Sentinel)" "q_Type q \<noteq> ReqTooLarge" "q_Type q = ReqWrongArgumentsNumber"
    | (slot) "\<not> (q_Type q \<le> UNKNOWN \<or> q_Type q \<ge> Sentinel)" "q_Type q \<noteq> ReqTooLarge" "q_Type q \<noteq> ReqWrongArgumentsNumber"
    by blast
  then show ?thesis
  proof cases
    case slot
    have rest: "q_Type q \<noteq> ReqPing" "q_Type q \<noteq> ReqQuit" "q_Type q \<noteq> ReqAuth"
      using assms(1) slot unfolding refusal_def by auto
    obtain s x body where b: "q_Body q = (s, x) # body" "w_Slots2Node w s = None" "e = ErrUnKnownSlot"
      using assms(1) slot rest unfolding refusal_def by (cases "q_Body q") (simp_all split: prod.splits if_splits)
    then obtain f body' where m: "m_Body (w_msgs w m) = (s, f) # body'" using assms(3) by (cases "m_Body (w_msgs w m)") auto
    have "react_frags m c (m_Body (w_msgs w m)) w = Some (w, Some ErrUnKnownSlot)"
      using b(2) rest m assms(2,4) by (simp add: slots_NotExist_def)
    with slot rest b(3) assms(2) refusal_lengths(4) show ?thesis by (simp add: OnCReact_def)
  qed (use assms(1,2) refusal_lengths in \<open>auto simp: refusal_def OnCReact_def\<close>)
qed

lemma store_rest_frame:
  assumes "store_rest c w = Some (w', None)"
  shows "reads_from c w w'"
  using assms by (auto simp: store_rest_def reads_from_def upd_conn_def bind_eq_Some_conv)

lemma cread_incomplete:
  assumes "ready w" "c_opened (w_conns w c)" "C_Decode (g_MsgMaxLength (w_cfg w)) (conn_in (w_conns w c)) = Some (buf, Inl e)"
    "e \<noteq> ErrInvalidResp" "int (length (conn_in (w_conns w c))) \<le> 2 ^ 62"
  shows "\<exists>w'. loop_cread c w = Some (w', None) \<and> live w' c \<and> reads_from c w w' \<and> er_abs (c_inboundBuffer (w_conns w' c)) = conn_in (w_conns w c)"
proof -
  have "live w c" using wf_live [of w c] assms(1,2) by (simp add: ready_def)
  then have peek: "peek_all c w = Some (conn_in (w_conns w c))" by (simp add: peek_all_in live_def Let_def)
  define w0 where "w0 = (if line_read (conn_in (w_conns w c)) then w\<lparr>w_msgId := (w_msgId w + 1) mod 2 ^ 64\<rparr> else w)"
  have w0: "wf_proxy w0" "w_conns w0 = w_conns w" "reads_from c w w0"     using assms(1) ready_msgId [of "(w_msgId w + 1) mod 2 ^ 64" w] by (auto simp: w0_def reads_from_def ready_def)
  from store_rest_ok [OF w0(1), of c] w0(2) assms(2,5) obtain w' where
    s: "store_rest c w0 = Some (w', None)" "kept w0 w'" "er_abs (c_inboundBuffer (w_conns w' c)) = conn_in (w_conns w c)" by auto
  have "c_opened (w_conns w' c)" using s(1) w0(2) assms(2) by (auto simp: store_rest_def bind_eq_Some_conv)
  then have "live w' c" using s(2) wf_live by (auto simp: kept_def)
  moreover have "loop_cread c w = Some (w', None)"
    using peek assms(3,4) s(1) by (simp add: loop_cread.simps [of c w] conn_cread_def flip: w0_def)
  ultimately show ?thesis using s(3) reads_from_trans [OF w0(3) store_rest_frame [OF s(1)]] by blast
qed

lemma cread_refuses:
  assumes "ready w" "c_opened (w_conns w c)"
    "C_Decode (g_MsgMaxLength (w_cfg w)) (conn_in (w_conns w c)) = Some (cursor pre rest, Inr (Some q))"
    "refusal (w_Slots2Node w) q = Some e"
    "int (length (eb_abs (c_outboundBuffer (w_conns w c)))) + 64 \<le> 2 ^ 62"
  shows "\<exists>w' w''. loop_cread c w = (if c_opened (w_conns w' c) then loop_cread c w' else Some (w', None)) \<and>
    reads_from c w w'' \<and> only c w'' w' \<and> ready w' \<and> w_cfg w' = w_cfg w \<and>
    conn_in (w_conns w'' c) = drop (length pre) (conn_in (w_conns w c)) \<and> (appended c e w'' w' \<or> lost c e w'' w')"
proof -
  from conn_cread_frame [OF assms(1-3)] obtain w1 m where
    1: "conn_cread c w = Some (w1, Inr (Some m))" "read_ok c w w1 (Inr (Some m))" "reads_from c w w1"
    "conn_in (w_conns w1 c) = drop (length pre) (conn_in (w_conns w c))"
    "m_Type (w_msgs w1 m) = q_Type q" "map fst (m_Body (w_msgs w1 m)) = map fst (q_Body q)" by blast
  have r1: "ready w1" "c_opened (w_conns w1 c)" "w_cfg w1 = w_cfg w" "slots_in (m_Body (w_msgs w1 m))"
    using 1(2) by (auto simp: read_ok_def)
  have "refusal (w_Slots2Node w1) q = Some e" using assms(4) 1(3) by (simp add: reads_from_def)
  note o = OnCReact_refuses [OF this 1(5,6) r1(4), of c]
  let ?w = "MsgPool_Put (Some m) w1"
  note put = MsgPool_Put_kept [OF r1(1), of m]
  have rp: "reads_from c w1 ?w" by (simp add: reads_from_def MsgPool_Put_def upd_msg_def)
  have live: "live ?w c" "frags_ok ?w" using put r1(2) wf_live [of ?w c] by (simp_all add: ready_def wf_proxy_def)
  have "c_outboundBuffer (w_conns ?w c) = c_outboundBuffer (w_conns w c)" using 1(3) put(2) by (simp add: reads_from_def)
  then have room: "out_room c e ?w" using assms(5) o by simp
  from conn_write_ok [OF live room] obtain w' n where
    cw: "conn_write c e ?w = Some (w', n, None)" "only c ?w w'" "appended c e ?w w' \<or> lost c e ?w w'" by blast
  have "wf_proxy ?w" using put(1) by (simp add: ready_def)
  with kept_written [OF _ live(1) cw(2)] cw(3) have "kept ?w w'" by blast
  then have "ready w'" using ready_kept_only put(1) cw(2) by blast
  moreover have "loop_cread c w = (if c_opened (w_conns w' c) then loop_cread c w' else Some (w', None))"
    using 1(1) o cw(1) by (simp add: loop_cread.simps [of c w] answer_now_def)
  moreover have "w_cfg w' = w_cfg w" using cw(2) put(3) r1(3) by (simp add: only_def)
  moreover have "conn_in (w_conns ?w c) = drop (length pre) (conn_in (w_conns w c))" using put(2) 1(4) by simp
  ultimately show ?thesis using cw(2,3) reads_from_trans [OF 1(3) rp] by blast
qed

section \<open>Stated property\<close>



end
