(* ===== verification/Timeouts.thy ===== *)
theory Timeouts
  imports Proxy_Invariant
begin

text \<open>
  Requests that redis does not answer in time: the loop \<open>msgTimeout\<close> of
  \<^verbatim>\<open>src/core/eventloop.go\<close> on the tree of pending timeouts.

  The tree is a third-party package. \<open>llrb_ok\<close> states what its documentation promises, over the set of
  the tree's elements: keys are timeouts, an insertion replaces the element of the same key, \<open>Min\<close> is an
  element of least key.
\<close>

section \<open>The tree of timeouts\<close>

definition llrb_ok :: "'t llrb \<Rightarrow> ('t \<Rightarrow> (int \<times> nat) set) \<Rightarrow> bool" where
  "llrb_ok l entries \<longleftrightarrow>
     (\<forall>t. finite (entries t) \<and> inj_on fst (entries t)) \<and>
     (\<forall>t. lr_Min l t = None \<longleftrightarrow> entries t = {}) \<and>
     (\<forall>t x. lr_Min l t = Some x \<longrightarrow> x \<in> entries t \<and> (\<forall>y \<in> entries t. fst x \<le> fst y)) \<and>
     (\<forall>t k. entries (lr_Delete l k t) = {y \<in> entries t. fst y \<noteq> k}) \<and>
     (\<forall>t x. entries (lr_ReplaceOrInsert l x t) = insert x {y \<in> entries t. fst y \<noteq> fst x})"

lemma llrb_okD:
  assumes "llrb_ok l entries"
  shows "finite (entries t)" "lr_Min l t = None \<longleftrightarrow> entries t = {}"
    "lr_Min l t = Some x \<Longrightarrow> x \<in> entries t" "lr_Min l t = Some x \<Longrightarrow> y \<in> entries t \<Longrightarrow> fst x \<le> fst y"
    "entries (lr_Delete l k t) = {y \<in> entries t. fst y \<noteq> k}" "inj_on fst (entries t)"
  using assms unfolding llrb_ok_def by blast+

text \<open>
  The elements of the tree are fragments under their own timeout, sent for the client that owns their message;
  the fragments of a message know their message.
\<close>

definition timeouts_ok :: "(int \<times> nat) set \<Rightarrow> ('t, 'h) W \<Rightarrow> bool" where
  "timeouts_ok E w \<longleftrightarrow> (\<forall>(t, f) \<in> E. f_Timeout (w_frags w f) = t \<and>
     (\<exists>m c. f_Peer (w_frags w f) = Some m \<and> f_Owner (w_frags w f) = Some c \<and> m_Owner (w_msgs w m) = Some c)) \<and>
     (\<forall>m. \<forall>f \<in> snd ` set (m_Body (w_msgs w m)). f_Peer (w_frags w f) = Some m)"

abbreviation pending :: "('t \<Rightarrow> (int \<times> nat) set) \<Rightarrow> ('t, 'h) W \<Rightarrow> (int \<times> nat) set" where
  "pending entries w \<equiv> entries (w_timeoutTree w)"

section \<open>One message times out\<close>

lemma expire_frags_form:
  "\<exists>fs. expire_frags body w = w\<lparr>w_frags := fs\<rparr> \<and>
     (\<forall>f. if f \<in> snd ` set body \<and> \<not> f_Done (w_frags w f)
          then fs f = (w_frags w f)\<lparr>f_Error := ErrMsgRequestTimeout, f_Done := True\<rparr> else fs f = w_frags w f)"
proof (induction body arbitrary: w)
  case Nil
  have "w = w\<lparr>w_frags := w_frags w\<rparr>" by simp
  then show ?case by (intro exI [of _ "w_frags w"]) simp
next
  case (Cons x body)
  obtain s g where x: "x = (s, g)" by fastforce
  define w1 where "w1 = (if f_Done (w_frags w g) then w else upd_frag g (\<lambda>x. x\<lparr>f_Error := ErrMsgRequestTimeout, f_Done := True\<rparr>) w)"
  from Cons.IH [of w1] obtain fs where fs: "expire_frags body w1 = w1\<lparr>w_frags := fs\<rparr>"
    "\<forall>f. if f \<in> snd ` set body \<and> \<not> f_Done (w_frags w1 f)
          then fs f = (w_frags w1 f)\<lparr>f_Error := ErrMsgRequestTimeout, f_Done := True\<rparr> else fs f = w_frags w1 f" by blast
  have "w1\<lparr>w_frags := fs\<rparr> = w\<lparr>w_frags := fs\<rparr>" by (simp add: w1_def upd_frag_def)
  moreover have "w_frags w1 f = (if f = g \<and> \<not> f_Done (w_frags w g) then (w_frags w f)\<lparr>f_Error := ErrMsgRequestTimeout, f_Done := True\<rparr> else w_frags w f)" for f
    by (simp add: w1_def upd_frag_def)
  ultimately show ?case using fs x by (intro exI [of _ fs]) (auto simp: w1_def split: if_splits)
qed

text \<open>The step of the loop for the expired fragment \<open>f\<close> of the message \<open>m\<close>, up to the answer.\<close>

definition expire :: "nat \<Rightarrow> nat \<Rightarrow> ('t, 'h) W \<Rightarrow> ('t, 'h) W" where
  "expire f m w = upd_msg m (\<lambda>x. x\<lparr>m_Error := ErrMsgRequestTimeout\<rparr>)
     (expire_frags (m_Body (w_msgs (deleteFromTimeoutQueue f w) m)) (deleteFromTimeoutQueue f w))"

text \<open>What a round of the loop leaves of the rest of the state.\<close>

definition steady :: "('t, 'h) W \<Rightarrow> ('t, 'h) W \<Rightarrow> bool" where
  "steady w w' \<longleftrightarrow> w_conns w' = w_conns w \<and> w_now w' = w_now w \<and> w_llrb w' = w_llrb w \<and>
     (\<forall>m. m_Owner (w_msgs w' m) = m_Owner (w_msgs w m) \<and> m_Body (w_msgs w' m) = m_Body (w_msgs w m)) \<and>
     (\<forall>f. f_Peer (w_frags w' f) = f_Peer (w_frags w f) \<and> f_Owner (w_frags w' f) = f_Owner (w_frags w f) \<and>
        f_Timeout (w_frags w' f) = f_Timeout (w_frags w f) \<and> (f_Done (w_frags w f) \<longrightarrow> f_Done (w_frags w' f)))"

lemma steady_refl: "steady w w"
  by (simp add: steady_def)

lemma steady_trans: "steady w1 w2 \<Longrightarrow> steady w2 w3 \<Longrightarrow> steady w1 w3"
  by (simp add: steady_def)

lemma steady_ok: "steady w w' \<Longrightarrow> timeouts_ok E w \<Longrightarrow> E' \<subseteq> E \<Longrightarrow> timeouts_ok E' w'"
  unfolding timeouts_ok_def steady_def by (auto simp: subset_iff split_beta) (metis fst_conv snd_conv)+

lemma steady_delete: "steady w (deleteFromTimeoutQueue f w)"
  by (simp add: steady_def deleteFromTimeoutQueue_def)

lemma expire_form:
  "steady w (expire f m w) \<and> w_timeoutTree (expire f m w) = lr_Delete (w_llrb w) (f_Timeout (w_frags w f)) (w_timeoutTree w) \<and>
   w_tasks (expire f m w) = w_tasks w \<and>
   (\<forall>g. f_Done (w_frags (expire f m w) g) \<longleftrightarrow> f_Done (w_frags w g) \<or> g \<in> snd ` set (m_Body (w_msgs w m)))"
proof -
  let ?w = "deleteFromTimeoutQueue f w"
  from expire_frags_form [of "m_Body (w_msgs w m)" ?w] obtain fs where
    fs: "expire_frags (m_Body (w_msgs w m)) ?w = ?w\<lparr>w_frags := fs\<rparr>"
    "\<forall>g. if g \<in> snd ` set (m_Body (w_msgs w m)) \<and> \<not> f_Done (w_frags w g)
          then fs g = (w_frags w g)\<lparr>f_Error := ErrMsgRequestTimeout, f_Done := True\<rparr> else fs g = w_frags w g"
    by (auto simp: deleteFromTimeoutQueue_def)
  have g: "f_Peer (fs g) = f_Peer (w_frags w g)" "f_Owner (fs g) = f_Owner (w_frags w g)" "f_Timeout (fs g) = f_Timeout (w_frags w g)"
    "f_Done (fs g) \<longleftrightarrow> f_Done (w_frags w g) \<or> g \<in> snd ` set (m_Body (w_msgs w m))" for g
    using fs(2) [rule_format, of g] by (auto split: if_splits)
  have "expire f m w = upd_msg m (\<lambda>x. x\<lparr>m_Error := ErrMsgRequestTimeout\<rparr>) (?w\<lparr>w_frags := fs\<rparr>)"
    using fs(1) by (simp add: expire_def deleteFromTimeoutQueue_def)
  with g show ?thesis by (simp add: steady_def upd_msg_def deleteFromTimeoutQueue_def)
qed

section \<open>The loop\<close>

definition timeout_answers :: "nat list \<Rightarrow> task list" where
  "timeout_answers cs = map (\<lambda>c. AsyncWrite c ErrMsgRequestTimeout) cs"

definition overdue :: "('t \<Rightarrow> (int \<times> nat) set) \<Rightarrow> ('t, 'h) W \<Rightarrow> nat set" where
  "overdue entries w = {f. \<exists>t. (t, f) \<in> pending entries w \<and> t \<le> w_now w \<and> \<not> f_Done (w_frags w f)}"

text \<open>The clients that wait for an overdue fragment and are still connected.\<close>

definition waiting_clients :: "('t \<Rightarrow> (int \<times> nat) set) \<Rightarrow> ('t, 'h) W \<Rightarrow> nat set" where
  "waiting_clients entries w = {c. c_opened (w_conns w c) \<and> (\<exists>f \<in> overdue entries w. f_Owner (w_frags w f) = Some c)}"

definition timed_out :: "('t \<Rightarrow> (int \<times> nat) set) \<Rightarrow> ('t, 'h) W \<Rightarrow> ('t, 'h) W \<Rightarrow> bool" where
  "timed_out entries w w' \<longleftrightarrow> steady w w' \<and> pending entries w' \<subseteq> pending entries w \<and>
     (\<forall>(t, f) \<in> pending entries w'. w_now w < t) \<and>
     (\<forall>(t, f) \<in> pending entries w. w_now w < t \<longrightarrow> (t, f) \<in> pending entries w' \<or> f_Done (w_frags w' f)) \<and>
     (\<exists>cs. w_tasks w' = w_tasks w @ timeout_answers cs \<and> set cs = waiting_clients entries w)"

lemma timed_out_stop:
  assumes "llrb_ok (w_llrb w) entries" "lr_Min (w_llrb w) (w_timeoutTree w) = None \<or>
    (\<exists>x. lr_Min (w_llrb w) (w_timeoutTree w) = Some x \<and> w_now w < fst x)"
  shows "timed_out entries w w"
proof -
  have late: "w_now w < t" if "(t, f) \<in> pending entries w" for t f
    using assms(2) that llrb_okD(2,4) [OF assms(1)] by fastforce
  then have "waiting_clients entries w = {}" by (fastforce simp: waiting_clients_def overdue_def)
  then show ?thesis using late by (auto simp: timed_out_def steady_refl timeout_answers_def intro: exI [of _ "[]"])
qed

text \<open>A step takes the fragments \<open>D\<close> off the tree or marks them done, and answers the clients \<open>cs\<close>.\<close>

lemma timed_out_step:
  assumes "steady w w1" "pending entries w1 \<subseteq> pending entries w" "w_tasks w1 = w_tasks w @ timeout_answers cs"
    "\<And>t f. (t, f) \<in> pending entries w \<Longrightarrow> (t, f) \<notin> pending entries w1 \<Longrightarrow> w_now w < t \<Longrightarrow> f_Done (w_frags w1 f)"
    "waiting_clients entries w = set cs \<union> waiting_clients entries w1" "timed_out entries w1 w'"
  shows "timed_out entries w w'"
proof -
  from assms(6) obtain ds where t: "steady w1 w'" "pending entries w' \<subseteq> pending entries w1" "\<forall>(t, f) \<in> pending entries w'. w_now w1 < t"
    "\<forall>(t, f) \<in> pending entries w1. w_now w1 < t \<longrightarrow> (t, f) \<in> pending entries w' \<or> f_Done (w_frags w' f)"
    "w_tasks w' = w_tasks w1 @ timeout_answers ds" "set ds = waiting_clients entries w1" by (auto simp: timed_out_def)
  have now: "w_now w1 = w_now w" using assms(1) by (simp add: steady_def)
  have done_up: "f_Done (w_frags w1 f) \<Longrightarrow> f_Done (w_frags w' f)" for f using t(1) by (simp add: steady_def)
  have "w_tasks w' = w_tasks w @ timeout_answers (cs @ ds)" "set (cs @ ds) = waiting_clients entries w"
    using assms(3,5) t(5,6) by (simp_all add: timeout_answers_def)
  moreover have "(t, f) \<in> pending entries w' \<or> f_Done (w_frags w' f)" if "(t, f) \<in> pending entries w" "w_now w < t" for t f
    using t(4) assms(4) [OF that(1) _ that(2)] done_up that(2) now by (cases "(t, f) \<in> pending entries w1") auto
  ultimately show ?thesis
    using steady_trans [OF assms(1) t(1)] assms(2) t(2,3) now unfolding timed_out_def by (auto simp del: set_append)
qed

lemma waiting_expired:
  assumes "steady w w1" "(t, f) \<in> pending entries w" "t \<le> w_now w" "\<not> f_Done (w_frags w f)"
    "f_Owner (w_frags w f) = Some c" "m_Owner (w_msgs w m) = Some c" "timeouts_ok (pending entries w) w"
    "pending entries w1 = {y \<in> pending entries w. fst y \<noteq> t}" "\<And>s g. (s, g) \<in> pending entries w \<Longrightarrow> s = t \<Longrightarrow> g = f"
    "\<And>g. f_Done (w_frags w1 g) \<longleftrightarrow> f_Done (w_frags w g) \<or> g \<in> snd ` set (m_Body (w_msgs w m))"
  shows "waiting_clients entries w = set (if c_opened (w_conns w c) then [c] else []) \<union> waiting_clients entries w1"
proof (intro set_eqI iffI)
  have st: "w_conns w1 = w_conns w" "w_now w1 = w_now w" "\<And>g. f_Owner (w_frags w1 g) = f_Owner (w_frags w g)"
    using assms(1) by (simp_all add: steady_def)
  fix d
  {
    assume "d \<in> waiting_clients entries w"
    then obtain s g where g: "c_opened (w_conns w d)" "(s, g) \<in> pending entries w" "s \<le> w_now w" "\<not> f_Done (w_frags w g)" "f_Owner (w_frags w g) = Some d"
      by (auto simp: waiting_clients_def overdue_def)
    show "d \<in> set (if c_opened (w_conns w c) then [c] else []) \<union> waiting_clients entries w1"
    proof (cases "s \<noteq> t \<and> g \<notin> snd ` set (m_Body (w_msgs w m))")
      case True
      then have "g \<in> overdue entries w1" using g assms(8,10) st by (auto simp: overdue_def)
      then have "d \<in> waiting_clients entries w1" using g st by (auto simp: waiting_clients_def)
      then show ?thesis by blast
    next
      case False
      have "d = c"
      proof (cases "s = t")
        case True
        then show ?thesis using assms(5,9) g by auto
      next
        case other: False
        then have "f_Peer (w_frags w g) = Some m" using False assms(7) by (auto simp: timeouts_ok_def)
        moreover have "\<exists>m c. f_Peer (w_frags w g) = Some m \<and> f_Owner (w_frags w g) = Some c \<and> m_Owner (w_msgs w m) = Some c"
          using assms(7) g(2) unfolding timeouts_ok_def by blast
        ultimately show ?thesis using g(5) assms(6) by auto
      qed
      then show ?thesis using g(1) by simp
    qed
  next
    assume "d \<in> set (if c_opened (w_conns w c) then [c] else []) \<union> waiting_clients entries w1"
    moreover have "f \<in> overdue entries w" using assms(2-4) by (auto simp: overdue_def)
    moreover have "overdue entries w1 \<subseteq> overdue entries w" using assms(8,10) st by (auto simp: overdue_def)
    ultimately show "d \<in> waiting_clients entries w" using assms(5) st by (auto simp: waiting_clients_def split: if_splits)
  }
qed

lemma msgTimeout_runs:
  "llrb_ok (w_llrb w) entries \<Longrightarrow> timeouts_ok (pending entries w) w \<Longrightarrow> \<exists>w'. msgTimeout w = Some w' \<and> timed_out entries w w'"
proof (induction "card (pending entries w)" arbitrary: w rule: less_induct)
  case less
  note laws = llrb_okD [OF less.prems(1)]
  show ?case
  proof (cases "lr_Min (w_llrb w) (w_timeoutTree w)")
    case None
    then show ?thesis using timed_out_stop [OF less.prems(1)]
      by (auto simp: msgTimeout.simps [of w] getFromTimeoutQueue_def)
  next
    case (Some x)
    obtain t f where x: "x = (t, f)" by fastforce
    have mem: "(t, f) \<in> pending entries w" and least: "\<And>s g. (s, g) \<in> pending entries w \<Longrightarrow> t \<le> s"
      using laws(3,4) [OF Some] x by fastforce+
    from mem less.prems(2) obtain m c where f: "f_Timeout (w_frags w f) = t" "f_Peer (w_frags w f) = Some m"
      "f_Owner (w_frags w f) = Some c" "m_Owner (w_msgs w m) = Some c" by (fastforce simp: timeouts_ok_def)
    have get: "getFromTimeoutQueue w = Some f" using Some x by (simp add: getFromTimeoutQueue_def)
    have rec: "\<exists>w'. msgTimeout w1 = Some w' \<and> timed_out entries w1 w'"
      if "steady w w1" "pending entries w1 = {y \<in> pending entries w. fst y \<noteq> t}" for w1
    proof (rule less.hyps)
      show "card (pending entries w1) < card (pending entries w)" unfolding that(2)
      proof (rule psubset_card_mono [OF laws(1)])
        have "(t, f) \<notin> {y \<in> pending entries w. fst y \<noteq> t}" by simp
        with mem show "{y \<in> pending entries w. fst y \<noteq> t} \<subset> pending entries w" by blast
      qed
      show "llrb_ok (w_llrb w1) entries" using that(1) less.prems(1) by (simp add: steady_def)
      show "timeouts_ok (pending entries w1) w1" by (rule steady_ok [OF that(1) less.prems(2)]) (auto simp: that(2))
    qed
    have same: "g = f" if "(s, g) \<in> pending entries w" "s = t" for s g
      using inj_onD [OF laws(6) _ that(1) mem] that(2) by simp
    consider (fin) "f_Done (w_frags w f)" | (early) "\<not> f_Done (w_frags w f)" "w_now w < t" | (late) "\<not> f_Done (w_frags w f)" "t \<le> w_now w"
      by fastforce
    then show ?thesis
    proof cases
      case fin
      let ?w = "deleteFromTimeoutQueue f w"
      have p: "pending entries ?w = {y \<in> pending entries w. fst y \<noteq> t}" using laws(5) f(1) by (simp add: deleteFromTimeoutQueue_def)
      obtain w' where w': "msgTimeout ?w = Some w'" "timed_out entries ?w w'" using rec [OF steady_delete p] by blast
      have fr: "w_frags ?w = w_frags w" "w_tasks ?w = w_tasks w" "w_now ?w = w_now w" "w_conns ?w = w_conns w"
        by (simp_all add: deleteFromTimeoutQueue_def)
      have "timed_out entries w w'"
      proof (rule timed_out_step [OF steady_delete _ _ _ _ w'(2), of "[]"])
        show "f_Done (w_frags ?w g)" if "(s, g) \<in> pending entries w" "(s, g) \<notin> pending entries ?w" for s g
          using that p same fin fr by auto
        have "overdue entries ?w = overdue entries w" unfolding overdue_def p fr using same fin by auto
        then show "waiting_clients entries w = set [] \<union> waiting_clients entries ?w" by (simp add: waiting_clients_def fr)
      qed (auto simp: p fr timeout_answers_def)
      then show ?thesis using w'(1) get fin by (simp add: msgTimeout.simps [of w])
    next
      case early
      then have "msgTimeout w = Some w" using get f(1) by (simp add: msgTimeout.simps [of w])
      moreover have "timed_out entries w w" by (rule timed_out_stop [OF less.prems(1)]) (use Some x early in auto)
      ultimately show ?thesis by blast
    next
      case late
      define cs where "cs = (if c_opened (w_conns w c) then [c] else [])"
      define w1 where "w1 = (expire f m w)\<lparr>w_tasks := w_tasks w @ timeout_answers cs\<rparr>"
      note ex = expire_form [of w f m]
      have st: "steady w w1" using ex by (simp add: w1_def steady_def)
      have p: "pending entries w1 = {y \<in> pending entries w. fst y \<noteq> t}" using laws(5) f(1) ex by (simp add: w1_def)
      have dn: "f_Done (w_frags w1 g) \<longleftrightarrow> f_Done (w_frags w g) \<or> g \<in> snd ` set (m_Body (w_msgs w m))" for g using ex by (simp add: w1_def)
      obtain w' where w': "msgTimeout w1 = Some w'" "timed_out entries w1 w'" using rec [OF st p] by blast
      have eq: "msgTimeout w = msgTimeout w1"
      proof -
        let ?e = "expire f m w"
        have e: "f_Owner (w_frags ?e f) = Some c" "w_conns ?e = w_conns w" "w_tasks ?e = w_tasks w" using ex f(3) by (simp_all add: steady_def)
        have "f_Peer (w_frags (deleteFromTimeoutQueue f w) f) = Some m" using f(2) by (simp add: deleteFromTimeoutQueue_def)
        then have "msgTimeout w = (if c_opened (w_conns ?e c) then msgTimeout (conn_AsyncWrite c ErrMsgRequestTimeout ?e) else msgTimeout ?e)"
          using get late f(1) e(1) unfolding expire_def by (simp add: msgTimeout.simps [of w] Let_def)
        moreover have "w1 = (if c_opened (w_conns w c) then conn_AsyncWrite c ErrMsgRequestTimeout ?e else ?e)"
          by (simp add: w1_def cs_def timeout_answers_def conn_AsyncWrite_def Trigger_def e(3) flip: e(3))
        ultimately show ?thesis using e(1,2) by simp
      qed
      have "timed_out entries w w'"
      proof (rule timed_out_step [OF st _ _ _ _ w'(2), of cs])
        show "f_Done (w_frags w1 g)" if "(s, g) \<in> pending entries w" "(s, g) \<notin> pending entries w1" "w_now w < s" for s g
          using that p late by auto
        show "waiting_clients entries w = set cs \<union> waiting_clients entries w1"
          unfolding cs_def by (rule waiting_expired [OF st mem late(2,1) f(3,4) less.prems(2) p same dn])
        show "pending entries w1 \<subseteq> pending entries w" unfolding p by blast
        show "w_tasks w1 = w_tasks w @ timeout_answers cs" by (simp add: w1_def)
      qed
      with eq w'(1) show ?thesis by simp
    qed
  qed
qed

section \<open>Stated property\<close>


text \<open>An instance of the tree: an association list from timeouts to fragments.\<close>

definition alist_entries :: "(int \<times> nat) list \<Rightarrow> (int \<times> nat) set" where
  "alist_entries xs = {(k, v). map_of xs k = Some v}"

definition alist_min :: "(int \<times> nat) list \<Rightarrow> (int \<times> nat) option" where
  "alist_min xs = (if xs = [] then None else (let k = Min (fst ` set xs) in map_option (Pair k) (map_of xs k)))"

definition alist_llrb :: "(int \<times> nat) list llrb" where
  "alist_llrb = \<lparr>lr_ReplaceOrInsert = (\<lambda>x xs. x # xs), lr_Delete = (\<lambda>k. filter (\<lambda>x. fst x \<noteq> k)),
     lr_DeleteMin = (\<lambda>xs. (alist_min xs, case alist_min xs of None \<Rightarrow> xs | Some x \<Rightarrow> filter (\<lambda>y. fst y \<noteq> fst x) xs)),
     lr_Min = alist_min\<rparr>"

lemma map_of_filter_key: "map_of (filter (\<lambda>x. fst x \<noteq> k) xs) j = (if j = k then None else map_of xs j)"
  by (induction xs) auto

lemma alist_min_Some: "xs \<noteq> [] \<Longrightarrow> \<exists>k v. alist_min xs = Some (k, v) \<and> map_of xs k = Some v \<and> (\<forall>j u. map_of xs j = Some u \<longrightarrow> k \<le> j)"
proof -
  assume ne: "xs \<noteq> []"
  let ?k = "Min (fst ` set xs)"
  have "?k \<in> fst ` set xs" using ne by (intro Min_in) auto
  then obtain v where "map_of xs ?k = Some v" by (metis map_of_eq_None_iff not_Some_eq)
  moreover have "?k \<le> j" if "map_of xs j = Some u" for j u using map_of_SomeD [OF that] by (force intro: Min_le)
  ultimately show ?thesis using ne by (auto simp: alist_min_def Let_def)
qed

lemma alist_llrb_ok: "llrb_ok alist_llrb alist_entries"
proof -
  have "finite (alist_entries xs)" for xs
  proof (rule finite_subset)
    show "alist_entries xs \<subseteq> set xs" by (auto simp: alist_entries_def dest: map_of_SomeD)
  qed simp
  moreover have "inj_on fst (alist_entries xs)" for xs by (auto simp: inj_on_def alist_entries_def)
  moreover have "(alist_min xs = None) = (alist_entries xs = {})" for xs
    using alist_min_Some [of xs] by (cases "xs = []") (auto simp: alist_min_def alist_entries_def)
  moreover have "x \<in> alist_entries xs \<and> (\<forall>y \<in> alist_entries xs. fst x \<le> fst y)" if "alist_min xs = Some x" for xs x
    using that alist_min_Some [of xs] by (cases "xs = []") (auto simp: alist_min_def alist_entries_def)
  moreover have "alist_entries (filter (\<lambda>x. fst x \<noteq> k) xs) = {y \<in> alist_entries xs. fst y \<noteq> k}" for k xs
    by (auto simp: alist_entries_def map_of_filter_key split: if_splits)
  moreover have "alist_entries (x # xs) = insert x {y \<in> alist_entries xs. fst y \<noteq> fst x}" for x xs
    by (cases x) (auto simp: alist_entries_def split: if_splits)
  ultimately show ?thesis unfolding llrb_ok_def by (simp add: alist_llrb_def)
qed

text \<open>A client whose request to slot 5 has timed out at time 6; it is 7 now.\<close>

definition late_world :: "((int \<times> nat) list, (string \<times> ClusterNode) list) world" where
  "late_world = (client_world [])\<lparr>w_llrb := alist_llrb, w_timeoutTree := [(6, 1)],
     w_msgs := (\<lambda>m. new_Msg\<lparr>m_Owner := Some 0, m_Body := if m = 3 then [(5, 1)] else []\<rparr>),
     w_frags := (\<lambda>f. new_Frag\<lparr>f_Id := f, f_Timeout := 6, f_Peer := Some 3, f_Owner := Some 0\<rparr>)\<rparr>"


end
