(* ===== verification/Engine.thy ===== *)
theory Engine
  imports Proxy_Invariant
begin

text \<open>
  Starting the proxy: the options of \<^verbatim>\<open>src/core/options.go\<close>, \<open>Run\<close> of \<^verbatim>\<open>src/core/gnet.go\<close>,
  \<open>serve\<close> and \<open>start\<close> of \<^verbatim>\<open>src/core/engine.go\<close>, the event list of
  \<^verbatim>\<open>src/core/internal/netpoll/epoll_events.go\<close> and the web view of the cluster,
  \<^verbatim>\<open>src/web/cluster.go\<close>.

  Whether the listener, the poller and its registration could be set up is an argument. The goroutines that are
  started at the end are the event loop (\<open>Event_Loop\<close>) and the loop over the cluster state (\<open>Cluster\<close>).
\<close>

section \<open>Options\<close>

record Options =
  o_ReadBufferCap :: int
  o_WriteBufferCap :: int
  o_TCPKeepAlive :: int
  o_SocketRecvBuffer :: int
  o_SocketSendBuffer :: int
  o_RedisServers :: string
  o_RedisMsgMaxLength :: int
  o_RedisConnectionTimeout :: int
  o_RedisRequestTimeout :: int
  o_RedisServerConnections :: int
  o_RedisPasswd :: string
  o_RedisPreconnect :: bool
  o_RedisSlowlogSlowerThan :: int

definition new_Options :: Options where
  "new_Options = \<lparr>o_ReadBufferCap = 0, o_WriteBufferCap = 0, o_TCPKeepAlive = 0, o_SocketRecvBuffer = 0,
     o_SocketSendBuffer = 0, o_RedisServers = [], o_RedisMsgMaxLength = 0, o_RedisConnectionTimeout = 0,
     o_RedisRequestTimeout = 0, o_RedisServerConnections = 0, o_RedisPasswd = [], o_RedisPreconnect = False,
     o_RedisSlowlogSlowerThan = 0\<rparr>"

definition core_loadOptions :: "(Options \<Rightarrow> Options) list \<Rightarrow> Options" where
  "core_loadOptions options = fold (\<lambda>option opts. option opts) options new_Options"

definition WithTCPKeepAlive :: "int \<Rightarrow> Options \<Rightarrow> Options" where
  "WithTCPKeepAlive tcpKeepAlive opts = opts\<lparr>o_TCPKeepAlive := tcpKeepAlive\<rparr>"

definition WithSocketRecvBuffer :: "int \<Rightarrow> Options \<Rightarrow> Options" where
  "WithSocketRecvBuffer recvBuf opts = opts\<lparr>o_SocketRecvBuffer := recvBuf\<rparr>"

definition WithSocketSendBuffer :: "int \<Rightarrow> Options \<Rightarrow> Options" where
  "WithSocketSendBuffer sendBuf opts = opts\<lparr>o_SocketSendBuffer := sendBuf\<rparr>"

definition WithRedisServers :: "string \<Rightarrow> Options \<Rightarrow> Options" where
  "WithRedisServers addrs opts = opts\<lparr>o_RedisServers := addrs\<rparr>"

definition WithRedisMsgMaxLength :: "int \<Rightarrow> Options \<Rightarrow> Options" where
  "WithRedisMsgMaxLength l opts = opts\<lparr>o_RedisMsgMaxLength := l\<rparr>"

definition WithRedisPasswd :: "string \<Rightarrow> Options \<Rightarrow> Options" where
  "WithRedisPasswd passwd opts = opts\<lparr>o_RedisPasswd := passwd\<rparr>"

definition WithRedisPreconnect :: "bool \<Rightarrow> Options \<Rightarrow> Options" where
  "WithRedisPreconnect preconnect opts = opts\<lparr>o_RedisPreconnect := preconnect\<rparr>"

definition WithRedisConnectTimeout :: "int \<Rightarrow> Options \<Rightarrow> Options" where
  "WithRedisConnectTimeout num opts = opts\<lparr>o_RedisConnectionTimeout := num\<rparr>"

definition WithRedisRequestTimeout :: "int \<Rightarrow> Options \<Rightarrow> Options" where
  "WithRedisRequestTimeout timeout opts = opts\<lparr>o_RedisRequestTimeout := timeout\<rparr>"

definition WithRedisServerConnections :: "int \<Rightarrow> Options \<Rightarrow> Options" where
  "WithRedisServerConnections num opts = opts\<lparr>o_RedisServerConnections := num\<rparr>"

definition WithSlowlogSlowerThan :: "int \<Rightarrow> Options \<Rightarrow> Options" where
  "WithSlowlogSlowerThan num opts = opts\<lparr>o_RedisSlowlogSlowerThan := num\<rparr>"

section \<open>Starting\<close>

definition MaxStreamBufferCap :: int where "MaxStreamBufferCap = 64 * 1024"

definition run_defaults :: "Options \<Rightarrow> Options" where
  "run_defaults options =
     (let options = options\<lparr>o_ReadBufferCap := MaxStreamBufferCap, o_WriteBufferCap := MaxStreamBufferCap\<rparr>;
          options = (if o_RedisMsgMaxLength options < 1 then options\<lparr>o_RedisMsgMaxLength := 6 * 1024 * 1024\<rparr> else options);
          options = (if o_RedisServerConnections options < 1 then options\<lparr>o_RedisServerConnections := 1\<rparr> else options)
      in if o_RedisConnectionTimeout options < 1 then options\<lparr>o_RedisConnectionTimeout := 200\<rparr> else options)"

definition parseProtoAddr :: "string \<Rightarrow> (string \<times> string) go" where
  "parseProtoAddr addr =
     (let address = ToLower addr in
      if Contains address ''://''
      then (let pair = Split address ''://'' in
            do { network \<leftarrow> idx pair 0; address \<leftarrow> idx pair 1; Some (network, address) })
      else Some (''tcp'', address))"

text \<open>What the engine keeps of its options.\<close>

definition engine_config :: "Options \<Rightarrow> config \<Rightarrow> config" where
  "engine_config opts cfg = cfg\<lparr>g_WriteBufferCap := o_WriteBufferCap opts, g_MsgMaxLength := o_RedisMsgMaxLength opts,
     g_RedisRequestTimeout := o_RedisRequestTimeout opts, g_RedisServerConnections := o_RedisServerConnections opts,
     g_RedisPasswd := o_RedisPasswd opts\<rparr>"

fun boot_pools :: "string list \<Rightarrow> ('t, 'h) W \<Rightarrow> ('t, 'h) W" where
  "boot_pools [] w = w"
| "boot_pools (addr # addrs) w =
     boot_pools addrs (w\<lparr>w_ProxyPool := AList.update addr (newPool addr False (w_cfg w)) (w_ProxyPool w),
       w_ProxyAddrs := w_ProxyAddrs w @ [addr]\<rparr>)"

text \<open>\<open>start\<close>, up to the start of the event loop: the result tells the address of a redis node that cannot be reached.\<close>

fun preconnect :: "string list \<Rightarrow> ('t, 'h) W \<Rightarrow> (('t, 'h) W \<times> string option) go" where
  "preconnect [] w = Some (w, None)"
| "preconnect (addr # addrs) w = do {
     (w, s) \<leftarrow> pool_Get addr w;
     (case s of None \<Rightarrow> Some (w, Some addr) | Some _ \<Rightarrow> preconnect addrs w)
   }"

datatype start_err = PollerError | PreconnectFailed string

text \<open>\<open>listening\<close>: the poller could be opened and the listener was added to it. The flag of the result tells whether \<open>eng.el\<close> is set.\<close>

definition engine_start :: "bool \<Rightarrow> Options \<Rightarrow> ('t, 'h) W \<Rightarrow> (('t, 'h) W \<times> bool \<times> start_err option) go" where
  "engine_start listening options w =
     (if \<not> listening then Some (w, False, Some PollerError)
      else if o_RedisPreconnect options then do {
        (w, failed) \<leftarrow> preconnect (map fst (w_ProxyPool w)) w;
        Some (w, True, map_option PreconnectFailed failed)
      }
      else Some (w, True, None))"

text \<open>After a failed \<open>start\<close>, \<open>closeEventLoops\<close> reads \<open>eng.el\<close>: a panic when it is nil.\<close>

definition serve :: "bool \<Rightarrow> Options \<Rightarrow> ('t, 'h) W \<Rightarrow> (('t, 'h) W \<times> start_err option) go" where
  "serve listening options w =
     (let w = w\<lparr>w_cfg := engine_config options (w_cfg w), w_ProxyPool := [], w_ProxyAddrs := [], w_clusterChan := []\<rparr>;
          serverList = Split (o_RedisServers options) '',''
      in if length serverList < 1 then Some (w, None)
      else case OnBoot w of (w, action) \<Rightarrow>
        if action = Shutdown then Some (w, None)
        else do {
          (w, el, err) \<leftarrow> engine_start listening options (boot_pools serverList w);
          (if err \<noteq> None \<and> \<not> el then None else Some (w, err))
        })"

section \<open>The event list\<close>

definition InitPollEventsCap :: int where "InitPollEventsCap = 128"
definition MaxPollEventsCap :: int where "MaxPollEventsCap = 1024"
definition MinPollEventsCap :: int where "MinPollEventsCap = 32"

text \<open>The size of the list; its elements are only filled by the kernel.\<close>

definition el_expand :: "int \<Rightarrow> int" where
  "el_expand sz = (let newSize = sz * 2 in if newSize \<le> MaxPollEventsCap then newSize else sz)"

definition el_shrink :: "int \<Rightarrow> int" where
  "el_shrink sz = (let newSize = sz div 2 in if newSize \<ge> MinPollEventsCap then newSize else sz)"

definition el_resize :: "int \<Rightarrow> int \<Rightarrow> int" where
  "el_resize n sz = (if n = sz then el_expand sz else if n < sz div 2 then el_shrink sz else sz)"

section \<open>The web view of the cluster\<close>

record ClusterNodeRes =
  cr_ClusterNode :: ClusterNode
  cr_Slavers :: "ClusterNode list"

definition HandleClusters :: "ClusterNode list \<Rightarrow> ClusterNodeRes list" where
  "HandleClusters clusterNodes =
     fold (\<lambda>node res. if n_Role node = Slave
             then map (\<lambda>mNode. if n_MasterId node = n_Name (cr_ClusterNode mNode)
                               then mNode\<lparr>cr_Slavers := cr_Slavers mNode @ [node]\<rparr> else mNode) res
             else res) clusterNodes
       (map (\<lambda>node. \<lparr>cr_ClusterNode = node, cr_Slavers = []\<rparr>) (filter (\<lambda>node. n_Role node = Master) clusterNodes))"

section \<open>Properties\<close>

lemma run_defaults_bounds:
  "1 \<le> o_RedisMsgMaxLength (run_defaults opts)" "1 \<le> o_RedisServerConnections (run_defaults opts)"
  "1 \<le> o_RedisConnectionTimeout (run_defaults opts)" "o_WriteBufferCap (run_defaults opts) = 65536"
  by (simp_all add: run_defaults_def Let_def MaxStreamBufferCap_def)

lemma el_resize_size:
  assumes "sz \<in> {32, 64, 128, 256, 512, 1024}"
  shows "el_resize n sz \<in> {32, 64, 128, 256, 512, 1024}"
  using assms by (auto simp: el_resize_def el_expand_def el_shrink_def Let_def MaxPollEventsCap_def MinPollEventsCap_def)

lemma HandleClusters_fold:
  "fold (\<lambda>node res. if n_Role node = Slave
             then map (\<lambda>mNode. if n_MasterId node = n_Name (cr_ClusterNode mNode)
                               then mNode\<lparr>cr_Slavers := cr_Slavers mNode @ [node]\<rparr> else mNode) res
             else res) ns res =
   map (\<lambda>r. r\<lparr>cr_Slavers := cr_Slavers r @ filter (\<lambda>n. n_Role n = Slave \<and> n_MasterId n = n_Name (cr_ClusterNode r)) ns\<rparr>) res"
  by (induction ns arbitrary: res) (simp_all add: comp_def)

lemma HandleClusters_masters:
  "HandleClusters ns = map (\<lambda>m. \<lparr>cr_ClusterNode = m, cr_Slavers = filter (\<lambda>n. n_Role n = Slave \<and> n_MasterId n = n_Name m) ns\<rparr>)
     (filter (\<lambda>n. n_Role n = Master) ns)"
  unfolding HandleClusters_def HandleClusters_fold by simp

lemma preconnect_ok:
  "ready w \<Longrightarrow> set addrs \<subseteq> set (map fst (w_ProxyPool w)) \<Longrightarrow> \<exists>w' r. preconnect addrs w = Some (w', r) \<and> supplied w w'"
proof (induction addrs arbitrary: w)
  case Nil
  then show ?case by (simp add: supplied_refl)
next
  case (Cons addr addrs)
  from pool_Get_supplied [OF Cons.prems(1), of addr] Cons.prems(2) obtain w1 r where
    g: "pool_Get addr w = Some (w1, r)" "supplied w w1" by auto
  have "ready w1" "set addrs \<subseteq> set (map fst (w_ProxyPool w1))" using g(2) Cons.prems(2) by (simp_all add: supplied_def)
  from Cons.IH [OF this] obtain w2 r2 where "preconnect addrs w1 = Some (w2, r2)" "supplied w1 w2" by blast
  with g supplied_trans [OF g(2)] show ?case by (cases r) auto
qed

lemma boot_pools_form:
  "\<exists>ps. boot_pools addrs w = w\<lparr>w_ProxyPool := ps, w_ProxyAddrs := w_ProxyAddrs w @ addrs\<rparr> \<and>
     (\<forall>a. map_of ps a = (if a \<in> set addrs then Some (newPool a False (w_cfg w)) else map_of (w_ProxyPool w) a))"
proof (induction addrs arbitrary: w)
  case Nil
  have "w = w\<lparr>w_ProxyPool := w_ProxyPool w, w_ProxyAddrs := w_ProxyAddrs w\<rparr>" by simp
  then show ?case by (intro exI [of _ "w_ProxyPool w"]) simp
next
  case (Cons a addrs)
  let ?w = "w\<lparr>w_ProxyPool := AList.update a (newPool a False (w_cfg w)) (w_ProxyPool w), w_ProxyAddrs := w_ProxyAddrs w @ [a]\<rparr>"
  from Cons.IH [of ?w] obtain ps where ps: "boot_pools addrs ?w = ?w\<lparr>w_ProxyPool := ps, w_ProxyAddrs := w_ProxyAddrs ?w @ addrs\<rparr>"
    "\<forall>b. map_of ps b = (if b \<in> set addrs then Some (newPool b False (w_cfg w)) else map_of (w_ProxyPool ?w) b)" by auto
  then show ?case by (intro exI [of _ ps]) (simp add: update_conv')
qed

text \<open>The options and the pools do not matter to the connections.\<close>

lemma ready_booted:
  assumes "ready w" "0 < g_WriteBufferCap cfg" "int (length cmd) \<le> 2 ^ 61"
  shows "ready (w\<lparr>w_cfg := cfg, w_ProxyPool := ps, w_ProxyAddrs := as, w_clusterChan := ch, w_authCmd := cmd\<rparr>)" (is "ready ?w")
proof -
  have "live ?w = live w" by (simp add: fun_eq_iff live_def)
  moreover have "frags_ok ?w = frags_ok w" "bodies_ok ?w = bodies_ok w" "dials_ok ?w = dials_ok w"
    by (simp_all add: frags_ok_def bodies_ok_def dials_ok_def)
  ultimately show ?thesis using assms by (simp add: ready_def wf_proxy_def)
qed

lemma itoa_nat_length: "length (itoa_nat n) \<le> Suc n"
proof (induction n rule: itoa_nat.induct)
  case (1 n)
  then show ?case by (cases "n < 10") (force simp: itoa_nat.simps [of n])+
qed

lemma OnBoot_ready:
  assumes "ready w" "length (g_Password (w_cfg w)) \<le> 2 ^ 59"
  shows "\<exists>cmd. OnBoot w = (w\<lparr>w_authCmd := cmd\<rparr>, NoAction) \<and> int (length cmd) \<le> 2 ^ 61"
proof (cases "g_Password (w_cfg w) = []")
  case True
  then show ?thesis using assms(1) by (intro exI [of _ "w_authCmd w"]) (simp add: OnBoot_def ready_def)
next
  case False
  have "length (itoa (int (length (g_Password (w_cfg w))))) \<le> Suc (length (g_Password (w_cfg w)))"
    using itoa_nat_length by (simp add: itoa_of_nat)
  with assms(2) False show ?thesis by (auto simp: OnBoot_def Let_def intro!: exI)
qed

text \<open>
  The proxy starts in a well-formed state with one pool for every configured redis server; dialing them in
  advance neither panics nor breaks the state, whether they can be reached or not.
\<close>

lemma serve_ready:
  assumes "ready w" "length (g_Password (w_cfg w)) \<le> 2 ^ 59"
  shows "\<exists>w' e. serve True (run_defaults opts) w = Some (w', e) \<and> ready w' \<and>
    set (map fst (w_ProxyPool w')) = set (Split (o_RedisServers opts) '','')"
proof -
  let ?o = "run_defaults opts" let ?servers = "Split (o_RedisServers opts) '',''"
  let ?w1 = "w\<lparr>w_cfg := engine_config ?o (w_cfg w), w_ProxyPool := [], w_ProxyAddrs := [], w_clusterChan := []\<rparr>"
  have o: "o_RedisServers ?o = o_RedisServers opts" by (simp add: run_defaults_def Let_def)
  have cfg: "0 < g_WriteBufferCap (engine_config ?o (w_cfg w))" "g_Password (engine_config ?o (w_cfg w)) = g_Password (w_cfg w)"
    using run_defaults_bounds(4) [of opts] by (simp_all add: engine_config_def)
  have len: "int (length (w_authCmd w)) \<le> 2 ^ 61" using assms(1) by (simp add: ready_def)
  have r1: "ready ?w1" using ready_booted [OF assms(1) cfg(1) len, where ps = "[]" and as = "[]" and ch = "[]"] by simp
  obtain cmd where b: "OnBoot ?w1 = (?w1\<lparr>w_authCmd := cmd\<rparr>, NoAction)" "int (length cmd) \<le> 2 ^ 61"
    using OnBoot_ready [OF r1] assms(2) cfg(2) by auto
  obtain ps where p: "boot_pools ?servers (?w1\<lparr>w_authCmd := cmd\<rparr>) = ?w1\<lparr>w_authCmd := cmd, w_ProxyPool := ps, w_ProxyAddrs := ?servers\<rparr>"
    "\<forall>a. map_of ps a = (if a \<in> set ?servers then Some (newPool a False (engine_config ?o (w_cfg w))) else None)"
    using boot_pools_form [of ?servers "?w1\<lparr>w_authCmd := cmd\<rparr>"] by auto
  let ?w2 = "?w1\<lparr>w_authCmd := cmd, w_ProxyPool := ps, w_ProxyAddrs := ?servers\<rparr>"
  have keys: "fst ` set ps = set ?servers" using p(2) by (simp add: dom_def flip: dom_map_of_conv_image_fst)
  have r2: "ready ?w2" using ready_booted [OF assms(1) cfg(1) b(2), where ps = ps and as = ?servers and ch = "[]"] by (cases w) simp
  obtain w3 failed where c: "preconnect (map fst ps) ?w2 = Some (w3, failed)" "supplied ?w2 w3"
    using preconnect_ok [OF r2, of "map fst ps"] by auto
  have ne: "\<not> length ?servers < 1" by (simp add: Split_def)
  have "serve True ?o w = do { (w, el, err) \<leftarrow> engine_start True ?o ?w2; (if err \<noteq> None \<and> \<not> el then None else Some (w, err)) }"
    using ne b(1) p(1) by (simp add: serve_def o Let_def)
  moreover have "ready w3" "set (map fst (w_ProxyPool w3)) = set ?servers" using c(2) keys by (simp_all add: supplied_def del: set_map) simp
  ultimately show ?thesis using c(1) r2 keys by (cases "o_RedisPreconnect ?o") (simp_all add: engine_start_def)
qed

end
