(* ===== verification/Auth_Ip.thy ===== *)
theory Auth_Ip
  imports Prelude
begin

text \<open>
  The white list of client addresses, \<^verbatim>\<open>src/core/authip/authip.go\<close>.

  The concurrent hash map behind the list and the YAML parser are third-party code: the operations of the map are the record
  \<open>iphash\<close> with their documented behaviour \<open>iphash_ok\<close>, the parser is an argument, and so is what reading the file
  returns. The lemmas tell which addresses are let in after any sequence of changes of the file.
\<close>

section \<open>The list\<close>

record 'i iphash =
  ih_Get :: "'i \<Rightarrow> string \<Rightarrow> bool"
  ih_GetOrInsert :: "'i \<Rightarrow> string \<Rightarrow> 'i \<times> bool"

record 'i ipMap =
  ip_enable :: bool
  ip_HashMap :: 'i

definition Validate :: "'i iphash \<Rightarrow> 'i ipMap \<Rightarrow> string \<Rightarrow> bool" where
  "Validate ih i ip = (if ip_enable i then (if \<not> ih_Get ih (ip_HashMap i) ip then False else True) else True)"

definition ipMap_Insert :: "'i iphash \<Rightarrow> 'i ipMap \<Rightarrow> string \<Rightarrow> 'i ipMap \<times> bool" where
  "ipMap_Insert ih i key = (let (h, ok) = ih_GetOrInsert ih (ip_HashMap i) key in (i\<lparr>ip_HashMap := h\<rparr>, ok))"

section \<open>Loading the file\<close>

record authIp =
  a_Enable :: bool
  a_IpList :: "string list"

datatype authip_err = ReadFileFailed | UnmarshalFailed

fun insert_ips :: "'i iphash \<Rightarrow> string list \<Rightarrow> 'i ipMap \<Rightarrow> 'i ipMap" where
  "insert_ips ih [] i = i"
| "insert_ips ih (ip # ips) i = insert_ips ih ips (fst (ipMap_Insert ih i ip))"

definition parseAuthIp :: "'i iphash \<Rightarrow> (bytes \<Rightarrow> authIp option) \<Rightarrow> bytes option \<Rightarrow> 'i ipMap \<Rightarrow> 'i ipMap \<times> authip_err option" where
  "parseAuthIp ih unmarshal content i =
     (case content of
        None \<Rightarrow> (i, Some ReadFileFailed)
      | Some bs \<Rightarrow>
          case unmarshal bs of
            None \<Rightarrow> (i, Some UnmarshalFailed)
          | Some auth \<Rightarrow>
              (let i = i\<lparr>ip_enable := a_Enable auth\<rparr> in
               if \<not> ip_enable i then (i, None) else (insert_ips ih (a_IpList auth) i, None)))"

text \<open>
  The goroutine that watches the directory: an event with the contents the file has then, or an error, which ends it. Errors
  of \<open>parseAuthIp\<close> are logged.
\<close>

record watch_event =
  ev_Name :: string
  ev_Write :: bool
  ev_Rename :: bool
  ev_file :: "bytes option"

datatype watched = WatchEvent watch_event | WatchError

fun watchYml :: "'i iphash \<Rightarrow> (bytes \<Rightarrow> authIp option) \<Rightarrow> string \<Rightarrow> watched list \<Rightarrow> 'i ipMap \<Rightarrow> 'i ipMap" where
  "watchYml ih unmarshal name [] i = i"
| "watchYml ih unmarshal name (WatchError # _) i = i"
| "watchYml ih unmarshal name (WatchEvent ev # evs) i =
     watchYml ih unmarshal name evs
       (if ev_Name ev = name \<and> (ev_Write ev \<or> ev_Rename ev) then fst (parseAuthIp ih unmarshal (ev_file ev) i) else i)"

definition LoopIPWhiteList ::
  "'i iphash \<Rightarrow> (bytes \<Rightarrow> authIp option) \<Rightarrow> string \<Rightarrow> bytes option \<Rightarrow> watched list \<Rightarrow> 'i ipMap \<Rightarrow> 'i ipMap \<times> authip_err option" where
  "LoopIPWhiteList ih unmarshal name content evs i =
     (case parseAuthIp ih unmarshal content i of
        (i, Some e) \<Rightarrow> (i, Some e)
      | (i, None) \<Rightarrow> (watchYml ih unmarshal name evs i, None))"

section \<open>Who is let in\<close>

definition iphash_ok :: "'i iphash \<Rightarrow> bool" where
  "iphash_ok ih \<longleftrightarrow> (\<forall>h k. snd (ih_GetOrInsert ih h k) = ih_Get ih h k) \<and>
     (\<forall>h k j. ih_Get ih (fst (ih_GetOrInsert ih h k)) j = (j = k \<or> ih_Get ih h j))"

lemma insert_ips_Get:
  assumes "iphash_ok ih"
  shows "ih_Get ih (ip_HashMap (insert_ips ih ips i)) ip \<longleftrightarrow> ip \<in> set ips \<or> ih_Get ih (ip_HashMap i) ip"
    "ip_enable (insert_ips ih ips i) = ip_enable i"
  using assms by (induction ips arbitrary: i) (auto simp: ipMap_Insert_def iphash_ok_def split_beta)

text \<open>The configurations that were read, in order.\<close>

definition loaded :: "(bytes \<Rightarrow> authIp option) \<Rightarrow> bytes option \<Rightarrow> authIp list" where
  "loaded unmarshal content = (case Option.bind content unmarshal of None \<Rightarrow> [] | Some a \<Rightarrow> [a])"

fun reloaded :: "(bytes \<Rightarrow> authIp option) \<Rightarrow> string \<Rightarrow> watched list \<Rightarrow> authIp list" where
  "reloaded unmarshal name [] = []"
| "reloaded unmarshal name (WatchError # _) = []"
| "reloaded unmarshal name (WatchEvent ev # evs) =
     (if ev_Name ev = name \<and> (ev_Write ev \<or> ev_Rename ev) then loaded unmarshal (ev_file ev) else []) @ reloaded unmarshal name evs"

text \<open>The state after the configurations \<open>cs\<close>, from an empty list.\<close>

definition reflects :: "'i iphash \<Rightarrow> authIp list \<Rightarrow> 'i ipMap \<Rightarrow> bool" where
  "reflects ih cs i \<longleftrightarrow> ip_enable i = (cs \<noteq> [] \<and> a_Enable (last cs)) \<and>
     (\<forall>ip. ih_Get ih (ip_HashMap i) ip \<longleftrightarrow> (\<exists>c \<in> set cs. a_Enable c \<and> ip \<in> set (a_IpList c)))"

lemma parseAuthIp_reflects:
  assumes "iphash_ok ih" "reflects ih cs i"
  shows "reflects ih (cs @ loaded unmarshal content) (fst (parseAuthIp ih unmarshal content i))"
proof (cases "Option.bind content unmarshal")
  case None
  then have "fst (parseAuthIp ih unmarshal content i) = i" by (cases content) (auto simp: parseAuthIp_def split: option.splits)
  then show ?thesis using None assms(2) by (simp add: loaded_def)
next
  case (Some a)
  then obtain bs where "content = Some bs" "unmarshal bs = Some a" by (cases content) auto
  then show ?thesis using assms Some insert_ips_Get [OF assms(1)]
    by (auto simp: parseAuthIp_def loaded_def reflects_def Let_def)
qed

lemma watchYml_reflects:
  "iphash_ok ih \<Longrightarrow> reflects ih cs i \<Longrightarrow> reflects ih (cs @ reloaded unmarshal name evs) (watchYml ih unmarshal name evs i)"
proof (induction unmarshal name evs arbitrary: cs i rule: reloaded.induct)
  case (3 unmarshal name ev evs)
  show ?case
  proof (cases "ev_Name ev = name \<and> (ev_Write ev \<or> ev_Rename ev)")
    case True
    then show ?thesis using 3(1) [OF 3(2) parseAuthIp_reflects [OF 3(2,3), of unmarshal "ev_file ev"]] by simp
  next
    case False
    then show ?thesis using 3(1) [OF 3(2,3)] by auto
  qed
qed simp_all

text \<open>
  C26: who is let in. After the proxy has loaded its white list and followed any sequence of changes of the file,
  an address is accepted exactly when the configuration that was read last switches the list off or some configuration
  read so far with the list on contains the address. So every listed address is let in, an address that was never listed is
  refused while the list is on, and files that cannot be read change nothing.
\<close>

theorem white_list_decides:
  assumes "iphash_ok ih" "\<And>ip. \<not> ih_Get ih (ip_HashMap i) ip" "\<not> ip_enable i"
    "LoopIPWhiteList ih unmarshal name content evs i = (i', None)" "cs = loaded unmarshal content @ reloaded unmarshal name evs"
  shows "cs \<noteq> [] \<and> (Validate ih i' ip \<longleftrightarrow> \<not> a_Enable (last cs) \<or> (\<exists>c \<in> set cs. a_Enable c \<and> ip \<in> set (a_IpList c)))"
proof -
  have "reflects ih [] i" using assms(2,3) by (simp add: reflects_def)
  note r = parseAuthIp_reflects [OF assms(1) this, of unmarshal content]
  obtain i1 where i1: "parseAuthIp ih unmarshal content i = (i1, None)" "i' = watchYml ih unmarshal name evs i1"
    using assms(4) by (auto simp: LoopIPWhiteList_def split: prod.splits option.splits)
  have "loaded unmarshal content \<noteq> []" using i1(1) by (auto simp: parseAuthIp_def loaded_def split: option.splits)
  moreover have "reflects ih cs i'" using watchYml_reflects [OF assms(1) r] i1 assms(5) by simp
  ultimately show ?thesis using assms(5) by (simp add: reflects_def Validate_def)
qed

definition list_iphash :: "string list iphash" where
  "list_iphash = \<lparr>ih_Get = (\<lambda>h k. k \<in> set h), ih_GetOrInsert = (\<lambda>h k. (k # h, k \<in> set h))\<rparr>"

theorem white_list_decides_witness:
  "let unmarshal = (\<lambda>bs. if bs = ''a'' then Some \<lparr>a_Enable = True, a_IpList = [''10.0.0.1'']\<rparr> else None) in
   \<exists>i'. LoopIPWhiteList list_iphash unmarshal ''f'' (Some ''a'') [WatchEvent \<lparr>ev_Name = ''f'', ev_Write = True, ev_Rename = False, ev_file = None\<rparr>]
      \<lparr>ip_enable = False, ip_HashMap = []\<rparr> = (i', None) \<and>
     Validate list_iphash i' ''10.0.0.1'' \<and> \<not> Validate list_iphash i' ''10.0.0.2''"
proof -
  let ?u = "\<lambda>bs. if bs = ''a'' then Some \<lparr>a_Enable = True, a_IpList = [''10.0.0.1'']\<rparr> else None"
  let ?evs = "[WatchEvent \<lparr>ev_Name = ''f'', ev_Write = True, ev_Rename = False, ev_file = None\<rparr>]"
  let ?i = "\<lparr>ip_enable = False, ip_HashMap = []\<rparr>"
  obtain i' where i': "LoopIPWhiteList list_iphash ?u ''f'' (Some ''a'') ?evs ?i = (i', None)"
    by (simp add: LoopIPWhiteList_def parseAuthIp_def)
  have "iphash_ok list_iphash" by (simp add: iphash_ok_def list_iphash_def)
  from white_list_decides [OF this _ _ i' refl, of "''10.0.0.1''"] white_list_decides [OF this _ _ i' refl, of "''10.0.0.2''"] i'
  show ?thesis by (simp add: list_iphash_def loaded_def)
qed

end
