(* ===== verification/Task_Queue.thy ===== *)
theory Task_Queue
  imports Prelude
begin

text \<open>
  The lock-free queue of asynchronous tasks, \<^verbatim>\<open>src/core/internal/queue/lock_free_queue.go\<close>.

  Any number of threads enqueue and dequeue at the same time. A node is an address in the store of
  \<open>next\<close> pointers and values; nodes are allocated once and never reused, as the garbage collector keeps a node
  while a thread still holds it. Every atomic access to the shared state (a \<open>load\<close>, a \<open>cas\<close>, an
  \<open>AddInt32\<close>) is one step of the relation \<open>queue_step\<close>, which names the thread and its
  next program point; tests of local variables belong to the step before. A step is labelled with its visible effect: linking a
  task, unlinking a task, seeing the queue empty, or nothing.

  The lemmas show that the linked nodes always form one chain on which head and tail only move
  forward and head never passes tail. The chain behind the head is the abstract queue: the
  labelled steps are the operations of a FIFO queue on it, all other steps leave it alone.
\<close>

section \<open>State\<close>

datatype pc =
    Idle
  | EnqLoadTail nat            \<comment> \<open>\<open>tail := load(&q.tail)\<close>, for the new node\<close>
  | EnqLoadNext nat nat        \<comment> \<open>\<open>next := load(&tail.next)\<close>\<close>
  | EnqCheckTail nat nat "nat option"  \<comment> \<open>\<open>tail == load(&q.tail)\<close>\<close>
  | EnqCasNext nat nat         \<comment> \<open>\<open>cas(&tail.next, nil, n)\<close>\<close>
  | EnqHelpTail nat nat nat    \<comment> \<open>\<open>cas(&q.tail, tail, next)\<close>\<close>
  | EnqCasTail nat nat         \<comment> \<open>\<open>cas(&q.tail, tail, n)\<close>\<close>
  | EnqCount                   \<comment> \<open>\<open>AddInt32(&q.length, 1)\<close>\<close>
  | DeqLoadHead                \<comment> \<open>\<open>head := load(&q.head)\<close>\<close>
  | DeqLoadTail nat            \<comment> \<open>\<open>tail := load(&q.tail)\<close>\<close>
  | DeqLoadNext nat nat        \<comment> \<open>\<open>next := load(&head.next)\<close>\<close>
  | DeqCheckHead nat nat "nat option"  \<comment> \<open>\<open>head == load(&q.head)\<close>\<close>
  | DeqHelpTail nat nat        \<comment> \<open>\<open>cas(&q.tail, tail, next)\<close>\<close>
  | DeqCasHead nat nat nat     \<comment> \<open>\<open>cas(&q.head, head, next)\<close>, with the task of \<open>next\<close>\<close>
  | DeqCount nat               \<comment> \<open>\<open>AddInt32(&q.length, -1)\<close>, then return the task\<close>
  | DeqDone "nat option"       \<comment> \<open>returned\<close>
  | DeqCrash                   \<comment> \<open>\<open>next.value\<close> of a nil \<open>next\<close>\<close>

record lockFreeQueue =
  q_head :: nat
  q_tail :: nat
  q_length :: int
  n_value :: "nat \<Rightarrow> nat"
  n_next :: "nat \<Rightarrow> nat option"
  n_alloc :: nat
  q_pc :: "nat \<Rightarrow> pc"

definition NewLockFreeQueue :: lockFreeQueue where
  "NewLockFreeQueue = \<lparr>q_head = 0, q_tail = 0, q_length = 0, n_value = (\<lambda>_. 0), n_next = (\<lambda>_. None), n_alloc = 1,
     q_pc = (\<lambda>_. Idle)\<rparr>"

datatype label = Tau | Link nat | Unlink nat | SeeEmpty

abbreviation at_pc :: "nat \<Rightarrow> pc \<Rightarrow> lockFreeQueue \<Rightarrow> lockFreeQueue" where
  "at_pc i p s \<equiv> s\<lparr>q_pc := (q_pc s)(i := p)\<rparr>"

definition IsEmpty :: "lockFreeQueue \<Rightarrow> bool" where
  "IsEmpty s \<longleftrightarrow> q_length s = 0"

section \<open>Steps\<close>

inductive enqueue_step :: "nat \<Rightarrow> lockFreeQueue \<Rightarrow> label \<Rightarrow> lockFreeQueue \<Rightarrow> bool" for i s where
  enq_call: "q_pc s i = Idle \<Longrightarrow>
     enqueue_step i s Tau (at_pc i (EnqLoadTail (n_alloc s)) s
       \<lparr>n_value := (n_value s)(n_alloc s := v), n_next := (n_next s)(n_alloc s := None), n_alloc := Suc (n_alloc s)\<rparr>)"
| enq_load_tail: "q_pc s i = EnqLoadTail n \<Longrightarrow> enqueue_step i s Tau (at_pc i (EnqLoadNext n (q_tail s)) s)"
| enq_load_next: "q_pc s i = EnqLoadNext n t \<Longrightarrow> enqueue_step i s Tau (at_pc i (EnqCheckTail n t (n_next s t)) s)"
| enq_check: "q_pc s i = EnqCheckTail n t x \<Longrightarrow>
     enqueue_step i s Tau (at_pc i
       (if t = q_tail s then (case x of None \<Rightarrow> EnqCasNext n t | Some x \<Rightarrow> EnqHelpTail n t x) else EnqLoadTail n) s)"
| enq_link: "q_pc s i = EnqCasNext n t \<Longrightarrow> n_next s t = None \<Longrightarrow>
     enqueue_step i s (Link (n_value s n)) (at_pc i (EnqCasTail n t) s\<lparr>n_next := (n_next s)(t := Some n)\<rparr>)"
| enq_link_lost: "q_pc s i = EnqCasNext n t \<Longrightarrow> n_next s t \<noteq> None \<Longrightarrow> enqueue_step i s Tau (at_pc i (EnqLoadTail n) s)"
| enq_help: "q_pc s i = EnqHelpTail n t x \<Longrightarrow>
     enqueue_step i s Tau (at_pc i (EnqLoadTail n) s\<lparr>q_tail := (if q_tail s = t then x else q_tail s)\<rparr>)"
| enq_swing: "q_pc s i = EnqCasTail n t \<Longrightarrow>
     enqueue_step i s Tau (at_pc i EnqCount s\<lparr>q_tail := (if q_tail s = t then n else q_tail s)\<rparr>)"
| enq_count: "q_pc s i = EnqCount \<Longrightarrow> enqueue_step i s Tau (at_pc i Idle s\<lparr>q_length := wrap32 (q_length s + 1)\<rparr>)"

inductive dequeue_step :: "nat \<Rightarrow> lockFreeQueue \<Rightarrow> label \<Rightarrow> lockFreeQueue \<Rightarrow> bool" for i s where
  deq_call: "q_pc s i = Idle \<Longrightarrow> dequeue_step i s Tau (at_pc i DeqLoadHead s)"
| deq_load_head: "q_pc s i = DeqLoadHead \<Longrightarrow> dequeue_step i s Tau (at_pc i (DeqLoadTail (q_head s)) s)"
| deq_load_tail: "q_pc s i = DeqLoadTail h \<Longrightarrow> dequeue_step i s Tau (at_pc i (DeqLoadNext h (q_tail s)) s)"
| deq_load_next: "q_pc s i = DeqLoadNext h t \<Longrightarrow>
     dequeue_step i s (if n_next s h = None then SeeEmpty else Tau) (at_pc i (DeqCheckHead h t (n_next s h)) s)"
| deq_check: "q_pc s i = DeqCheckHead h t x \<Longrightarrow>
     dequeue_step i s Tau (at_pc i
       (if h \<noteq> q_head s then DeqLoadHead
        else if h = t then (case x of None \<Rightarrow> DeqDone None | Some x \<Rightarrow> DeqHelpTail t x)
        else (case x of None \<Rightarrow> DeqCrash | Some x \<Rightarrow> DeqCasHead h x (n_value s x))) s)"
| deq_help: "q_pc s i = DeqHelpTail t x \<Longrightarrow>
     dequeue_step i s Tau (at_pc i DeqLoadHead s\<lparr>q_tail := (if q_tail s = t then x else q_tail s)\<rparr>)"
| deq_unlink: "q_pc s i = DeqCasHead h x v \<Longrightarrow> q_head s = h \<Longrightarrow>
     dequeue_step i s (Unlink v) (at_pc i (DeqCount v) s\<lparr>q_head := x\<rparr>)"
| deq_unlink_lost: "q_pc s i = DeqCasHead h x v \<Longrightarrow> q_head s \<noteq> h \<Longrightarrow> dequeue_step i s Tau (at_pc i DeqLoadHead s)"
| deq_count: "q_pc s i = DeqCount v \<Longrightarrow> dequeue_step i s Tau (at_pc i (DeqDone (Some v)) s\<lparr>q_length := wrap32 (q_length s - 1)\<rparr>)"
| deq_return: "q_pc s i = DeqDone r \<Longrightarrow> dequeue_step i s Tau (at_pc i Idle s)"

definition queue_step :: "nat \<Rightarrow> lockFreeQueue \<Rightarrow> label \<Rightarrow> lockFreeQueue \<Rightarrow> bool" where
  "queue_step i s l s' \<longleftrightarrow> enqueue_step i s l s' \<or> dequeue_step i s l s'"

inductive queue_reachable :: "lockFreeQueue \<Rightarrow> bool" where
  start: "queue_reachable NewLockFreeQueue"
| step: "queue_reachable s \<Longrightarrow> queue_step i s l s' \<Longrightarrow> queue_reachable s'"

text \<open>The tasks behind the head, at most \<open>n\<close> of them.\<close>

fun tasks_from :: "nat \<Rightarrow> lockFreeQueue \<Rightarrow> nat \<Rightarrow> nat list" where
  "tasks_from 0 s h = []"
| "tasks_from (Suc n) s h = (case n_next s h of None \<Rightarrow> [] | Some x \<Rightarrow> n_value s x # tasks_from n s x)"

definition queue_contents :: "lockFreeQueue \<Rightarrow> nat list" where
  "queue_contents s = tasks_from (n_alloc s) s (q_head s)"

section \<open>The chain of linked nodes\<close>

text \<open>
  \<open>ns\<close> are the nodes that were linked so far, in order; the head is number \<open>i\<close> and the tail number \<open>j\<close>.
\<close>

definition chain :: "nat list \<Rightarrow> nat \<Rightarrow> nat \<Rightarrow> lockFreeQueue \<Rightarrow> bool" where
  "chain ns i j s \<longleftrightarrow> distinct ns \<and> i \<le> j \<and> j < length ns \<and> q_head s = ns ! i \<and> q_tail s = ns ! j \<and>
     (\<forall>k < length ns. n_next s (ns ! k) = (if Suc k < length ns then Some (ns ! Suc k) else None)) \<and>
     (\<forall>x \<in> set ns. x < n_alloc s)"

text \<open>The node that a thread has allocated and not linked yet.\<close>

fun owned :: "pc \<Rightarrow> nat option" where
  "owned (EnqLoadTail n) = Some n"
| "owned (EnqLoadNext n t) = Some n"
| "owned (EnqCheckTail n t x) = Some n"
| "owned (EnqCasNext n t) = Some n"
| "owned (EnqHelpTail n t x) = Some n"
| "owned _ = None"

text \<open>What the local variables of a thread tell about the chain.\<close>

fun local_ok :: "nat list \<Rightarrow> nat \<Rightarrow> nat \<Rightarrow> lockFreeQueue \<Rightarrow> pc \<Rightarrow> bool" where
  "local_ok ns i j s (EnqLoadNext n t) \<longleftrightarrow> (\<exists>k \<le> j. t = ns ! k)"
| "local_ok ns i j s (EnqCheckTail n t x) \<longleftrightarrow> (\<exists>k \<le> j. t = ns ! k) \<and> (\<forall>y. x = Some y \<longrightarrow> n_next s t = Some y)"
| "local_ok ns i j s (EnqCasNext n t) \<longleftrightarrow> (\<exists>k \<le> j. t = ns ! k)"
| "local_ok ns i j s (EnqHelpTail n t x) \<longleftrightarrow> (\<exists>k \<le> j. t = ns ! k) \<and> n_next s t = Some x"
| "local_ok ns i j s (EnqCasTail n t) \<longleftrightarrow> (\<exists>k \<le> j. t = ns ! k) \<and> n_next s t = Some n"
| "local_ok ns i j s (DeqLoadTail h) \<longleftrightarrow> (\<exists>a \<le> i. h = ns ! a)"
| "local_ok ns i j s (DeqLoadNext h t) \<longleftrightarrow> (\<exists>a \<le> i. \<exists>b \<le> j. a \<le> b \<and> h = ns ! a \<and> t = ns ! b)"
| "local_ok ns i j s (DeqCheckHead h t x) \<longleftrightarrow> (\<exists>a \<le> i. \<exists>b \<le> j. a \<le> b \<and> h = ns ! a \<and> t = ns ! b) \<and>
     (\<forall>y. x = Some y \<longrightarrow> n_next s h = Some y) \<and> (h \<noteq> t \<longrightarrow> x \<noteq> None)"
| "local_ok ns i j s (DeqHelpTail t x) \<longleftrightarrow> (\<exists>b \<le> j. t = ns ! b) \<and> n_next s t = Some x"
| "local_ok ns i j s (DeqCasHead h x v) \<longleftrightarrow> (\<exists>a < j. h = ns ! a) \<and> n_next s h = Some x \<and> v = n_value s x"
| "local_ok ns i j s DeqCrash \<longleftrightarrow> False"
| "local_ok ns i j s _ \<longleftrightarrow> True"

definition owners_ok :: "nat list \<Rightarrow> lockFreeQueue \<Rightarrow> bool" where
  "owners_ok ns s \<longleftrightarrow>
     (\<forall>t n. owned (q_pc s t) = Some n \<longrightarrow> n \<notin> set ns \<and> n < n_alloc s \<and> n_next s n = None) \<and>
     (\<forall>t u n. owned (q_pc s t) = Some n \<longrightarrow> owned (q_pc s u) = Some n \<longrightarrow> t = u)"

definition queue_inv :: "nat list \<Rightarrow> nat \<Rightarrow> nat \<Rightarrow> lockFreeQueue \<Rightarrow> bool" where
  "queue_inv ns i j s \<longleftrightarrow> chain ns i j s \<and> owners_ok ns s \<and> (\<forall>t. local_ok ns i j s (q_pc s t))"

lemma chain_next:
  assumes "chain ns i j s" "k < length ns"
  shows "n_next s (ns ! k) = (if Suc k < length ns then Some (ns ! Suc k) else None)"
  using assms by (simp add: chain_def)

lemma chain_nextD:
  assumes "chain ns i j s" "k < length ns" "n_next s (ns ! k) = Some x"
  shows "Suc k < length ns \<and> x = ns ! Suc k"
  using chain_next [OF assms(1,2)] assms(3) by (simp split: if_splits)

lemma chain_nth_eq: "chain ns i j s \<Longrightarrow> k < length ns \<Longrightarrow> l < length ns \<Longrightarrow> ns ! k = ns ! l \<longleftrightarrow> k = l"
  by (simp add: chain_def nth_eq_iff_index_eq)

text \<open>
  What a thread knows stays true when the others move on: the chain gets longer, head and tail move
  forward, links and values of linked nodes stay.
\<close>

lemma local_ok_mono:
  assumes "chain ns i j s" "local_ok ns i j s p" "i \<le> i'" "j \<le> j'"
    "\<And>x y. n_next s x = Some y \<Longrightarrow> x \<in> set ns \<Longrightarrow> n_next s' x = Some y" "\<And>x. x < n_alloc s \<Longrightarrow> n_value s' x = n_value s x"
  shows "local_ok (ns @ zs) i' j' s' p"
proof -
  have jl: "j < length ns" "i \<le> j" using assms(1) by (simp_all add: chain_def)
  have nth: "(ns @ zs) ! k = ns ! k" "ns ! k \<in> set ns" if "k \<le> j" for k using that jl by (simp_all add: nth_append)
  have nx: "n_next s' (ns ! k) = Some y" if "n_next s (ns ! k) = Some y" "k \<le> j" for k y using assms(5) nth(2) that by blast
  have val: "n_value s' x = n_value s x" if "n_next s (ns ! k) = Some x" "k \<le> j" for k x
  proof -
    have "Suc k < length ns \<and> x = ns ! Suc k" using chain_nextD [OF assms(1) _ that(1)] that(2) jl by simp
    then have "x < n_alloc s" using assms(1) by (simp add: chain_def)
    then show ?thesis using assms(6) by simp
  qed
  have two: "\<exists>a \<le> i'. \<exists>b \<le> j'. a \<le> b \<and> h = (ns @ zs) ! a \<and> t = (ns @ zs) ! b"
    if "a \<le> i" "b \<le> j" "a \<le> b" "h = ns ! a" "t = ns ! b" for a b h t
  proof (intro exI conjI)
    show "a \<le> i'" "b \<le> j'" "a \<le> b" using that assms(3,4) by simp_all
    show "h = (ns @ zs) ! a" "t = (ns @ zs) ! b" using that nth(1) by simp_all
  qed
  show ?thesis
  proof (cases p)
    case (DeqCasHead h x v)
    then obtain a where "a < j" "h = ns ! a" "n_next s h = Some x" "v = n_value s x" using assms(2) by auto
    with DeqCasHead nth nx val assms(4) show ?thesis by (auto intro!: exI [of _ a])
  next
    case (DeqLoadNext h t)
    then obtain a b where "a \<le> i" "b \<le> j" "a \<le> b" "h = ns ! a" "t = ns ! b" using assms(2) by auto
    from two [OF this] DeqLoadNext show ?thesis by simp
  next
    case (DeqCheckHead h t x)
    then obtain a b where "a \<le> i" "b \<le> j" "a \<le> b" "h = ns ! a" "t = ns ! b" "\<forall>y. x = Some y \<longrightarrow> n_next s h = Some y" "h \<noteq> t \<longrightarrow> x \<noteq> None"
      using assms(2) by auto
    with two [OF this(1-5)] DeqCheckHead nx show ?thesis by simp
  next
    case (DeqLoadTail h)
    then obtain a where "a \<le> i" "h = ns ! a" using assms(2) by auto
    with DeqLoadTail nth assms(3) jl show ?thesis by (auto intro!: exI [of _ a])
  qed (use assms(2,4) nth nx in \<open>auto intro: order_trans\<close>)
qed

section \<open>Every step keeps the chain\<close>

lemma local_ok_cong: "n_next s' = n_next s \<Longrightarrow> n_value s' = n_value s \<Longrightarrow> local_ok ns i j s' p = local_ok ns i j s p"
  by (cases p) simp_all

lemma queue_invD:
  assumes "queue_inv ns i j s"
  shows "chain ns i j s" "local_ok ns i j s (q_pc s t)"
  using assms by (simp_all add: queue_inv_def)

lemma owners_ok_mono:
  assumes "owners_ok ns s" "\<And>u n. owned (q_pc s' u) = Some n \<Longrightarrow> owned (q_pc s u) = Some n"
    "n_alloc s' = n_alloc s" "\<And>u n. owned (q_pc s' u) = Some n \<Longrightarrow> n \<notin> set ns \<Longrightarrow> n \<notin> set ns' \<and> n_next s' n = n_next s n"
  shows "owners_ok ns' s'"
  unfolding owners_ok_def
proof (intro conjI allI impI)
  fix t u n assume t: "owned (q_pc s' t) = Some n"
  have "n \<notin> set ns \<and> n < n_alloc s \<and> n_next s n = None" using assms(1) assms(2) [OF t] by (auto simp: owners_ok_def)
  then show "n \<notin> set ns'" "n < n_alloc s'" "n_next s' n = None" using assms(3) assms(4) [OF t] by auto
  assume "owned (q_pc s' u) = Some n"
  from assms(2) [OF t] assms(2) [OF this] assms(1) show "t = u" unfolding owners_ok_def by blast
qed

text \<open>A thread moves on without changing the shared state.\<close>

lemma inv_local:
  assumes "queue_inv ns i j s" "local_ok ns i j s p" "owned p = None \<or> owned p = owned (q_pc s t)"
  shows "queue_inv ns i j (at_pc t p s)"
proof -
  have "chain ns i j (at_pc t p s)" using assms(1) by (simp add: queue_inv_def chain_def)
  moreover have "owners_ok ns s" using assms(1) by (simp add: queue_inv_def)
  then have "owners_ok ns (at_pc t p s)"
  proof (rule owners_ok_mono)
    show "owned (q_pc (at_pc t p s) u) = Some n \<Longrightarrow> owned (q_pc s u) = Some n" for u n
      using assms(3) by (cases "u = t") auto
  qed simp_all
  moreover have "local_ok ns i j (at_pc t p s) (q_pc (at_pc t p s) u)" for u
    using assms(1,2) local_ok_cong [of "at_pc t p s" s] by (simp add: queue_inv_def)
  ultimately show ?thesis by (simp add: queue_inv_def)
qed

lemma inv_length: "queue_inv ns i j s \<Longrightarrow> queue_inv ns i j (s\<lparr>q_length := l\<rparr>)"
  using local_ok_cong [of "s\<lparr>q_length := l\<rparr>" s] by (simp add: queue_inv_def chain_def owners_ok_def)

lemma inv_tail:
  assumes "queue_inv ns i j s" "\<exists>k \<le> j. t = ns ! k" "n_next s t = Some x"
  shows "\<exists>j'. queue_inv ns i j' (s\<lparr>q_tail := (if q_tail s = t then x else q_tail s)\<rparr>)" (is "\<exists>j'. queue_inv ns i j' ?s")
proof (cases "q_tail s = t")
  case True
  note ch = queue_invD(1) [OF assms(1)]
  have jl: "j < length ns" "q_tail s = ns ! j" "i \<le> j" using ch by (simp_all add: chain_def)
  have x: "Suc j < length ns" "x = ns ! Suc j" using chain_nextD [OF ch jl(1)] assms(3) True jl(2) by simp_all
  have "chain ns i (Suc j) ?s" using ch x True by (simp add: chain_def)
  moreover have "owners_ok ns ?s" using assms(1) by (simp add: queue_inv_def owners_ok_def)
  moreover have "local_ok ns i (Suc j) ?s p" if "local_ok ns i j s p" for p
    using local_ok_mono [OF ch that, of i "Suc j" ?s "[]"] by simp
  ultimately show ?thesis using assms(1) by (auto simp: queue_inv_def)
qed (use assms(1) in \<open>auto simp: queue_inv_def\<close>)

lemma inv_head:
  assumes "queue_inv ns i j s" "i < j" "n_next s (q_head s) = Some x"
  shows "queue_inv ns (Suc i) j (s\<lparr>q_head := x\<rparr>)"
proof -
  note ch = queue_invD(1) [OF assms(1)]
  have il: "i < length ns" "q_head s = ns ! i" using ch by (simp_all add: chain_def)
  have x: "x = ns ! Suc i" using chain_nextD [OF ch il(1)] assms(3) il(2) by simp
  have "chain ns (Suc i) j (s\<lparr>q_head := x\<rparr>)" using ch x assms(2) by (simp add: chain_def)
  moreover have "owners_ok ns (s\<lparr>q_head := x\<rparr>)" using assms(1) by (simp add: queue_inv_def owners_ok_def)
  moreover have "local_ok ns (Suc i) j (s\<lparr>q_head := x\<rparr>) p" if "local_ok ns i j s p" for p
    using local_ok_mono [OF ch that, of "Suc i" j "s\<lparr>q_head := x\<rparr>" "[]"] by simp
  ultimately show ?thesis using assms(1) by (simp add: queue_inv_def)
qed

lemma inv_alloc:
  assumes "queue_inv ns i j s" "owned (q_pc s t) = None"
  shows "queue_inv ns i j (at_pc t (EnqLoadTail (n_alloc s)) s
    \<lparr>n_value := (n_value s)(n_alloc s := v), n_next := (n_next s)(n_alloc s := None), n_alloc := Suc (n_alloc s)\<rparr>)" (is "queue_inv ns i j ?s")
proof -
  note ch = queue_invD(1) [OF assms(1)]
  have old: "x < n_alloc s" if "x \<in> set ns" for x using ch that by (simp add: chain_def)
  have "ns ! k \<noteq> n_alloc s" if "k < length ns" for k using old [OF nth_mem [OF that]] by simp
  then have "chain ns i j ?s" using ch old by (auto simp: chain_def less_SucI)
  moreover have "owners_ok ns ?s" unfolding owners_ok_def
  proof (intro conjI allI impI)
    have own: "owned (q_pc s t) = Some n \<Longrightarrow> n \<notin> set ns \<and> n < n_alloc s \<and> n_next s n = None" for t n
      using assms(1) by (simp add: queue_inv_def owners_ok_def)
    have same: "owned (q_pc s t) = Some n \<Longrightarrow> owned (q_pc s u) = Some n \<Longrightarrow> t = u" for t u n
      using assms(1) unfolding queue_inv_def owners_ok_def by blast
    fix u v n assume u: "owned (q_pc ?s u) = Some n"
    show "n \<notin> set ns" "n < n_alloc ?s" "n_next ?s n = None" using u own [of u n] old [of n] by (cases "u = t"; force)+
    assume "owned (q_pc ?s v) = Some n"
    with u own [of u n] own [of v n] same show "u = v" by (cases "u = t"; cases "v = t") auto
  qed
  moreover have "local_ok ns i j ?s p" if "local_ok ns i j s p" for p
    using local_ok_mono [OF ch that, of i j ?s "[]"] old by force
  ultimately show ?thesis using assms(1) by (simp add: queue_inv_def)
qed

lemma inv_link:
  assumes "queue_inv ns i j s" "q_pc s t = EnqCasNext n l" "n_next s l = None"
  shows "queue_inv (ns @ [n]) i j (at_pc t (EnqCasTail n l) s\<lparr>n_next := (n_next s)(l := Some n)\<rparr>)" (is "queue_inv _ i j ?s")
    and "ns ! (length ns - 1) = l"
proof -
  note ch = queue_invD(1) [OF assms(1)]
  have jl: "j < length ns" "distinct ns" using ch by (simp_all add: chain_def)
  from queue_invD(2) [OF assms(1), of t] assms(2) obtain k where k: "k \<le> j" "l = ns ! k" by auto
  have lst: "Suc k = length ns" using chain_next [OF ch, of k] k jl assms(3) by (simp split: if_splits)
  then show "ns ! (length ns - 1) = l" using k(2) by (metis diff_Suc_1)
  have "owned (q_pc s t) = Some n" using assms(2) by simp
  then have n: "n \<notin> set ns" "n < n_alloc s" "n_next s n = None" using assms(1) unfolding queue_inv_def owners_ok_def by blast+
  have ne: "n \<noteq> l" using n(1) k jl by (metis nth_mem order_le_less_trans)
  have nx: "n_next ?s ((ns @ [n]) ! m) = (if Suc m < length (ns @ [n]) then Some ((ns @ [n]) ! Suc m) else None)" if "m < length (ns @ [n])" for m
  proof (cases "m < k")
    case True
    then have "ns ! m \<noteq> l" using chain_nth_eq [OF ch, of m k] k jl by auto
    then show ?thesis using True chain_next [OF ch, of m] lst by (simp add: nth_append)
  next
    case False
    then have "m = k \<or> m = Suc k" using that lst by auto
    then show ?thesis using lst k(2) n(3) ne by (auto simp: nth_append)
  qed
  have "chain (ns @ [n]) i j ?s" using ch n nx unfolding chain_def by (auto simp: nth_append)
  moreover have own: "owners_ok ns s" using assms(1) by (simp add: queue_inv_def)
  have "owners_ok (ns @ [n]) ?s"
  proof (rule owners_ok_mono [OF own])
    fix u m assume u: "owned (q_pc ?s u) = Some m"
    then have ut: "u \<noteq> t" by auto
    with u show um: "owned (q_pc s u) = Some m" by simp
    have "m \<noteq> n" using own um ut \<open>owned (q_pc s t) = Some n\<close> unfolding owners_ok_def by blast
    moreover have "m \<noteq> l" if "m \<notin> set ns" using that k jl nth_mem by fastforce
    ultimately show "m \<notin> set ns \<Longrightarrow> m \<notin> set (ns @ [n]) \<and> n_next ?s m = n_next s m" by simp
  qed simp
  moreover have "local_ok (ns @ [n]) i j ?s p" if "local_ok ns i j s p" for p
  proof (rule local_ok_mono [OF ch that])
    fix x y assume "n_next s x = Some y"
    then show "n_next ?s x = Some y" using assms(3) by auto
  qed simp_all
  moreover have "local_ok (ns @ [n]) i j ?s (EnqCasTail n l)" using k jl by (auto simp: nth_append intro!: exI [of _ k])
  ultimately show "queue_inv (ns @ [n]) i j ?s" using assms(1) by (simp add: queue_inv_def)
qed

text \<open>The effect of a labelled step on the chain.\<close>

definition chain_moves :: "label \<Rightarrow> nat list \<Rightarrow> nat \<Rightarrow> lockFreeQueue \<Rightarrow> nat list \<Rightarrow> nat \<Rightarrow> lockFreeQueue \<Rightarrow> bool" where
  "chain_moves l ns i s ns' i' s' \<longleftrightarrow> (\<forall>x \<in> set ns. n_value s' x = n_value s x) \<and>
     (case l of
        Tau \<Rightarrow> ns' = ns \<and> i' = i
      | Link v \<Rightarrow> (\<exists>n. ns' = ns @ [n] \<and> v = n_value s' n) \<and> i' = i
      | Unlink v \<Rightarrow> ns' = ns \<and> i' = Suc i \<and> Suc i < length ns \<and> v = n_value s (ns ! Suc i)
      | SeeEmpty \<Rightarrow> ns' = ns \<and> i' = i \<and> Suc i = length ns)"

lemma stays:
  assumes "queue_inv ns i j s'" "n_value s' = n_value s"
  shows "\<exists>ns' i' j'. queue_inv ns' i' j' s' \<and> chain_moves Tau ns i s ns' i' s'"
  using assms by (auto simp: chain_moves_def)

lemma inv_tail_pc:
  assumes "queue_inv ns i j s" "\<exists>k \<le> j. t = ns ! k" "n_next s t = Some x" "owned p = None \<or> owned p = owned (q_pc s u)"
    "\<And>j. local_ok ns i j s p"
  shows "\<exists>ns' i' j'. queue_inv ns' i' j' (at_pc u p s\<lparr>q_tail := (if q_tail s = t then x else q_tail s)\<rparr>) \<and>
    chain_moves Tau ns i s ns' i' (at_pc u p s\<lparr>q_tail := (if q_tail s = t then x else q_tail s)\<rparr>)"
proof -
  let ?s = "s\<lparr>q_tail := (if q_tail s = t then x else q_tail s)\<rparr>"
  obtain j' where j': "queue_inv ns i j' ?s" using inv_tail [OF assms(1-3)] by blast
  have "queue_inv ns i j' (at_pc u p ?s)"
    by (rule inv_local [OF j']) (use assms(4,5) local_ok_cong [of ?s s] in simp_all)
  moreover have "at_pc u p ?s = at_pc u p s\<lparr>q_tail := (if q_tail s = t then x else q_tail s)\<rparr>" by simp
  ultimately show ?thesis using stays [of ns i j' "at_pc u p ?s" s] by (metis lockFreeQueue.select_convs(4) lockFreeQueue.surjective lockFreeQueue.update_convs(2,7))
qed

lemma enqueue_step_inv:
  assumes "queue_inv ns i j s" "enqueue_step u s l s'"
  shows "\<exists>ns' i' j'. queue_inv ns' i' j' s' \<and> chain_moves l ns i s ns' i' s'"
  using assms(2)
proof cases
  case (enq_call v)
  have "queue_inv ns i j s'" using inv_alloc [OF assms(1), of u v] enq_call by simp
  moreover have "\<forall>x \<in> set ns. n_value s' x = n_value s x"
    using queue_invD(1) [OF assms(1)] enq_call(2) by (auto simp: chain_def)
  ultimately show ?thesis using enq_call(1) by (auto simp: chain_moves_def)
next
  case (enq_load_tail n)
  show ?thesis unfolding enq_load_tail(1,2)
    by (rule stays) (use enq_load_tail(3) queue_invD(1) [OF assms(1)] in \<open>auto intro!: inv_local assms(1) simp: chain_def\<close>)
next
  case (enq_load_next n t)
  show ?thesis unfolding enq_load_next(1,2)
    by (rule stays) (use enq_load_next(3) queue_invD(2) [OF assms(1), of u] in \<open>auto intro!: inv_local assms(1)\<close>)
next
  case (enq_check n t x)
  have "local_ok ns i j s (if t = q_tail s then (case x of None \<Rightarrow> EnqCasNext n t | Some x \<Rightarrow> EnqHelpTail n t x) else EnqLoadTail n)"
    using queue_invD(2) [OF assms(1), of u] enq_check(3) by (cases "t = q_tail s") (simp_all split: option.split)
  then show ?thesis unfolding enq_check(1,2)
    by (rule stays [OF inv_local [OF assms(1)]]) (simp_all add: enq_check(3) split: option.split)
next
  case (enq_link n t)
  have "n_value s' = n_value s" using enq_link by simp
  then show ?thesis using inv_link(1) [OF assms(1) enq_link(3,4)] unfolding enq_link(1,2)
    by (intro exI [of _ "ns @ [n]"] exI [of _ i] exI [of _ j]) (simp add: chain_moves_def)
next
  case (enq_link_lost n t)
  show ?thesis unfolding enq_link_lost(1,2)
    by (rule stays) (use enq_link_lost(3) in \<open>auto intro!: inv_local assms(1)\<close>)
next
  case (enq_help n t x)
  show ?thesis unfolding enq_help(1,2)
    by (rule inv_tail_pc [OF assms(1)]) (use enq_help(3) queue_invD(2) [OF assms(1), of u] in auto)
next
  case (enq_swing n t)
  show ?thesis unfolding enq_swing(1,2)
    by (rule inv_tail_pc [OF assms(1)]) (use enq_swing(3) queue_invD(2) [OF assms(1), of u] in auto)
next
  case enq_count
  show ?thesis unfolding enq_count(1,2) by (rule stays [OF inv_length [OF inv_local [OF assms(1)]]]) simp_all
qed

lemma dequeue_step_inv:
  assumes "queue_inv ns i j s" "dequeue_step u s l s'"
  shows "\<exists>ns' i' j'. queue_inv ns' i' j' s' \<and> chain_moves l ns i s ns' i' s'"
  using assms(2)
proof cases
  case deq_call
  show ?thesis unfolding deq_call(1,2) by (rule stays) (auto intro!: inv_local assms(1))
next
  case deq_load_head
  show ?thesis unfolding deq_load_head(1,2)
    by (rule stays) (use queue_invD(1) [OF assms(1)] in \<open>auto intro!: inv_local assms(1) simp: chain_def\<close>)
next
  case (deq_load_tail h)
  have "\<exists>a \<le> i. \<exists>b \<le> j. a \<le> b \<and> h = ns ! a \<and> q_tail s = ns ! b"
  proof -
    obtain a where "a \<le> i" "h = ns ! a" using queue_invD(2) [OF assms(1), of u] deq_load_tail(3) by auto
    moreover have "i \<le> j" "q_tail s = ns ! j" using queue_invD(1) [OF assms(1)] by (simp_all add: chain_def)
    ultimately show ?thesis using order_trans by blast
  qed
  then have "local_ok ns i j s (DeqLoadNext h (q_tail s))" by simp
  then show ?thesis unfolding deq_load_tail(1,2) by (rule stays [OF inv_local [OF assms(1)]]) simp_all
next
  case (deq_load_next h t)
  note ch = queue_invD(1) [OF assms(1)]
  have ij: "i \<le> j" "j < length ns" using ch by (simp_all add: chain_def)
  obtain a b where ab: "a \<le> i" "b \<le> j" "a \<le> b" "h = ns ! a" "t = ns ! b" using queue_invD(2) [OF assms(1), of u] deq_load_next(3) by auto
  have nx: "n_next s h = None \<Longrightarrow> Suc a = length ns" using chain_next [OF ch, of a] ab ij by (simp split: if_splits)
  then have "n_next s h = None \<Longrightarrow> h = t" using ab ij by (metis Suc_leI le_antisym le_less_trans not_less_eq_eq)
  then have "local_ok ns i j s (DeqCheckHead h t (n_next s h))" using queue_invD(2) [OF assms(1), of u] deq_load_next(3) by auto
  then have "queue_inv ns i j s'" unfolding deq_load_next(2) by (rule inv_local [OF assms(1)]) simp
  moreover have "n_next s h = None \<Longrightarrow> Suc i = length ns" using nx ab(1) ij by simp
  ultimately show ?thesis unfolding deq_load_next(1)
    using deq_load_next(2) by (intro exI [of _ ns] exI [of _ i] exI [of _ j]) (simp add: chain_moves_def)
next
  case (deq_check h t x)
  have ok: "local_ok ns i j s (DeqCheckHead h t x)" using queue_invD(2) [OF assms(1), of u] deq_check(3) by simp
  have a: "\<exists>a < j. h = ns ! a" if "h \<noteq> t"
  proof -
    obtain a b where "a \<le> i" "b \<le> j" "a \<le> b" "h = ns ! a" "t = ns ! b" using ok by auto
    with that show ?thesis by (metis le_neq_implies_less order_less_le_trans)
  qed
  have "local_ok ns i j s (if h \<noteq> q_head s then DeqLoadHead
        else if h = t then (case x of None \<Rightarrow> DeqDone None | Some x \<Rightarrow> DeqHelpTail t x)
        else (case x of None \<Rightarrow> DeqCrash | Some x \<Rightarrow> DeqCasHead h x (n_value s x)))"
    using ok a by (auto split: option.split)
  then show ?thesis unfolding deq_check(1,2) by (rule stays [OF inv_local [OF assms(1)]]) (simp_all split: option.split)
next
  case (deq_help t x)
  show ?thesis unfolding deq_help(1,2)
    by (rule inv_tail_pc [OF assms(1)]) (use deq_help(3) queue_invD(2) [OF assms(1), of u] in auto)
next
  case (deq_unlink h x v)
  note ch = queue_invD(1) [OF assms(1)]
  obtain a where a: "a < j" "h = ns ! a" "n_next s h = Some x" "v = n_value s x"
    using queue_invD(2) [OF assms(1), of u] deq_unlink(3) by auto
  have ij: "i < length ns" "j < length ns" "q_head s = ns ! i" using ch by (auto simp: chain_def)
  have ai: "a = i" using chain_nth_eq [OF ch, of a i] a ij deq_unlink(4) by simp
  have x: "Suc i < length ns" "x = ns ! Suc i" using chain_nextD [OF ch ij(1)] a ai by simp_all
  have "queue_inv ns i j (at_pc u (DeqCount v) s)" by (rule inv_local [OF assms(1)]) simp_all
  then have "queue_inv ns (Suc i) j (at_pc u (DeqCount v) s\<lparr>q_head := x\<rparr>)" by (rule inv_head) (use a ai deq_unlink(4) in simp_all)
  then show ?thesis unfolding deq_unlink(1,2)
    using x a(4) by (intro exI [of _ ns] exI [of _ "Suc i"] exI [of _ j]) (simp add: chain_moves_def)
next
  case (deq_unlink_lost h x v)
  show ?thesis unfolding deq_unlink_lost(1,2) by (rule stays) (auto intro!: inv_local assms(1))
next
  case (deq_count v)
  show ?thesis unfolding deq_count(1,2) by (rule stays [OF inv_length [OF inv_local [OF assms(1)]]]) simp_all
next
  case (deq_return r)
  show ?thesis unfolding deq_return(1,2) by (rule stays) (auto intro!: inv_local assms(1))
qed

lemma reachable_inv: "queue_reachable s \<Longrightarrow> \<exists>ns i j. queue_inv ns i j s"
proof (induction rule: queue_reachable.induct)
  case start
  have "queue_inv [0] 0 0 NewLockFreeQueue" by (simp add: queue_inv_def chain_def owners_ok_def NewLockFreeQueue_def)
  then show ?case by blast
next
  case (step s u l s')
  then obtain ns i j where "queue_inv ns i j s" by blast
  then show ?case using step(2) enqueue_step_inv dequeue_step_inv unfolding queue_step_def by meson
qed

section \<open>The queue is a FIFO queue\<close>

text \<open>The abstract queue: a list to which the labelled steps append and from which they take the first.\<close>

fun fifo_step :: "label \<Rightarrow> nat list \<Rightarrow> nat list option" where
  "fifo_step Tau xs = Some xs"
| "fifo_step (Link v) xs = Some (xs @ [v])"
| "fifo_step (Unlink v) (x # xs) = (if x = v then Some xs else None)"
| "fifo_step (Unlink v) [] = None"
| "fifo_step SeeEmpty xs = (if xs = [] then Some [] else None)"

lemma tasks_from_chain:
  "chain ns i j s \<Longrightarrow> k < length ns \<Longrightarrow> tasks_from n s (ns ! k) = map (n_value s) (take n (drop (Suc k) ns))"
proof (induction n arbitrary: k)
  case (Suc n)
  show ?case
  proof (cases "Suc k < length ns")
    case True
    then show ?thesis using chain_next [OF Suc.prems] Suc.IH [OF Suc.prems(1) True] by (simp add: Cons_nth_drop_Suc [symmetric])
  qed (use chain_next [OF Suc.prems] in simp)
qed simp

lemma contents_chain:
  assumes "queue_inv ns i j s"
  shows "queue_contents s = map (n_value s) (drop (Suc i) ns)"
proof -
  note ch = queue_invD(1) [OF assms]
  have "set ns \<subseteq> {..<n_alloc s}" "distinct ns" using ch by (auto simp: chain_def)
  then have "length ns \<le> n_alloc s" using card_mono [of "{..<n_alloc s}" "set ns"] by (simp add: distinct_card)
  then show ?thesis using tasks_from_chain [OF ch, of i "n_alloc s"] ch by (simp add: queue_contents_def chain_def)
qed

lemma moves_fifo:
  assumes "queue_inv ns i j s" "queue_inv ns' i' j' s'" "chain_moves l ns i s ns' i' s'"
  shows "fifo_step l (queue_contents s) = Some (queue_contents s')"
proof -
  have "i < length ns" using queue_invD(1) [OF assms(1)] by (simp add: chain_def)
  moreover have "map (n_value s') (drop k ns) = map (n_value s) (drop k ns)" for k
    using assms(3) by (auto simp: chain_moves_def dest: in_set_dropD)
  ultimately show ?thesis using assms(3) unfolding contents_chain [OF assms(1)] contents_chain [OF assms(2)]
    by (cases l) (auto simp: chain_moves_def Cons_nth_drop_Suc [symmetric])
qed

text \<open>
  C4: the lock-free queue is a FIFO queue under any interleaving of any number of enqueuing and
  dequeuing threads. In every reachable state every step of every thread does to the linked tasks what its
  label says of a list: linking appends the task, unlinking takes the first task, a dequeue that
  goes on to report an empty queue has read the \<open>next\<close> pointer of its head while the queue was empty, and every other step
  leaves the tasks alone. And no thread ever reads the value of a nil node.
\<close>

theorem task_queue_refines_fifo:
  assumes "queue_reachable s" "queue_step t s l s'"
  shows "fifo_step l (queue_contents s) = Some (queue_contents s') \<and> (\<forall>u. q_pc s' u \<noteq> DeqCrash)"
proof -
  obtain ns i j where inv: "queue_inv ns i j s" using reachable_inv [OF assms(1)] by blast
  then obtain ns' i' j' where inv': "queue_inv ns' i' j' s'" "chain_moves l ns i s ns' i' s'"
    using assms(2) enqueue_step_inv dequeue_step_inv unfolding queue_step_def by meson
  have "q_pc s' u \<noteq> DeqCrash" for u using queue_invD(2) [OF inv'(1), of u] by auto
  with moves_fifo [OF inv inv'] show ?thesis by blast
qed

definition example_queue :: lockFreeQueue where
  "example_queue = NewLockFreeQueue\<lparr>n_value := (\<lambda>_. 0)(1 := 7), n_alloc := 2, q_pc := (\<lambda>_. Idle)(3 := EnqCasNext 1 0)\<rparr>"

lemma example_queue_reachable: "queue_reachable example_queue"
proof -
  note reach = queue_reachable.step and st = queue_step_def
  let ?q = "\<lambda>p. NewLockFreeQueue\<lparr>n_value := (\<lambda>_. 0)(1 := 7), n_alloc := 2, q_pc := (\<lambda>_. Idle)(3 := p)\<rparr>"
  have "enqueue_step 3 NewLockFreeQueue Tau (?q (EnqLoadTail 1))"
    using enq_call [of NewLockFreeQueue 3 7] by (simp add: NewLockFreeQueue_def fun_upd_idem numeral_2_eq_2)
  moreover have "enqueue_step 3 (?q (EnqLoadTail 1)) Tau (?q (EnqLoadNext 1 0))"
    using enq_load_tail [of "?q (EnqLoadTail 1)" 3 1] by (simp add: NewLockFreeQueue_def)
  moreover have "enqueue_step 3 (?q (EnqLoadNext 1 0)) Tau (?q (EnqCheckTail 1 0 None))"
    using enq_load_next [of "?q (EnqLoadNext 1 0)" 3 1 0] by (simp add: NewLockFreeQueue_def)
  moreover have "enqueue_step 3 (?q (EnqCheckTail 1 0 None)) Tau (?q (EnqCasNext 1 0))"
    using enq_check [of "?q (EnqCheckTail 1 0 None)" 3 1 0 None] by (simp add: NewLockFreeQueue_def)
  ultimately show ?thesis unfolding example_queue_def using queue_reachable.start reach unfolding st by meson
qed

lemma task_queue_refines_fifo_witness:
  "queue_contents example_queue = [] \<and> (\<exists>s'. queue_step 3 example_queue (Link 7) s' \<and> queue_contents s' = [7])"
proof -
  have "n_next example_queue 0 = None" "n_value example_queue 1 = 7" "q_pc example_queue 3 = EnqCasNext 1 0"
    by (simp_all add: example_queue_def NewLockFreeQueue_def)
  from enq_link [OF this(3,1)] this(2) obtain s' where s': "queue_step 3 example_queue (Link 7) s'"
    unfolding queue_step_def by auto
  have e: "queue_contents example_queue = []" by (simp add: queue_contents_def example_queue_def NewLockFreeQueue_def numeral_2_eq_2)
  from task_queue_refines_fifo [OF example_queue_reachable s'] e s' show ?thesis by auto
qed

end
