(* ===== verification/Task_Wakeup.thy ===== *)
theory Task_Wakeup
  imports Task_Queue
begin

text \<open>
  How other goroutines wake the event loop to run their tasks: \<open>Trigger\<close>, \<open>UrgentTrigger\<close> and the
  chores of \<open>Polling\<close> in \<^verbatim>\<open>src/core/internal/netpoll/epoll_default_poller.go\<close>.

  A queue is its list of linked tasks together with its counter, as the refinement shown in \<open>Task_Queue\<close> allows: an
  enqueue is a linking step and a later counting step, a dequeue an unlinking step and a later counting
  step. A goroutine in the middle of \<open>Trigger\<close> is known only by how far it is, so the producers are counted
  by program point. The event descriptor is a flag, set by a write and cleared by a read; the write is taken to succeed or
  to fail with \<open>EAGAIN\<close>, in which case the descriptor is readable anyway. \<open>loop_next\<close> is the next atomic step of the
  event loop on this state, \<open>None\<close> while \<open>EpollWait\<close> has no wake-up to report.

  The lemmas show that there is exactly one wake-up under way while \<open>wakeupCall\<close> is set, that
  the loop never sleeps on a queued task, and that it runs every queued task once the producers are through.
\<close>

section \<open>State\<close>

datatype loop_pc =
    Waiting               \<comment> \<open>in \<open>EpollWait\<close>\<close>
  | RunUrgent             \<comment> \<open>\<open>urgentAsyncTaskQueue.Dequeue()\<close>\<close>
  | CountUrgent nat       \<comment> \<open>task taken, its counter not yet lowered\<close>
  | RunAsync nat          \<comment> \<open>\<open>asyncTaskQueue.Dequeue()\<close> of round \<open>i\<close>\<close>
  | CountAsync nat nat
  | Clear                 \<comment> \<open>\<open>StoreInt32(&p.wakeupCall, 0)\<close>\<close>
  | TestAsync             \<comment> \<open>\<open>p.asyncTaskQueue.IsEmpty()\<close>\<close>
  | TestUrgent            \<comment> \<open>\<open>p.urgentAsyncTaskQueue.IsEmpty()\<close>\<close>
  | Rearm                 \<comment> \<open>\<open>CompareAndSwapInt32(&p.wakeupCall, 0, 1)\<close>\<close>
  | Notify                \<comment> \<open>\<open>unix.Write(p.efd, b)\<close>\<close>

record task_list =
  linked :: "nat list"    \<comment> \<open>tasks in the queue\<close>
  counter :: int          \<comment> \<open>\<open>length\<close>\<close>
  uncounted :: nat        \<comment> \<open>producers that have linked and not counted their task\<close>
  tasks_run :: "nat list"       \<comment> \<open>tasks the loop has run\<close>

record wake =
  async :: task_list
  urgent :: task_list
  counted :: nat          \<comment> \<open>producers before their \<open>CompareAndSwapInt32\<close>\<close>
  won :: nat              \<comment> \<open>producers before their write to the event descriptor\<close>
  wakeupCall :: bool
  efd :: bool
  loop_at :: loop_pc

definition no_tasks :: task_list where
  "no_tasks = \<lparr>linked = [], counter = 0, uncounted = 0, tasks_run = []\<rparr>"

definition OpenPoller :: wake where
  "OpenPoller = \<lparr>async = no_tasks, urgent = no_tasks, counted = 0, won = 0, wakeupCall = False, efd = False, loop_at = Waiting\<rparr>"

definition link :: "nat \<Rightarrow> task_list \<Rightarrow> task_list" where
  "link t q = q\<lparr>linked := linked q @ [t], uncounted := Suc (uncounted q)\<rparr>"

definition count_up :: "task_list \<Rightarrow> task_list" where
  "count_up q = q\<lparr>counter := wrap32 (counter q + 1), uncounted := uncounted q - 1\<rparr>"

definition count_down :: "nat \<Rightarrow> task_list \<Rightarrow> task_list" where
  "count_down t q = q\<lparr>counter := wrap32 (counter q - 1), tasks_run := tasks_run q @ [t]\<rparr>"

definition MaxTasks :: nat where
  "MaxTasks = 256"

section \<open>Steps\<close>

inductive producer_step :: "wake \<Rightarrow> wake \<Rightarrow> bool" for s where
  trigger_link: "producer_step s (s\<lparr>async := link t (async s)\<rparr>)"
| urgent_link: "producer_step s (s\<lparr>urgent := link t (urgent s)\<rparr>)"
| trigger_count: "0 < uncounted (async s) \<Longrightarrow> producer_step s (s\<lparr>async := count_up (async s), counted := Suc (counted s)\<rparr>)"
| urgent_count: "0 < uncounted (urgent s) \<Longrightarrow> producer_step s (s\<lparr>urgent := count_up (urgent s), counted := Suc (counted s)\<rparr>)"
| trigger_cas_win: "0 < counted s \<Longrightarrow> \<not> wakeupCall s \<Longrightarrow>
     producer_step s (s\<lparr>counted := counted s - 1, wakeupCall := True, won := Suc (won s)\<rparr>)"
| trigger_cas_lose: "0 < counted s \<Longrightarrow> wakeupCall s \<Longrightarrow> producer_step s (s\<lparr>counted := counted s - 1\<rparr>)"
| trigger_write: "0 < won s \<Longrightarrow> producer_step s (s\<lparr>won := won s - 1, efd := True\<rparr>)"

fun loop_from :: "loop_pc \<Rightarrow> wake \<Rightarrow> wake option" where
  "loop_from Waiting s = (if efd s then Some (s\<lparr>efd := False, loop_at := RunUrgent\<rparr>) else None)"
| "loop_from RunUrgent s = (case linked (urgent s) of
     [] \<Rightarrow> Some (s\<lparr>loop_at := RunAsync 0\<rparr>)
   | t # ts \<Rightarrow> Some (s\<lparr>urgent := (urgent s)\<lparr>linked := ts\<rparr>, loop_at := CountUrgent t\<rparr>))"
| "loop_from (CountUrgent t) s = Some (s\<lparr>urgent := count_down t (urgent s), loop_at := RunUrgent\<rparr>)"
| "loop_from (RunAsync i) s = (if i < MaxTasks then
       (case linked (async s) of
          [] \<Rightarrow> Some (s\<lparr>loop_at := Clear\<rparr>)
        | t # ts \<Rightarrow> Some (s\<lparr>async := (async s)\<lparr>linked := ts\<rparr>, loop_at := CountAsync i t\<rparr>))
     else Some (s\<lparr>loop_at := Clear\<rparr>))"
| "loop_from (CountAsync i t) s = Some (s\<lparr>async := count_down t (async s), loop_at := RunAsync (Suc i)\<rparr>)"
| "loop_from Clear s = Some (s\<lparr>wakeupCall := False, loop_at := TestAsync\<rparr>)"
| "loop_from TestAsync s = Some (s\<lparr>loop_at := if counter (async s) \<noteq> 0 then Rearm else TestUrgent\<rparr>)"
| "loop_from TestUrgent s = Some (s\<lparr>loop_at := if counter (urgent s) \<noteq> 0 then Rearm else Waiting\<rparr>)"
| "loop_from Rearm s = Some (if wakeupCall s then s\<lparr>loop_at := Waiting\<rparr> else s\<lparr>wakeupCall := True, loop_at := Notify\<rparr>)"
| "loop_from Notify s = Some (s\<lparr>efd := True, loop_at := Waiting\<rparr>)"

definition loop_next :: "wake \<Rightarrow> wake option" where
  "loop_next s = loop_from (loop_at s) s"

definition loop_step :: "wake \<Rightarrow> wake \<Rightarrow> bool" where
  "loop_step s s' \<longleftrightarrow> loop_next s = Some s'"

text \<open>The 32-bit counters do not wrap around to zero while a queue holds fewer than \<open>2 ^ 32\<close> tasks.\<close>

definition fits :: "wake \<Rightarrow> bool" where
  "fits s \<longleftrightarrow> int (length (linked (async s))) < 2 ^ 32 \<and> int (length (linked (urgent s))) < 2 ^ 32"

inductive wake_reachable :: "wake \<Rightarrow> bool" where
  open_poller: "wake_reachable OpenPoller"
| produce: "wake_reachable s \<Longrightarrow> producer_step s s' \<Longrightarrow> fits s' \<Longrightarrow> wake_reachable s'"
| consume: "wake_reachable s \<Longrightarrow> loop_step s s' \<Longrightarrow> wake_reachable s'"

section \<open>One wake-up at a time\<close>

fun doing_chores :: "loop_pc \<Rightarrow> bool" where
  "doing_chores Waiting = False"
| "doing_chores TestAsync = False"
| "doing_chores TestUrgent = False"
| "doing_chores Rearm = False"
| "doing_chores _ = True"

definition one_token :: "wake \<Rightarrow> bool" where
  "one_token s \<longleftrightarrow> of_bool (efd s) + won s + of_bool (doing_chores (loop_at s)) = (of_bool (wakeupCall s) :: nat)"

fun async_taken :: "loop_pc \<Rightarrow> nat list" where
  "async_taken (CountAsync i t) = [t]"
| "async_taken _ = []"

fun urgent_taken :: "loop_pc \<Rightarrow> nat list" where
  "urgent_taken (CountUrgent t) = [t]"
| "urgent_taken _ = []"

definition counter_ok :: "nat list \<Rightarrow> task_list \<Rightarrow> bool" where
  "counter_ok ts q \<longleftrightarrow> counter q = wrap32 (int (length (linked q)) - int (uncounted q) + int (length ts))"

text \<open>A producer that has linked a task and has not yet tried to set \<open>wakeupCall\<close>.\<close>

definition announcing :: "wake \<Rightarrow> bool" where
  "announcing s \<longleftrightarrow> 0 < uncounted (async s) + uncounted (urgent s) + counted s"

definition noticed :: "wake \<Rightarrow> bool" where
  "noticed s \<longleftrightarrow> wakeupCall s \<or> announcing s \<or>
     (case loop_at s of
        TestUrgent \<Rightarrow> linked (async s) = []
      | Waiting \<Rightarrow> linked (async s) = [] \<and> linked (urgent s) = []
      | _ \<Rightarrow> True)"

definition wake_inv :: "wake \<Rightarrow> bool" where
  "wake_inv s \<longleftrightarrow> one_token s \<and> noticed s \<and> fits s \<and>
     counter_ok (async_taken (loop_at s)) (async s) \<and> counter_ok (urgent_taken (loop_at s)) (urgent s)"

lemma wrap32_add: "wrap32 (wrap32 x + y) = wrap32 (x + y)"
proof -
  have "((x + 2 ^ 31) mod 2 ^ 32 + y) mod 2 ^ 32 = (x + 2 ^ 31 + y) mod (2 ^ 32 :: int)" by (rule mod_add_left_eq)
  moreover have "x + 2 ^ 31 + y = x + y + 2 ^ 31" "wrap32 x + y + 2 ^ 31 = (x + 2 ^ 31) mod 2 ^ 32 + y" by (simp_all add: wrap32_def)
  ultimately show ?thesis unfolding wrap32_def [of "wrap32 x + y"] wrap32_def [of "x + y"] by metis
qed

lemma wrap32_nonzero: "0 < x \<Longrightarrow> x < 2 ^ 32 \<Longrightarrow> wrap32 x \<noteq> 0"
proof -
  assume x: "0 < x" "x < 2 ^ 32"
  show ?thesis
  proof (cases "x < 2 ^ 31")
    case True
    then show ?thesis using x wrap32_id [of x] by simp
  next
    case False
    then have "(x + 2 ^ 31) mod 2 ^ 32 = (x - 2 ^ 31) mod 2 ^ 32" using mod_add_self2 [of "x - 2 ^ 31" "2 ^ 32"] by (simp add: add.commute)
    then show ?thesis using x False by (simp add: wrap32_def)
  qed
qed

lemma counter_link: "counter_ok ts q \<Longrightarrow> counter_ok ts (link t q)"
  by (simp add: counter_ok_def link_def)

lemma counter_up: "counter_ok ts q \<Longrightarrow> 0 < uncounted q \<Longrightarrow> counter_ok ts (count_up q)"
  using wrap32_add [of "int (length (linked q)) - int (uncounted q) + int (length ts)" 1]
  by (simp add: counter_ok_def count_up_def of_nat_diff algebra_simps)

lemma counter_take: "counter_ok [] q \<Longrightarrow> linked q = t # ts \<Longrightarrow> counter_ok [t] (q\<lparr>linked := ts\<rparr>)"
  by (simp add: counter_ok_def algebra_simps)

lemma counter_down: "counter_ok [t] q \<Longrightarrow> counter_ok [] (count_down t q)"
  using wrap32_add [of "int (length (linked q)) - int (uncounted q) + 1" "- 1"]
  by (simp add: counter_ok_def count_down_def)

lemma counter_zero:
  assumes "counter_ok [] q" "counter q = 0" "int (length (linked q)) < 2 ^ 32" "uncounted q = 0"
  shows "linked q = []"
  using assms wrap32_nonzero [of "int (length (linked q))"] by (auto simp: counter_ok_def)

lemmas wake_inv_defs = wake_inv_def one_token_def noticed_def announcing_def fits_def

lemma task_list_simps [simp]:
  "linked (link t q) = linked q @ [t]" "uncounted (link t q) = Suc (uncounted q)" "tasks_run (link t q) = tasks_run q"
  "linked (count_up q) = linked q" "uncounted (count_up q) = uncounted q - 1" "tasks_run (count_up q) = tasks_run q"
  "linked (count_down t q) = linked q" "uncounted (count_down t q) = uncounted q" "tasks_run (count_down t q) = tasks_run q @ [t]"
  by (simp_all add: link_def count_up_def count_down_def)

lemma producer_step_token: "one_token s \<Longrightarrow> producer_step s s' \<Longrightarrow> one_token s'"
  by (erule producer_step.cases) (auto simp: one_token_def of_bool_def split: if_splits)

lemma producer_step_noticed: "noticed s \<Longrightarrow> one_token s \<Longrightarrow> producer_step s s' \<Longrightarrow> noticed s'"
  by (erule producer_step.cases) (auto simp: noticed_def announcing_def one_token_def of_bool_def split: if_splits)

lemma producer_step_inv:
  assumes "wake_inv s" "producer_step s s'" "fits s'"
  shows "wake_inv s'"
proof -
  have "counter_ok (async_taken (loop_at s')) (async s') \<and> counter_ok (urgent_taken (loop_at s')) (urgent s')"
    using assms(2) by cases (use assms(1) in \<open>simp_all add: wake_inv_def counter_link counter_up\<close>)
  then show ?thesis using assms producer_step_token producer_step_noticed by (auto simp: wake_inv_def)
qed

lemma loop_step_token:
  assumes "one_token s" "loop_step s s'"
  shows "one_token s'"
  using assms by (cases "loop_at s") (auto simp: one_token_def loop_step_def loop_next_def of_bool_def split: if_splits list.splits)

lemma loop_step_fits:
  assumes "fits s" "loop_step s s'"
  shows "fits s'"
  using assms by (cases "loop_at s") (auto simp: fits_def loop_step_def loop_next_def split: if_splits list.splits)

lemma loop_step_counters:
  assumes "counter_ok (async_taken (loop_at s)) (async s)" "counter_ok (urgent_taken (loop_at s)) (urgent s)" "loop_step s s'"
  shows "counter_ok (async_taken (loop_at s')) (async s') \<and> counter_ok (urgent_taken (loop_at s')) (urgent s')"
  using assms by (cases "loop_at s") (auto simp: loop_step_def loop_next_def counter_down counter_take split: if_splits list.splits)

lemma announcing_loop_at [simp]: "announcing (s\<lparr>loop_at := p\<rparr>) = announcing s"
  by (simp add: announcing_def)

lemma loop_step_noticed:
  assumes "wake_inv s" "loop_step s s'"
  shows "noticed s'"
proof -
  have inv: "one_token s" "noticed s" "fits s" "counter_ok (async_taken (loop_at s)) (async s)" "counter_ok (urgent_taken (loop_at s)) (urgent s)"
    using assms(1) by (simp_all add: wake_inv_def)
  have empty: "linked q = [] \<or> announcing s" if "q \<in> {async s, urgent s}" "counter_ok [] q" "counter q = 0" for q
    using counter_zero [OF that(2,3)] that(1) inv(3) by (auto simp: fits_def announcing_def)
  show ?thesis
  proof (cases "loop_at s")
    case TestAsync
    then show ?thesis using assms(2) inv empty [of "async s"]
      by (cases "counter (async s) = 0") (auto simp: loop_step_def loop_next_def noticed_def)
  next
    case TestUrgent
    then show ?thesis using assms(2) inv empty [of "urgent s"]
      by (cases "counter (urgent s) = 0") (auto simp: loop_step_def loop_next_def noticed_def)
  qed (use assms(2) inv in \<open>auto simp: loop_step_def loop_next_def noticed_def announcing_def one_token_def split: if_splits list.splits\<close>)
qed

lemma loop_step_inv: "wake_inv s \<Longrightarrow> loop_step s s' \<Longrightarrow> wake_inv s'"
  using loop_step_noticed [of s s'] loop_step_token [of s s'] loop_step_fits [of s s'] loop_step_counters [of s s']
  by (simp add: wake_inv_def)

lemma wake_reachable_inv: "wake_reachable s \<Longrightarrow> wake_inv s"
proof (induction rule: wake_reachable.induct)
  case open_poller
  show ?case by (simp add: wake_inv_defs OpenPoller_def no_tasks_def counter_ok_def wrap32_def)
qed (use producer_step_inv loop_step_inv in blast)+

section \<open>No task is forgotten\<close>

definition quiet :: "wake \<Rightarrow> bool" where
  "quiet s \<longleftrightarrow> \<not> announcing s \<and> won s = 0"

lemma blocked_empty:
  assumes "wake_inv s" "loop_next s = None" "quiet s"
  shows "linked (async s) = [] \<and> linked (urgent s) = []"
proof -
  have "loop_at s = Waiting" "\<not> efd s" using assms(2) by (cases "loop_at s"; simp add: loop_next_def split: if_splits list.splits)+
  with assms(1,3) show ?thesis by (auto simp: wake_inv_def noticed_def one_token_def quiet_def)
qed

text \<open>
  C10: no wake-up is lost. Whenever the event loop is blocked in \<open>EpollWait\<close> although a task is queued, some
  goroutine is still inside \<open>Trigger\<close> or \<open>UrgentTrigger\<close>: it has yet to count its task, to
  set \<open>wakeupCall\<close>, or to write to the event descriptor.
\<close>

theorem no_lost_wakeup:
  assumes "wake_reachable s" "loop_next s = None" "linked (async s) \<noteq> [] \<or> linked (urgent s) \<noteq> []"
  shows "0 < uncounted (async s) + uncounted (urgent s) + counted s + won s"
  using blocked_empty [OF wake_reachable_inv [OF assms(1)] assms(2)] assms(3) unfolding quiet_def announcing_def by linarith

text \<open>How far the loop is from taking its next task, and from blocking when there is none.\<close>

fun busy_rank :: "wake \<Rightarrow> loop_pc \<Rightarrow> nat" where
  "busy_rank s (CountAsync i t) = 10"
| "busy_rank s (CountUrgent t) = 10"
| "busy_rank s Clear = 8"
| "busy_rank s TestAsync = 7"
| "busy_rank s TestUrgent = 6"
| "busy_rank s Rearm = 5"
| "busy_rank s Notify = 4"
| "busy_rank s Waiting = (if efd s then 3 else 0)"
| "busy_rank s RunUrgent = 2"
| "busy_rank s (RunAsync i) = (if i < MaxTasks \<and> linked (async s) \<noteq> [] then 1 else 9)"

fun idle_rank :: "loop_pc \<Rightarrow> nat" where
  "idle_rank (CountAsync i t) = 12"
| "idle_rank (CountUrgent t) = 12"
| "idle_rank Rearm = 11"
| "idle_rank Notify = 10"
| "idle_rank RunUrgent = 5"
| "idle_rank (RunAsync i) = 4"
| "idle_rank Clear = 3"
| "idle_rank TestAsync = 2"
| "idle_rank TestUrgent = 1"
| "idle_rank Waiting = 0"

definition tasks_left :: "wake \<Rightarrow> nat" where
  "tasks_left s = length (linked (async s)) + length (linked (urgent s))"

definition loop_rank :: "wake \<Rightarrow> nat" where
  "loop_rank s = (if tasks_left s = 0 then idle_rank (loop_at s) + (if efd s then 9 else 0) else busy_rank s (loop_at s))"

lemma counter_idle: "counter_ok [] q \<Longrightarrow> linked q = [] \<Longrightarrow> uncounted q = 0 \<Longrightarrow> counter q = 0"
  by (simp add: counter_ok_def wrap32_def)

lemma MaxTasks_pos [simp]: "0 < MaxTasks"
  by (simp add: MaxTasks_def)

lemma loop_step_rank:
  assumes "wake_inv s" "quiet s" "loop_step s s'"
  shows "(s', s) \<in> measures [tasks_left, loop_rank]"
proof -
  have c: "tasks_left s = 0 \<Longrightarrow> loop_at s = TestAsync \<Longrightarrow> counter (async s) = 0"
      "tasks_left s = 0 \<Longrightarrow> loop_at s = TestUrgent \<Longrightarrow> counter (urgent s) = 0"
    using assms(1,2) by (auto simp: wake_inv_def quiet_def announcing_def tasks_left_def intro!: counter_idle)
  show ?thesis
  proof (cases "tasks_left s = 0")
    case True
    then show ?thesis using assms(3) c
      by (cases "loop_at s") (auto simp: loop_step_def loop_next_def tasks_left_def loop_rank_def split: if_splits)
  next
    case False
    then show ?thesis using assms(3)
      by (cases "loop_at s") (auto simp: loop_step_def loop_next_def tasks_left_def loop_rank_def split: if_splits list.splits)
  qed
qed

lemma loop_step_quiet:
  assumes "quiet s" "loop_step s s'"
  shows "quiet s'"
  using assms by (cases "loop_at s") (auto simp: loop_step_def loop_next_def quiet_def announcing_def split: if_splits list.splits)

text \<open>The tasks a queue has given out and those still in it, in order.\<close>

definition async_history :: "wake \<Rightarrow> nat list" where
  "async_history s = tasks_run (async s) @ async_taken (loop_at s) @ linked (async s)"

definition urgent_history :: "wake \<Rightarrow> nat list" where
  "urgent_history s = tasks_run (urgent s) @ urgent_taken (loop_at s) @ linked (urgent s)"

lemma loop_step_history:
  assumes "loop_step s s'"
  shows "async_history s' = async_history s \<and> urgent_history s' = urgent_history s"
  using assms by (cases "loop_at s")
    (auto simp: loop_step_def loop_next_def async_history_def urgent_history_def split: if_splits list.splits)

lemma loop_runs:
  assumes "wake_inv s" "quiet s"
  shows "\<exists>s'. loop_step\<^sup>*\<^sup>* s s' \<and> loop_next s' = None \<and> wake_inv s' \<and> quiet s' \<and>
    async_history s' = async_history s \<and> urgent_history s' = urgent_history s"
  using assms
proof (induction s rule: wf_induct [of "measures [tasks_left, loop_rank]"])
  case 1
  show ?case by simp
next
  case (2 s)
  show ?case
  proof (cases "loop_next s")
    case None
    then show ?thesis using 2(2,3) by blast
  next
    case (Some t)
    then have st: "loop_step s t" by (simp add: loop_step_def)
    from 2(1) loop_step_rank [OF 2(2,3) st] loop_step_inv [OF 2(2) st] loop_step_quiet [OF 2(3) st]
    obtain s' where "loop_step\<^sup>*\<^sup>* t s'" "loop_next s' = None" "wake_inv s'" "quiet s'" "async_history s' = async_history t"
      "urgent_history s' = urgent_history t" by blast
    with st loop_step_history [OF st] show ?thesis by (metis converse_rtranclp_into_rtranclp)
  qed
qed


definition linked_task :: wake where
  "linked_task = OpenPoller\<lparr>async := link 7 no_tasks\<rparr>"

definition announced_task :: wake where
  "announced_task = OpenPoller\<lparr>async := count_up (link 7 no_tasks), wakeupCall := True, efd := True\<rparr>"

lemma linked_task_reachable: "wake_reachable linked_task"
  using wake_reachable.produce [OF open_poller trigger_link [of OpenPoller 7]]
  by (simp add: linked_task_def OpenPoller_def fits_def no_tasks_def)

lemma announced_task_reachable: "wake_reachable announced_task"
proof -
  let ?a = "OpenPoller\<lparr>async := count_up (link 7 no_tasks), counted := 1\<rparr>"
  let ?b = "OpenPoller\<lparr>async := count_up (link 7 no_tasks), wakeupCall := True, won := 1\<rparr>"
  have "producer_step linked_task ?a" using trigger_count [of linked_task] by (simp add: linked_task_def OpenPoller_def)
  moreover have "producer_step ?a ?b" using trigger_cas_win [of ?a] by (simp add: OpenPoller_def)
  moreover have "producer_step ?b announced_task" using trigger_write [of ?b] by (simp add: OpenPoller_def announced_task_def)
  moreover have "fits ?a" "fits ?b" "fits announced_task" by (simp_all add: fits_def OpenPoller_def announced_task_def no_tasks_def)
  ultimately show ?thesis using linked_task_reachable wake_reachable.produce by meson
qed

lemma no_lost_wakeup_witness:
  "loop_next linked_task = None \<and> linked (async linked_task) = [7] \<and>
   0 < uncounted (async linked_task) + uncounted (urgent linked_task) + counted linked_task + won linked_task"
proof -
  have "loop_next linked_task = None" "linked (async linked_task) = [7]"
    by (simp_all add: linked_task_def OpenPoller_def loop_next_def no_tasks_def)
  with no_lost_wakeup [OF linked_task_reachable] show ?thesis by simp
qed


end
