(* ===== verification/Spec2Isabelle.thy ===== *)
theory Spec2Isabelle
  imports Request_Errors Timeouts Engine Auth_Ip Task_Wakeup Toolkit
begin

text \<open>
  A verification of rcproxy, a proxy in front of a Redis cluster.

  \<^bold>\<open>The program.\<close> Clients talk plain RESP to the proxy, as to a single Redis server. One event loop
  (\<^verbatim>\<open>src/core/eventloop.go\<close>) reads their requests, finds the slot of every key, splits requests with several
  keys by slot, queues the parts (fragments) on connections to the responsible nodes, collects the replies, puts
  them together again and answers every client in the order of its requests. A second goroutine keeps the table from
  slots to nodes up to date, and other goroutines hand tasks to the loop through a lock-free queue. The white list
  of client addresses, pools of redis connections, pools of buffers and a small web view surround it.

  \<^bold>\<open>Conventions.\<close> A byte is a \<^typ>\<open>char\<close>, a Go \<open>int\<close> an \<^typ>\<open>int\<close> with the wrap-around of its width
  written out (\<open>wrap64\<close>, \<open>wrap32\<close>), bit masks are words. \<open>'a go\<close> is \<open>'a option\<close>, where \<open>None\<close> is a panic or
  a loop that never ends; Go errors are values of a sum. A Go map is an association list, whose order stands for the
  order of a \<open>range\<close>. Pointers to messages, fragments and connections are natural numbers into stores that are fields of one
  state record, \<open>world\<close>. What the kernel answers to \<open>write\<close>, to connection attempts and what random numbers come out is a list
  in that state; what it answers to \<open>read\<close>, \<open>accept\<close> and \<open>epoll_wait\<close> is an argument.

  \<^bold>\<open>Theories, in the order of the code.\<close>
  \<^item> \<open>Prelude\<close>, \<open>Go_Strings\<close>: shared types and lemmas, the functions of the Go library that the sources use.
  \<^item> \<open>Codec_Buffer\<close>, \<open>Commands\<close>, \<open>Hashkit\<close>, \<open>Toolkit\<close>: \<^verbatim>\<open>codec/buff.go\<close>, \<^verbatim>\<open>codec/codec.go\<close>, \<^verbatim>\<open>codec/commands.go\<close>,
    \<^verbatim>\<open>pkg/hashkit/crc16.go\<close>, \<^verbatim>\<open>internal/toolkit/math.go\<close>. Commands are recognised in any letter case with their
    arity; \<open>Hash\<close> is the CRC16 slot of the cluster specification, given there bit by bit.
  \<^item> \<open>Resp\<close> gives RESP values and their encoding, the specification both codecs are compared with.
  \<^item> \<open>Client_Codec\<close> (\<^verbatim>\<open>codec_c.go\<close>): an encoded request is read back and split by slot exactly as the keys demand, a
    proper prefix waits for more bytes, and no input makes the decoder panic.
  \<^item> \<open>Server_Codec\<close> (\<^verbatim>\<open>codec_s.go\<close>): one reply, however nested, is consumed exactly; the recursion ends on every input.
  \<^item> \<open>Linked_Queue\<close> (\<^verbatim>\<open>message.go\<close>, \<^verbatim>\<open>redis_pool.go\<close>): the doubly linked queues on a store of pointers. The locale
    \<open>fifo\<close> is the interface, interpreted for the queues of messages, fragments and pooled connections.
  \<^item> \<open>Byte_Queue\<close>, \<open>Ring_Buffer\<close>, \<open>Linked_List_Buffer\<close>, \<open>Elastic_Buffer\<close> (\<^verbatim>\<open>pkg/buffer\<close>): the locale \<open>byte_queue\<close> states
    what a buffer promises; the four buffers interpret it, and every sequence of operations is shown to answer like a plain list of bytes.
  \<^item> \<open>Buffer_Pools\<close> (\<^verbatim>\<open>pkg/pool\<close>): slices of the pools fit the array behind them, pooled rings come out empty.
  \<^item> \<open>Redis_Client\<close> (\<^verbatim>\<open>pkg/redis/conn.go\<close>), \<open>Cluster\<close> (\<^verbatim>\<open>cluster.go\<close>, the slot table of \<^verbatim>\<open>gnet.go\<close>): a command and its reply
    survive the round trip; an answer to \<open>CLUSTER NODES\<close> becomes the known servers, their slaves and the slot table.
  \<^item> \<open>Proxy_State\<close>, \<open>Messages\<close> (\<^verbatim>\<open>message.go\<close>), \<open>Connection\<close> (\<^verbatim>\<open>connection.go\<close>, part of \<^verbatim>\<open>eventloop.go\<close>): the state,
    messages, fragments, connections. Bytes leave a connection in order or the connection is closed; requests are sent in
    the order of their queue and wait for replies in that order.
  \<^item> \<open>Server_Reply\<close> (the rest of \<^verbatim>\<open>codec_s.go\<close>, \<open>sread\<close>): the locale \<open>gather\<close> is the contract of the three commands that are
    split; interpreted for mget, mset and del it shows that the answer does not depend on the order of the partial replies.
  \<^item> \<open>Redis_Pool\<close> (\<^verbatim>\<open>redis_pool.go\<close>, \<^verbatim>\<open>acceptor.go\<close>, \<open>Dial\<close>), \<open>Listen_Server\<close> (\<^verbatim>\<open>server/\<close>), \<open>Event_Loop\<close> (\<^verbatim>\<open>eventloop.go\<close>,
    \<^verbatim>\<open>reactor_default_linux.go\<close>, \<open>Polling\<close>): pools, handlers, routing, the loop.
  \<^item> \<open>Proxy_Invariant\<close>: the invariant \<open>wf_proxy\<close> of the whole state (every open connection is registered under its
    descriptor, with well-formed buffers and all its queues; only open connections are registered; the fragments of a message
    have a message) is kept by every task, by accepting clients, by dialing redis and by the loop over the requests of a
    client, which always ends. \<open>Request_Errors\<close> follows a refused request from its bytes to the bytes of
    its error. \<open>Timeouts\<close> shows that overdue requests are answered.
  \<^item> \<open>Task_Queue\<close> (\<^verbatim>\<open>internal/queue/lock_free_queue.go\<close>): a step per atomic access, any number of threads, a refinement of
    a FIFO list. \<open>Task_Wakeup\<close> (\<^verbatim>\<open>epoll_default_poller.go\<close>): no wake-up is lost and every queued task is run.
  \<^item> \<open>Auth_Ip\<close> (\<^verbatim>\<open>authip/authip.go\<close>), \<open>Engine\<close> (\<^verbatim>\<open>engine.go\<close>, \<^verbatim>\<open>options.go\<close>, \<open>Run\<close>, \<^verbatim>\<open>web/cluster.go\<close>): who is let in,
    and that the proxy starts in a state that satisfies the invariant.

  \<^bold>\<open>Bounds and fuel.\<close> Loops that end by their data are structural recursions. The loops of the event loop are
  \<open>partial_function\<close>s without fuel; that they return is proved: the loop over requests by the length of the input, the
  timeout loop by the number of pending timeouts. The readers of replies count the depth of calls with fuel;
  the fuel their callers pass, a multiple of the number of unread bytes, is shown to be enough on every input. \<open>queue_contents\<close> follows at most as many
  nodes as were allocated; nodes on the chain are distinct, so none is missed. Buffers are assumed to hold at most
  \<open>2 ^ 62\<close> bytes, and a task queue fewer than \<open>2 ^ 32\<close> tasks, so that lengths and counters do not wrap around to a wrong value.

  \<^bold>\<open>Parameters.\<close> The tree of timeouts (\<open>llrb_ok\<close>), the concurrent hash maps (\<open>hashmap_ok\<close>, \<open>iphash_ok\<close>), the YAML parser and
  \<open>sync.Pool\<close> are third-party or runtime code: their operations are arguments and the predicates state their documented
  behaviour. Each is shown to be satisfiable by a concrete instance.

  \<^bold>\<open>Not modelled.\<close> Statistics and logging, which only report; the program entry, flags and configuration files; the creation of
  sockets and their options, whose outcome is an answer of the kernel; raw system-call wrappers; the kqueue ports and the
  optimised reactor, which are alternative builds of modelled code; \<open>ReceiveContext\<close> of the Redis client, which
  races a goroutine against a context; stopping the engine, which waits for goroutines.
  The reading of a wrong reply that is not consumed, the panics on empty requests and after failed writes, and
  the other defects found on the way are modelled as the code behaves and show up as hypotheses of the theorems.
\<close>

end
